(* ===== verification/Prelude.thy ===== *)
theory Prelude
  imports Main "HOL-Library.Word"
begin

text \<open>
  Shared vocabulary of the development: what a C++ call can do besides returning a value,
  state-passing programs over it, the machine integers of the code and the library lemmas
  that the component theories have in common.
\<close>

section \<open>Machine integers and names\<close>

text \<open>\<open>uint64_t\<close> and \<open>size_t\<close> (the code is built for 64-bit targets) and \<open>uint32_t\<close>.\<close>

type_synonym u64 = "64 word"
type_synonym u32 = "32 word"

type_synonym actor_id = string
type_synonym key = string
type_synonym val = string

named_theorems prog_simps \<open>unfolding rules of the state-passing combinators\<close>
named_theorems inv_intros \<open>preservation of a component's invariant by its operations\<close>

section \<open>Outcomes of a call\<close>

text \<open>
  Exceptions that the code throws or lets through (all of them, also those of client code,
  derive from \<open>std::exception\<close>, which the handlers of the code catch), and the undefined behaviours that the
  modelled code can run into. \<open>Relock\<close> is locking a \<open>std::mutex\<close> that the calling thread
  already owns, which the C++ standard leaves undefined and which waits forever in practice.
\<close>

datatype cpp_exn =
    Runtime_error string
  | Filesystem_error string
  | Invalid_argument
  | Out_of_range
  | User_exn string

datatype undef = Use_after_free | Pop_empty | Relock | Null_deref

text \<open>
  \<open>Blocked\<close>: the call waits on a condition variable whose predicate is false in this state.
  \<open>No_fuel\<close>: a bounded traversal ran out of steps; the invariants exclude it.
\<close>

datatype 'a outcome = Ret 'a | Throw cpp_exn | Undef undef | Blocked | No_fuel

type_synonym ('a, 's) prog = "'s \<Rightarrow> 'a outcome \<times> 's"

definition ret :: "'a \<Rightarrow> ('a, 's) prog" where
  "ret a s = (Ret a, s)"

definition throwP :: "cpp_exn \<Rightarrow> ('a, 's) prog" where
  "throwP e s = (Throw e, s)"

fun abort_of :: "'a outcome \<Rightarrow> 'b outcome" where
  "abort_of (Ret _) = No_fuel"
| "abort_of (Throw e) = Throw e"
| "abort_of (Undef u) = Undef u"
| "abort_of Blocked = Blocked"
| "abort_of No_fuel = No_fuel"

definition bindP :: "('a, 's) prog \<Rightarrow> ('a \<Rightarrow> ('b, 's) prog) \<Rightarrow> ('b, 's) prog" where
  "bindP m k s = (case m s of (r, s') \<Rightarrow>
     (case r of Ret a \<Rightarrow> k a s' | _ \<Rightarrow> (abort_of r, s')))"

text \<open>A \<open>try\<close> block whose handler catches every C++ exception.\<close>

definition catchP :: "('a, 's) prog \<Rightarrow> (cpp_exn \<Rightarrow> ('a, 's) prog) \<Rightarrow> ('a, 's) prog" where
  "catchP m h s = (case m s of (r, s') \<Rightarrow>
     (case r of Throw e \<Rightarrow> h e s' | _ \<Rightarrow> (r, s')))"

text \<open>A program over one part of the state, run in the whole state.\<close>

definition zoom :: "('s \<Rightarrow> 't) \<Rightarrow> ('t \<Rightarrow> 's \<Rightarrow> 's) \<Rightarrow> ('a, 't) prog \<Rightarrow> ('a, 's) prog" where
  "zoom g p m s = (case m (g s) of (r, t) \<Rightarrow> (r, p t s))"

definition modify :: "('s \<Rightarrow> 's) \<Rightarrow> (unit, 's) prog" where
  "modify f s = (Ret (), f s)"

definition gets :: "('s \<Rightarrow> 'a) \<Rightarrow> ('a, 's) prog" where
  "gets f s = (Ret (f s), s)"

lemmas [prog_simps] = ret_def throwP_def bindP_def catchP_def zoom_def modify_def gets_def

fun returns :: "'a outcome \<Rightarrow> bool" where
  "returns (Ret _) = True"
| "returns _ = False"

lemma returns_iff: "returns r \<longleftrightarrow> (\<exists>a. r = Ret a)"
  by (cases r) auto

lemma abort_of_not_Ret [simp]: "abort_of r \<noteq> Ret a"
  by (cases r) auto

lemma bindP_Ret [simp]: "m s = (Ret a, s') \<Longrightarrow> bindP m k s = k a s'"
  by (simp add: bindP_def)

lemma bindP_eq_Ret:
  "bindP m k s = (Ret b, t) \<longleftrightarrow> (\<exists>a s'. m s = (Ret a, s') \<and> k a s' = (Ret b, t))"
  by (auto simp: bindP_def split: prod.splits outcome.splits)

lemma bindP_gets: "bindP (gets g) k s = k (g s) s"
  by (simp add: bindP_def gets_def)

lemma bindP_modify: "bindP (modify f) k s = k () (f s)"
  by (simp add: bindP_def modify_def)

lemma bindP_ret: "bindP (ret a) k = k a"
  by (simp add: fun_eq_iff bindP_def ret_def)

lemma bindP_gets_const [simp]: "bindP (gets g) (\<lambda>_. m) = m"
  by (simp add: fun_eq_iff bindP_gets)

lemmas bindP_simps = bindP_gets bindP_modify bindP_ret

text \<open>Running a list of programs one after the other, stopping at the first abnormal outcome.\<close>

fun seqP :: "('a \<Rightarrow> (unit, 's) prog) \<Rightarrow> 'a list \<Rightarrow> (unit, 's) prog" where
  "seqP f [] s = (Ret (), s)"
| "seqP f (x # xs) s = (case f x s of
     (Ret _, s') \<Rightarrow> seqP f xs s'
   | (r, s') \<Rightarrow> (r, s'))"

lemma seqP_Cons_Ret [simp]: "f x s = (Ret (), s') \<Longrightarrow> seqP f (x # xs) s = seqP f xs s'"
  by simp

lemma seqP_append:
  "seqP f (xs @ ys) s = (case seqP f xs s of
     (Ret _, s') \<Rightarrow> seqP f ys s'
   | (r, s') \<Rightarrow> (r, s'))"
  by (induction xs arbitrary: s) (auto split: prod.splits outcome.splits)

lemma seqP_total:
  assumes "\<And>x s. x \<in> set xs \<Longrightarrow> f x s = (Ret (), g x s)"
  shows "seqP f xs s = (Ret (), fold g xs s)"
  using assms by (induction xs arbitrary: s) auto

lemma seqP_invariant:
  assumes "seqP f xs s = (r, t)" and "P s"
    and "\<And>x s r t. x \<in> set xs \<Longrightarrow> P s \<Longrightarrow> f x s = (r, t) \<Longrightarrow> P t"
  shows "P t"
  using assms
proof (induction xs arbitrary: s)
  case (Cons x xs)
  obtain r1 s1 where fx: "f x s = (r1, s1)" by (cases "f x s")
  with Cons.prems have s1: "P s1" by (meson list.set_intros(1))
  show ?case
  proof (cases r1)
    case (Ret u)
    with Cons.prems(1) fx have "seqP f xs s1 = (r, t)" by simp
    then show ?thesis using s1
      by (rule Cons.IH) (use Cons.prems(3) in \<open>meson list.set_intros(2)\<close>)
  qed (use Cons.prems fx s1 in auto)
qed auto

section \<open>Incrementing a counter\<close>

lemma less_plus_one:
  assumes "(n :: 'a::len word) \<noteq> - 1"
  shows "n < n + 1"
proof -
  from assms have "n + 1 \<noteq> 0" by (metis add_eq_0_iff2)
  then have "unat (n + 1) = Suc (unat n)" using unatSuc [of n] by (simp add: add.commute)
  then show ?thesis by (simp add: word_less_nat_alt)
qed

section \<open>Removing the first match of a list\<close>

fun remove_first :: "('a \<Rightarrow> bool) \<Rightarrow> 'a list \<Rightarrow> 'a list" where
  "remove_first P [] = []"
| "remove_first P (x # xs) = (if P x then xs else x # remove_first P xs)"

lemma remove_first_none [simp]: "\<forall>x \<in> set xs. \<not> P x \<Longrightarrow> remove_first P xs = xs"
  by (induction xs) auto

lemma remove_first_subset: "set (remove_first P xs) \<subseteq> set xs"
  by (induction xs) auto

lemma length_remove_first:
  "length (remove_first P xs) = (if \<exists>x \<in> set xs. P x then length xs - 1 else length xs)"
  by (induction xs) (auto simp: Suc_diff_le neq_Nil_conv Suc_le_eq dest!: length_pos_if_in_set)

lemma distinct_map_remove_first:
  "distinct (map f xs) \<Longrightarrow> distinct (map f (remove_first P xs))"
  by (induction xs) (use remove_first_subset in \<open>fastforce+\<close>)

lemma remove_first_unique:
  assumes "distinct (map f xs)"
  shows "remove_first (\<lambda>x. f x = k) xs = filter (\<lambda>x. f x \<noteq> k) xs"
  using assms by (induction xs) (auto intro!: filter_True [symmetric] intro: rev_image_eqI)

end
