(* ===== verification/Threadsafe_List.thy ===== *)
theory Threadsafe_List
  imports Prelude
begin

text \<open>
  \<^verbatim>\<open>utils/threadsafe_list.h\<close>: \<open>ThreadSafeList<T>\<close>, a linked list of heap nodes with
  hand-over-hand locking. The model keeps the nodes on an explicit heap, so that freeing a
  node and following a pointer to it are visible: the traversals below read the \<open>next\<close>
  field of the node they stand on, and reading a freed node is \<open>Use_after_free\<close>.
  The model runs one operation at a time; \<^verbatim>\<open>List_Locking\<close> shows that the hand-over-hand locks
  make concurrent operations behave so. Callbacks do not re-enter the list (\<^verbatim>\<open>List_Reentry\<close> is about those that do).
  The abstraction of a list is \<open>contents\<close>; the refinement lemmas say what each operation
  does to it, and the locale \<open>seq_store\<close> is the contract its clients rely on.
\<close>

section \<open>Nodes, pointers and the heap\<close>

text \<open>A \<open>node*\<close> points at the member \<open>head\<close> or at a node of the heap.\<close>

datatype nptr = Head | Node nat

record 'a lnode =
  nd_data :: 'a
  nd_next :: "nat option"
  nd_prev :: "nptr option"

text \<open>\<open>ts_fresh\<close> is the next address the allocator hands out; freed addresses stay unused.\<close>

record 'a tslist =
  ts_heap :: "nat \<rightharpoonup> 'a lnode"
  ts_head :: "nat option"
  ts_size :: u64
  ts_next_id :: u64
  ts_fresh :: nat

definition tsl_new :: "'a tslist" where
  "tsl_new = \<lparr>ts_heap = Map.empty, ts_head = None, ts_size = 0, ts_next_id = 1, ts_fresh = 0\<rparr>"

definition read_next :: "'a tslist \<Rightarrow> nptr \<Rightarrow> nat option outcome" where
  "read_next l p = (case p of
     Head \<Rightarrow> Ret (ts_head l)
   | Node a \<Rightarrow> (case ts_heap l a of None \<Rightarrow> Undef Use_after_free | Some nd \<Rightarrow> Ret (nd_next nd)))"

definition set_next :: "nptr \<Rightarrow> nat option \<Rightarrow> 'a tslist \<Rightarrow> 'a tslist" where
  "set_next p v l = (case p of
     Head \<Rightarrow> l\<lparr>ts_head := v\<rparr>
   | Node a \<Rightarrow> (case ts_heap l a of
       None \<Rightarrow> l
     | Some nd \<Rightarrow> l\<lparr>ts_heap := (ts_heap l)(a \<mapsto> nd\<lparr>nd_next := v\<rparr>)\<rparr>))"

definition set_prev :: "nat \<Rightarrow> nptr option \<Rightarrow> 'a tslist \<Rightarrow> 'a tslist" where
  "set_prev a v l = (case ts_heap l a of
     None \<Rightarrow> l
   | Some nd \<Rightarrow> l\<lparr>ts_heap := (ts_heap l)(a \<mapsto> nd\<lparr>nd_prev := v\<rparr>)\<rparr>)"

section \<open>The operations\<close>

text \<open>
  \<open>push_front\<close>: the code moves \<open>head.next\<close> into the new node and only then tests
  \<open>head.next\<close>, which is null by then; the model keeps that order.
\<close>

definition tsl_push_front :: "'a \<Rightarrow> 'a tslist \<Rightarrow> 'a tslist" where
  "tsl_push_front v l =
     (let a = ts_fresh l;
          nd = \<lparr>nd_data = v, nd_next = ts_head l, nd_prev = None\<rparr>;
          l1 = l\<lparr>ts_head := None\<rparr>;
          l2 = (case ts_head l1 of Some b \<Rightarrow> set_prev b (Some (Node a)) l1 | None \<Rightarrow> l1)
      in l2\<lparr>ts_heap := (ts_heap l2)(a \<mapsto> nd\<lparr>nd_prev := Some Head\<rparr>),
            ts_head := Some a,
            ts_size := ts_size l2 + 1,
            ts_fresh := Suc a\<rparr>)"

definition tsl_add :: "'a \<Rightarrow> 'a tslist \<Rightarrow> u64 \<times> 'a tslist" where
  "tsl_add v l =
     (let new_id = ts_next_id l
      in (new_id, tsl_push_front v (l\<lparr>ts_next_id := new_id + 1\<rparr>)))"

text \<open>
  The traversals: the first argument bounds the number of nodes visited, \<open>cur\<close> is the
  code's \<open>current\<close>.
\<close>

fun for_each_from ::
  "nat \<Rightarrow> nptr \<Rightarrow> ('a \<Rightarrow> (unit, 's) prog) \<Rightarrow> 'a tslist \<Rightarrow> (unit, 's) prog" where
  "for_each_from 0 cur f l s = (No_fuel, s)"
| "for_each_from (Suc n) cur f l s = (case read_next l cur of
     Ret None \<Rightarrow> (Ret (), s)
   | Ret (Some a) \<Rightarrow> (case ts_heap l a of
       None \<Rightarrow> (Undef Use_after_free, s)
     | Some nd \<Rightarrow> (case f (nd_data nd) s of
         (Ret _, s') \<Rightarrow> for_each_from n (Node a) f l s'
       | (r, s') \<Rightarrow> (r, s')))
   | r \<Rightarrow> (abort_of r, s))"

definition tsl_for_each :: "('a \<Rightarrow> (unit, 's) prog) \<Rightarrow> 'a tslist \<Rightarrow> (unit, 's) prog" where
  "tsl_for_each f l = for_each_from (Suc (ts_fresh l)) Head f l"

fun find_first_from :: "nat \<Rightarrow> nptr \<Rightarrow> ('a \<Rightarrow> bool) \<Rightarrow> 'a tslist \<Rightarrow> 'a option outcome" where
  "find_first_from 0 cur p l = No_fuel"
| "find_first_from (Suc n) cur p l = (case read_next l cur of
     Ret None \<Rightarrow> Ret None
   | Ret (Some a) \<Rightarrow> (case ts_heap l a of
       None \<Rightarrow> Undef Use_after_free
     | Some nd \<Rightarrow> (if p (nd_data nd) then Ret (Some (nd_data nd))
                  else find_first_from n (Node a) p l))
   | r \<Rightarrow> abort_of r)"

definition tsl_find_first_if :: "('a \<Rightarrow> bool) \<Rightarrow> 'a tslist \<Rightarrow> 'a option outcome" where
  "tsl_find_first_if p l = find_first_from (Suc (ts_fresh l)) Head p l"

text \<open>
  The unlinking both removals share: \<open>old_next = move(current->next)\<close>, fix the successor's
  \<open>prev\<close>, splice, and destroy \<open>old_next\<close> at the end of its block.
\<close>

definition unlink :: "nptr \<Rightarrow> nat \<Rightarrow> 'a tslist \<Rightarrow> 'a tslist" where
  "unlink cur a l = (case ts_heap l a of
     None \<Rightarrow> l
   | Some old \<Rightarrow>
       (let l1 = set_next cur None l;
            l2 = (case nd_next old of Some b \<Rightarrow> set_prev b (Some cur) l1 | None \<Rightarrow> l1);
            l3 = set_next cur (nd_next old) l2
        in l3\<lparr>ts_heap := (ts_heap l3)(a := None), ts_size := ts_size l3 - 1\<rparr>))"

fun remove_first_from ::
  "nat \<Rightarrow> nptr \<Rightarrow> ('a \<Rightarrow> bool) \<Rightarrow> (bool, 'a tslist) prog" where
  "remove_first_from 0 cur p l = (No_fuel, l)"
| "remove_first_from (Suc n) cur p l = (case read_next l cur of
     Ret None \<Rightarrow> (Ret False, l)
   | Ret (Some a) \<Rightarrow> (case ts_heap l a of
       None \<Rightarrow> (Undef Use_after_free, l)
     | Some nd \<Rightarrow> (if p (nd_data nd) then (Ret True, unlink cur a l)
                  else remove_first_from n (Node a) p l))
   | r \<Rightarrow> (abort_of r, l))"

definition tsl_remove_first_if :: "('a \<Rightarrow> bool) \<Rightarrow> (bool, 'a tslist) prog" where
  "tsl_remove_first_if p l = remove_first_from (Suc (ts_fresh l)) Head p l"

text \<open>
  \<open>remove_if\<close> goes on after a removal with \<open>current = next\<close>, the node it has just
  destroyed, and reads \<open>current->next\<close> in the loop condition. Its predicate may have
  effects (the one of \<open>MemStore::cleanup_expired\<close> erases store entries).
\<close>

fun remove_if_from ::
  "nat \<Rightarrow> nptr \<Rightarrow> ('a \<Rightarrow> 's \<Rightarrow> bool \<times> 's) \<Rightarrow> (unit, 'a tslist \<times> 's) prog" where
  "remove_if_from 0 cur p (l, s) = (No_fuel, l, s)"
| "remove_if_from (Suc n) cur p (l, s) = (case read_next l cur of
     Ret None \<Rightarrow> (Ret (), l, s)
   | Ret (Some a) \<Rightarrow> (case ts_heap l a of
       None \<Rightarrow> (Undef Use_after_free, l, s)
     | Some nd \<Rightarrow> (case p (nd_data nd) s of (hit, s') \<Rightarrow>
         remove_if_from n (Node a) p (if hit then unlink cur a l else l, s')))
   | r \<Rightarrow> (abort_of r, l, s))"

definition tsl_remove_if :: "('a \<Rightarrow> 's \<Rightarrow> bool \<times> 's) \<Rightarrow> (unit, 'a tslist \<times> 's) prog" where
  "tsl_remove_if p ls = remove_if_from (Suc (ts_fresh (fst ls))) Head p ls"

text \<open>The destructor removes every node with \<open>remove_if\<close>.\<close>

definition tsl_destroy :: "'a tslist \<Rightarrow> unit outcome" where
  "tsl_destroy l = fst (tsl_remove_if (\<lambda>_ s. (True, s)) (l, ()))"

section \<open>Paths and the representation invariant\<close>

primrec path :: "(nat \<rightharpoonup> 'a lnode) \<Rightarrow> nat option \<Rightarrow> nat list \<Rightarrow> nat option \<Rightarrow> bool" where
  "path h p [] q \<longleftrightarrow> p = q"
| "path h p (a # as) q \<longleftrightarrow> p = Some a \<and> (\<exists>nd. h a = Some nd \<and> path h (nd_next nd) as q)"

definition data_of :: "(nat \<rightharpoonup> 'a lnode) \<Rightarrow> nat \<Rightarrow> 'a" where
  "data_of h a = nd_data (the (h a))"

fun walk :: "nat \<Rightarrow> (nat \<rightharpoonup> 'a lnode) \<Rightarrow> nat option \<Rightarrow> nat list" where
  "walk 0 h p = []"
| "walk (Suc n) h None = []"
| "walk (Suc n) h (Some a) = (case h a of None \<Rightarrow> [] | Some nd \<Rightarrow> a # walk n h (nd_next nd))"

definition contents :: "'a tslist \<Rightarrow> 'a list" where
  "contents l = map (data_of (ts_heap l)) (walk (ts_fresh l) (ts_heap l) (ts_head l))"

text \<open>\<open>tsl_rep l as\<close>: the live nodes of \<open>l\<close> are exactly \<open>as\<close>, in list order.\<close>

definition tsl_rep :: "'a tslist \<Rightarrow> nat list \<Rightarrow> bool" where
  "tsl_rep l as \<longleftrightarrow>
     path (ts_heap l) (ts_head l) as None \<and> distinct as \<and> dom (ts_heap l) = set as \<and>
     set as \<subseteq> {..<ts_fresh l} \<and> ts_size l = of_nat (length as)"

definition tsl_inv :: "'a tslist \<Rightarrow> bool" where
  "tsl_inv l \<longleftrightarrow> (\<exists>as. tsl_rep l as)"

lemma data_of_Some [simp]: "h a = Some nd \<Longrightarrow> data_of h a = nd_data nd"
  by (simp add: data_of_def)

lemma path_append:
  "path h p (as @ bs) q \<longleftrightarrow> (\<exists>r. path h p as r \<and> path h r bs q)"
  by (induction as arbitrary: p) auto

lemma path_cong:
  assumes "\<And>a. a \<in> set as \<Longrightarrow> map_option nd_next (h a) = map_option nd_next (h' a)"
  shows "path h p as q \<longleftrightarrow> path h' p as q"
  using assms
proof (induction as arbitrary: p)
  case (Cons a as)
  from Cons.prems [of a] have "map_option nd_next (h a) = map_option nd_next (h' a)" by simp
  with Cons show ?case by (cases "h a"; cases "h' a") auto
qed auto

lemma walk_path:
  assumes "path h p as None" "length as \<le> n"
  shows "walk n h p = as"
  using assms
proof (induction as arbitrary: p n)
  case Nil
  then show ?case by (cases n) auto
next
  case (Cons a as)
  then show ?case by (cases n) auto
qed

lemma rep_length:
  assumes "tsl_rep l as"
  shows "length as \<le> ts_fresh l"
proof -
  from assms have "card (set as) \<le> card {..<ts_fresh l}"
    by (intro card_mono) (auto simp: tsl_rep_def)
  with assms show ?thesis by (simp add: tsl_rep_def distinct_card)
qed

lemma contents_rep:
  "tsl_rep l as \<Longrightarrow> contents l = map (data_of (ts_heap l)) as"
  using rep_length [of l as] walk_path [of "ts_heap l" "ts_head l" as "ts_fresh l"]
  by (simp add: contents_def tsl_rep_def)

lemma rep_invI: "tsl_rep l as \<Longrightarrow> tsl_inv l"
  by (auto simp: tsl_inv_def)

lemma inv_repE:
  assumes "tsl_inv l"
  obtains as where "tsl_rep l as" and "contents l = map (data_of (ts_heap l)) as"
  using assms contents_rep by (auto simp: tsl_inv_def)

section \<open>Refinement: what the operations do to the contents\<close>

lemma rep_new: "tsl_rep tsl_new []"
  by (simp add: tsl_rep_def tsl_new_def)

lemma new_inv [simp, inv_intros]: "tsl_inv tsl_new"
  by (rule rep_invI [OF rep_new])

lemma new_contents [simp]: "contents tsl_new = []"
  by (simp add: contents_rep [OF rep_new])

lemma push_front_unfold:
  "tsl_push_front v l =
     l\<lparr>ts_heap := (ts_heap l)(ts_fresh l \<mapsto>
         \<lparr>nd_data = v, nd_next = ts_head l, nd_prev = Some Head\<rparr>),
       ts_head := Some (ts_fresh l), ts_size := ts_size l + 1, ts_fresh := Suc (ts_fresh l)\<rparr>"
  by (simp add: tsl_push_front_def Let_def)

text \<open>The old first node keeps its \<open>prev\<close>, which is the head, also when it is not the first any more. Nothing reads \<open>prev\<close>.\<close>

lemma push_front_keeps_prev: "b \<noteq> ts_fresh l \<Longrightarrow> ts_heap (tsl_push_front v l) b = ts_heap l b"
  by (simp add: push_front_unfold)

lemma rep_push_front:
  assumes "tsl_rep l as"
  shows "tsl_rep (tsl_push_front v l) (ts_fresh l # as)"
    and "map (data_of (ts_heap (tsl_push_front v l))) (ts_fresh l # as) =
         v # map (data_of (ts_heap l)) as"
proof -
  let ?a = "ts_fresh l"
  from assms have fresh: "?a \<notin> set as" by (auto simp: tsl_rep_def)
  have "path ((ts_heap l)(?a \<mapsto> nd)) p as None = path (ts_heap l) p as None" for p nd
    by (rule path_cong) (use fresh in auto)
  with assms fresh show "tsl_rep (tsl_push_front v l) (?a # as)"
    by (auto simp: tsl_rep_def push_front_unfold)
  from fresh show "map (data_of (ts_heap (tsl_push_front v l))) (?a # as) =
      v # map (data_of (ts_heap l)) as"
    by (auto simp: push_front_unfold data_of_def)
qed

lemma push_front_inv [simp, inv_intros]: "tsl_inv l \<Longrightarrow> tsl_inv (tsl_push_front v l)"
  by (auto simp: tsl_inv_def intro: rep_push_front)

lemma push_front_contents [simp]:
  assumes "tsl_inv l"
  shows "contents (tsl_push_front v l) = v # contents l"
proof -
  from assms obtain as where rep: "tsl_rep l as" by (auto simp: tsl_inv_def)
  show ?thesis
    unfolding contents_rep [OF rep_push_front(1) [OF rep]] contents_rep [OF rep]
    by (rule rep_push_front(2) [OF rep])
qed

lemma size_contents: "tsl_inv l \<Longrightarrow> ts_size l = of_nat (length (contents l))"
  by (erule inv_repE) (simp add: tsl_rep_def)

lemma for_each_path:
  assumes "read_next l cur = Ret p" and "path (ts_heap l) p as None" and "length as < n"
  shows "for_each_from n cur f l s = seqP f (map (data_of (ts_heap l)) as) s"
  using assms
proof (induction as arbitrary: n cur p s)
  case Nil
  then show ?case by (cases n) auto
next
  case (Cons a as)
  then obtain nd where nd: "ts_heap l a = Some nd" "path (ts_heap l) (nd_next nd) as None"
    by auto
  from Cons.prems obtain m where n: "n = Suc m" by (cases n) auto
  have "for_each_from m (Node a) f l s' = seqP f (map (data_of (ts_heap l)) as) s'" for s'
    by (rule Cons.IH [OF _ nd(2)]) (use Cons.prems n nd in \<open>simp_all add: read_next_def\<close>)
  with Cons.prems n nd show ?case by (simp split: prod.splits outcome.splits)
qed

theorem for_each_contents:
  assumes "tsl_inv l"
  shows "tsl_for_each f l s = seqP f (contents l) s"
proof -
  from assms obtain as where rep: "tsl_rep l as" and c: "contents l = map (data_of (ts_heap l)) as"
    by (rule inv_repE)
  from rep rep_length [OF rep] show ?thesis
    unfolding c tsl_for_each_def
    by (intro for_each_path) (auto simp: read_next_def tsl_rep_def)
qed

lemma find_first_path:
  assumes "read_next l cur = Ret p" and "path (ts_heap l) p as None" and "length as < n"
  shows "find_first_from n cur P l = Ret (find P (map (data_of (ts_heap l)) as))"
  using assms
proof (induction as arbitrary: n cur p)
  case Nil
  then show ?case by (cases n) auto
next
  case (Cons a as)
  then obtain nd where nd: "ts_heap l a = Some nd" "path (ts_heap l) (nd_next nd) as None"
    by auto
  from Cons.prems obtain m where n: "n = Suc m" by (cases n) auto
  have "find_first_from m (Node a) P l = Ret (find P (map (data_of (ts_heap l)) as))"
    by (rule Cons.IH [OF _ nd(2)]) (use Cons.prems n nd in \<open>simp_all add: read_next_def\<close>)
  with Cons.prems n nd show ?case by simp
qed

theorem find_first_if_contents:
  assumes "tsl_inv l"
  shows "tsl_find_first_if P l = Ret (find P (contents l))"
proof -
  from assms obtain as where rep: "tsl_rep l as" and c: "contents l = map (data_of (ts_heap l)) as"
    by (rule inv_repE)
  from rep rep_length [OF rep] show ?thesis
    unfolding c tsl_find_first_if_def
    by (intro find_first_path) (auto simp: read_next_def tsl_rep_def)
qed

subsection \<open>Unlinking a node\<close>

definition last_ptr :: "nat list \<Rightarrow> nptr" where
  "last_ptr as = (if as = [] then Head else Node (last as))"

lemma last_ptr_snoc [simp]: "last_ptr (as @ [a]) = Node a"
  by (simp add: last_ptr_def)

lemma read_next_rep:
  assumes "path (ts_heap l) (ts_head l) (pre @ bs) None"
  shows "\<exists>p. read_next l (last_ptr pre) = Ret p \<and> path (ts_heap l) p bs None"
proof (cases pre rule: rev_cases)
  case Nil
  with assms show ?thesis by (simp add: last_ptr_def read_next_def)
next
  case (snoc pre' c)
  with assms show ?thesis by (auto simp: path_append read_next_def)
qed

text \<open>The pointer writes change one field of one node, and never the data or the domain.\<close>

lemma set_prev_simps [simp]:
  "ts_head (set_prev b v l) = ts_head l"
  "ts_size (set_prev b v l) = ts_size l"
  "ts_fresh (set_prev b v l) = ts_fresh l"
  "map_option nd_next (ts_heap (set_prev b v l) x) = map_option nd_next (ts_heap l x)"
  "map_option nd_data (ts_heap (set_prev b v l) x) = map_option nd_data (ts_heap l x)"
  by (auto simp: set_prev_def split: option.splits)

lemma set_next_simps [simp]:
  "ts_head (set_next p v l) = (if p = Head then v else ts_head l)"
  "ts_size (set_next p v l) = ts_size l"
  "ts_fresh (set_next p v l) = ts_fresh l"
  "map_option nd_next (ts_heap (set_next p v l) x) =
     (if p = Node x then map_option (\<lambda>_. v) (ts_heap l x) else map_option nd_next (ts_heap l x))"
  "map_option nd_data (ts_heap (set_next p v l) x) = map_option nd_data (ts_heap l x)"
  by (auto simp: set_next_def split: option.splits nptr.splits)

lemma map_option_const: "map_option (\<lambda>_. v) x = map_option (\<lambda>_. v) (map_option f x)"
  by (cases x) auto

lemma dom_nd_data: "dom h = dom (\<lambda>x. map_option nd_data (h x))"
  by (auto simp: dom_def)

lemma unlink_simps:
  assumes "ts_heap l a = Some old" and "cur \<noteq> Node a"
  shows "ts_head (unlink cur a l) = (if cur = Head then nd_next old else ts_head l)"
    and "ts_size (unlink cur a l) = ts_size l - 1"
    and "ts_fresh (unlink cur a l) = ts_fresh l"
    and "map_option nd_data (ts_heap (unlink cur a l) x) =
      (if x = a then None else map_option nd_data (ts_heap l x))"
    and "map_option nd_next (ts_heap (unlink cur a l) x) =
      (if x = a then None
       else if cur = Node x then map_option (\<lambda>_. nd_next old) (ts_heap l x)
       else map_option nd_next (ts_heap l x))"
  using assms
  by (auto simp: unlink_def Let_def map_option_const [of _ "ts_heap _ _" nd_data] split: option.splits)

lemma map_option_nd_dataD:
  "map_option nd_data (h x) = map_option nd_data (h' x) \<Longrightarrow> data_of h x = data_of h' x \<or> h x = None"
  by (cases "h x"; cases "h' x") auto

lemma rep_unlink:
  assumes rep: "tsl_rep l (pre @ a # bs)"
  defines "l' \<equiv> unlink (last_ptr pre) a l"
  shows "tsl_rep l' (pre @ bs)"
    and "map (data_of (ts_heap l')) (pre @ bs) = map (data_of (ts_heap l)) (pre @ bs)"
proof -
  from rep obtain old p where old: "ts_heap l a = Some old"
    and pre: "path (ts_heap l) (ts_head l) pre (Some a)"
    and bs: "path (ts_heap l) (nd_next old) bs None"
    by (auto simp: tsl_rep_def path_append)
  from rep have a: "a \<notin> set pre" "a \<notin> set bs" and dist: "distinct pre" "set pre \<inter> set bs = {}"
    by (auto simp: tsl_rep_def)
  have cur: "last_ptr pre \<noteq> Node a" using a by (auto simp: last_ptr_def)
  note un = unlink_simps [OF old cur, folded l'_def]
  have "path (ts_heap l') (nd_next old) bs None = path (ts_heap l) (nd_next old) bs None"
    by (rule path_cong) (use a dist in \<open>auto simp: un last_ptr_def dest: last_in_set split: if_splits\<close>)
  with bs have bs': "path (ts_heap l') (nd_next old) bs None" by simp
  have pre': "path (ts_heap l') (ts_head l') pre (nd_next old)"
  proof (cases pre rule: rev_cases)
    case Nil
    then show ?thesis by (simp add: un last_ptr_def)
  next
    case (snoc pr c)
    with pre obtain nc where nc: "ts_heap l c = Some nc" "path (ts_heap l) (ts_head l) pr (Some c)"
      by (auto simp: path_append)
    have "path (ts_heap l') (ts_head l) pr (Some c) = path (ts_heap l) (ts_head l) pr (Some c)"
      by (rule path_cong) (use a dist snoc in \<open>auto simp: un\<close>)
    moreover have "map_option nd_next (ts_heap l' c) = Some (nd_next old)"
      using nc a snoc by (simp add: un)
    then obtain nc' where "ts_heap l' c = Some nc'" "nd_next nc' = nd_next old"
      by (simp only: map_option_eq_Some) blast
    ultimately show ?thesis using nc snoc by (simp add: path_append un(1))
  qed
  have "dom (ts_heap l') = dom (ts_heap l) - {a}"
    by (subst (1 2) dom_nd_data) (auto simp: un dom_def split: if_splits)
  with rep bs' pre' a show "tsl_rep l' (pre @ bs)"
    by (auto simp: tsl_rep_def path_append un)
  show "map (data_of (ts_heap l')) (pre @ bs) = map (data_of (ts_heap l)) (pre @ bs)"
  proof (rule map_cong [OF refl])
    fix x assume x: "x \<in> set (pre @ bs)"
    with a have "map_option nd_data (ts_heap l x) = map_option nd_data (ts_heap l' x)"
      by (auto simp: un)
    moreover from x rep have "ts_heap l x \<noteq> None" by (auto simp: tsl_rep_def)
    ultimately show "data_of (ts_heap l') x = data_of (ts_heap l) x"
      by (metis map_option_nd_dataD)
  qed
qed

subsection \<open>remove\_first\_if\<close>

lemma remove_first_path:
  assumes "tsl_rep l (pre @ bs)" and "length bs < n"
  shows "\<exists>l' as'. remove_first_from n (last_ptr pre) P l =
             (Ret (\<exists>a \<in> set bs. P (data_of (ts_heap l) a)), l') \<and> tsl_rep l' as' \<and>
           map (data_of (ts_heap l')) as' =
             map (data_of (ts_heap l)) pre @ remove_first P (map (data_of (ts_heap l)) bs)"
  using assms
proof (induction bs arbitrary: pre n)
  case Nil
  then obtain m where n: "n = Suc m" by (cases n) auto
  from Nil.prems have "read_next l (last_ptr pre) = Ret None"
    using read_next_rep [of l pre "[]"] by (auto simp: tsl_rep_def)
  with n Nil.prems show ?case by auto
next
  case (Cons a bs)
  then obtain m where n: "n = Suc m" by (cases n) auto
  from Cons.prems have "path (ts_heap l) (ts_head l) (pre @ a # bs) None"
    by (simp add: tsl_rep_def)
  then obtain nd where rd: "read_next l (last_ptr pre) = Ret (Some a)"
    and nd: "ts_heap l a = Some nd"
    using read_next_rep [of l pre "a # bs"] by auto
  show ?case
  proof (cases "P (nd_data nd)")
    case True
    with n rd nd rep_unlink [OF Cons.prems(1)] show ?thesis by auto
  next
    case False
    from Cons.IH [of "pre @ [a]" m] Cons.prems n have "\<exists>l' as'.
        remove_first_from m (Node a) P l =
          (Ret (\<exists>a \<in> set bs. P (data_of (ts_heap l) a)), l') \<and> tsl_rep l' as' \<and>
        map (data_of (ts_heap l')) as' = map (data_of (ts_heap l)) (pre @ [a]) @
          remove_first P (map (data_of (ts_heap l)) bs)" by simp
    with False n rd nd show ?thesis by auto
  qed
qed

theorem remove_first_if_contents:
  assumes "tsl_inv l"
  obtains l' where "tsl_remove_first_if P l = (Ret (\<exists>x \<in> set (contents l). P x), l')"
    and "tsl_inv l'" and "contents l' = remove_first P (contents l)"
proof -
  from assms obtain as where rep: "tsl_rep l as" and c: "contents l = map (data_of (ts_heap l)) as"
    by (rule inv_repE)
  from remove_first_path [of l "[]" as "Suc (ts_fresh l)" P] rep rep_length [OF rep]
  obtain l' as' where "tsl_remove_first_if P l = (Ret (\<exists>x \<in> set (contents l). P x), l')"
    and rep': "tsl_rep l' as'"
    and "map (data_of (ts_heap l')) as' = remove_first P (contents l)"
    by (auto simp: tsl_remove_first_if_def last_ptr_def c)
  with contents_rep [OF rep'] show thesis by (auto intro: that rep_invI)
qed

subsection \<open>remove\_if\<close>

text \<open>The predicate applied along a list, with its effects, up to the first element it accepts.\<close>

fun first_hit :: "('a \<Rightarrow> 's \<Rightarrow> bool \<times> 's) \<Rightarrow> 'a list \<Rightarrow> 's \<Rightarrow> bool \<times> 's" where
  "first_hit p [] s = (False, s)"
| "first_hit p (x # xs) s = (case p x s of
     (True, s') \<Rightarrow> (True, s')
   | (False, s') \<Rightarrow> first_hit p xs s')"

lemma first_hit_pure: "first_hit (\<lambda>x s. (P x, s)) xs s = (\<exists>x \<in> set xs. P x, s)"
  by (induction xs) (auto split: bool.splits)

lemma unlink_frees: "ts_heap l a = Some old \<Longrightarrow> cur \<noteq> Node a \<Longrightarrow> ts_heap (unlink cur a l) a = None"
  using unlink_simps(4) [of l a old cur a] by simp

lemma remove_if_path:
  assumes "tsl_rep l (pre @ bs)" and "length bs < n"
  shows "\<exists>l'. remove_if_from n (last_ptr pre) p (l, s) =
    (case first_hit p (map (data_of (ts_heap l)) bs) s of
       (True, s') \<Rightarrow> (Undef Use_after_free, l', s') | (False, s') \<Rightarrow> (Ret (), l, s'))"
  using assms
proof (induction bs arbitrary: pre n s)
  case Nil
  then obtain m where n: "n = Suc m" by (cases n) auto
  from Nil.prems have "read_next l (last_ptr pre) = Ret None"
    using read_next_rep [of l pre "[]"] by (auto simp: tsl_rep_def)
  with n show ?case by auto
next
  case (Cons a bs)
  then obtain m where n: "n = Suc m" and m: "length bs < m" by (cases n) auto
  from m obtain m' where m': "m = Suc m'" by (cases m) auto
  from Cons.prems have "path (ts_heap l) (ts_head l) (pre @ a # bs) None"
    and cur: "last_ptr pre \<noteq> Node a"
    by (auto simp: tsl_rep_def last_ptr_def dest: last_in_set)
  then obtain nd where rd: "read_next l (last_ptr pre) = Ret (Some a)"
    and nd: "ts_heap l a = Some nd"
    using read_next_rep [of l pre "a # bs"] by auto
  obtain hit s' where p: "p (nd_data nd) s = (hit, s')" by (cases "p (nd_data nd) s")
  show ?case
  proof (cases hit)
    case True
    have "read_next (unlink (last_ptr pre) a l) (Node a) = Undef Use_after_free"
      using unlink_frees [OF nd cur] by (simp add: read_next_def)
    with n m' rd nd p True show ?thesis by (auto simp: read_next_def)
  next
    case False
    with Cons.IH [of "pre @ [a]" m s'] Cons.prems n m rd nd p show ?thesis by simp
  qed
qed

lemma remove_if_start:
  assumes "tsl_inv l"
  shows "\<exists>l'. tsl_remove_if p (l, s) = (case first_hit p (contents l) s of
       (True, s') \<Rightarrow> (Undef Use_after_free, l', s') | (False, s') \<Rightarrow> (Ret (), l, s'))"
proof -
  from assms obtain as where rep: "tsl_rep l as" and c: "contents l = map (data_of (ts_heap l)) as"
    by (rule inv_repE)
  from remove_if_path [of l "[]" as "Suc (ts_fresh l)" p s] rep rep_length [OF rep]
  show ?thesis by (simp add: tsl_remove_if_def last_ptr_def c)
qed

theorem remove_if_ok:
  assumes "tsl_inv l" and "first_hit p (contents l) s = (False, s')"
  shows "tsl_remove_if p (l, s) = (Ret (), l, s')"
  using remove_if_start [OF assms(1), of p s] by (simp add: assms(2))

theorem remove_if_uaf:
  assumes "tsl_inv l" and "first_hit p (contents l) s = (True, s')"
  shows "fst (tsl_remove_if p (l, s)) = Undef Use_after_free"
    and "snd (snd (tsl_remove_if p (l, s))) = s'"
  using remove_if_start [OF assms(1), of p s] by (auto simp: assms(2))

lemma destroy_outcome:
  assumes "tsl_inv l"
  shows "tsl_destroy l = (if contents l = [] then Ret () else Undef Use_after_free)"
proof (cases "contents l")
  case Nil
  then show ?thesis using remove_if_ok [OF assms, of "\<lambda>_ s. (True, s)" "()"]
    by (simp add: tsl_destroy_def)
next
  case (Cons x xs)
  then show ?thesis using remove_if_uaf(1) [OF assms, of "\<lambda>_ s. (True, s)" "()"]
    by (simp add: tsl_destroy_def)
qed

section \<open>The contract of the list\<close>

text \<open>
  What the subscription lists of \<^verbatim>\<open>src/pubsub.cpp\<close> and \<^verbatim>\<open>src/server.h\<close> rely on:
  \<open>push_front\<close>, \<open>remove_first_if\<close>, \<open>for_each\<close> and \<open>size\<close> over the list of elements.
\<close>

locale seq_store =
  fixes items :: "'l \<Rightarrow> 'a list"
    and ok :: "'l \<Rightarrow> bool"
    and mk :: "'l"
    and push :: "'a \<Rightarrow> 'l \<Rightarrow> 'l"
    and rm :: "('a \<Rightarrow> bool) \<Rightarrow> 'l \<Rightarrow> bool outcome \<times> 'l"
    and count :: "'l \<Rightarrow> u64"
  assumes ok_mk: "ok mk"
    and items_mk: "items mk = []"
    and ok_push: "ok l \<Longrightarrow> ok (push x l)"
    and items_push: "ok l \<Longrightarrow> items (push x l) = x # items l"
    and rm_result: "ok l \<Longrightarrow> fst (rm P l) = Ret (\<exists>x \<in> set (items l). P x)"
    and ok_rm: "ok l \<Longrightarrow> ok (snd (rm P l))"
    and items_rm: "ok l \<Longrightarrow> items (snd (rm P l)) = remove_first P (items l)"
    and count_items: "ok l \<Longrightarrow> count l = of_nat (length (items l))"
begin

lemma rm_absent: "ok l \<Longrightarrow> \<forall>x \<in> set (items l). \<not> P x \<Longrightarrow> items (snd (rm P l)) = items l"
  by (simp add: items_rm)

lemma rm_pushed: "ok l \<Longrightarrow> P x \<Longrightarrow> items (snd (rm P (push x l))) = items l"
  by (simp add: items_rm ok_push items_push)

end

text \<open>
  A registry is such a list of entries with identifiers, where the next identifier is
  larger than all that are in use: what \<open>SubscriptionList::add\<close> and \<open>remove\<close> keep.
\<close>

locale registry = seq_store items ok mk push rm count
  for items :: "'l \<Rightarrow> 'a list"
    and ok :: "'l \<Rightarrow> bool"
    and mk :: "'l"
    and push :: "'a \<Rightarrow> 'l \<Rightarrow> 'l"
    and rm :: "('a \<Rightarrow> bool) \<Rightarrow> 'l \<Rightarrow> bool outcome \<times> 'l"
    and count :: "'l \<Rightarrow> u64" +
  fixes ident :: "'a \<Rightarrow> u64"
begin

lemma fresh_push:
  assumes "ok l" and "distinct (map ident (items l))" and "\<forall>x \<in> set (items l). ident x < n"
    and "ident y = n"
  shows "distinct (map ident (items (push y l)))"
  using assms by (auto simp: items_push)

lemma bound_push:
  assumes "ok l" and "\<forall>x \<in> set (items l). ident x < n" and "ident y = n" and "n \<noteq> - 1"
  shows "\<forall>x \<in> set (items (push y l)). ident x < n + 1"
proof -
  have "n < n + 1" using assms(4) by (rule less_plus_one)
  then show ?thesis using assms by (auto simp: items_push)
qed

lemma rm_ident:
  assumes "ok l" and "distinct (map ident (items l))"
  shows "items (snd (rm (\<lambda>x. ident x = k) l)) = filter (\<lambda>x. ident x \<noteq> k) (items l)"
  using assms by (simp add: items_rm remove_first_unique)

lemma rm_ident_distinct:
  assumes "ok l" and "distinct (map ident (items l))"
  shows "distinct (map ident (items (snd (rm (\<lambda>x. ident x = k) l))))"
  using assms by (simp add: items_rm distinct_map_remove_first)

end

lemma tsl_remove_first_simps:
  assumes "tsl_inv l"
  shows "fst (tsl_remove_first_if P l) = Ret (\<exists>x \<in> set (contents l). P x)"
    and "tsl_inv (snd (tsl_remove_first_if P l))"
    and "contents (snd (tsl_remove_first_if P l)) = remove_first P (contents l)"
  using assms by (auto elim: remove_first_if_contents [where P = P])

interpretation tsl: seq_store contents tsl_inv tsl_new tsl_push_front tsl_remove_first_if ts_size
  by unfold_locales (simp_all add: tsl_remove_first_simps size_contents)

section \<open>Properties\<close>

lemma find_first_eq: "tsl_inv l \<Longrightarrow> tsl_find_first_if P l = Ret (find P (contents l))"
  by (rule find_first_if_contents)

text \<open>C9: The list refines a sequence: on every list the operations can build, \<open>push_front\<close> puts
  its value in front, \<open>remove_first_if\<close> removes the first match and says whether there was
  one, \<open>find_first_if\<close> finds the first match, and \<open>size\<close> counts the elements; none of them
  touches freed memory and all keep the representation invariant.\<close>

theorem tsl_refines_sequence:
  assumes "tsl_inv l"
  shows "(tsl_inv (tsl_push_front v l) \<and> contents (tsl_push_front v l) = v # contents l) \<and>
    (\<exists>l'. tsl_remove_first_if P l = (Ret (\<exists>x \<in> set (contents l). P x), l') \<and> tsl_inv l' \<and>
       contents l' = remove_first P (contents l)) \<and>
    tsl_find_first_if P l = Ret (find P (contents l)) \<and>
    ts_size l = of_nat (length (contents l))"
proof (intro conjI)
  show "\<exists>l'. tsl_remove_first_if P l = (Ret (\<exists>x \<in> set (contents l). P x), l') \<and> tsl_inv l' \<and>
      contents l' = remove_first P (contents l)"
    by (rule remove_first_if_contents [OF assms, of P]) blast
qed (simp_all add: assms find_first_eq size_contents)

theorem tsl_refines_sequence_witness:
  "tsl_find_first_if (\<lambda>n. n < 2) (tsl_push_front (3 :: nat) (tsl_push_front 1 tsl_new)) = Ret (Some 1) \<and>
   contents (tsl_push_front (3 :: nat) (tsl_push_front 1 tsl_new)) = [3, 1]"
proof -
  have inv: "tsl_inv (tsl_push_front (3 :: nat) (tsl_push_front 1 tsl_new))" by simp
  from tsl_refines_sequence [OF inv, of _ "\<lambda>n. n < 2"] show ?thesis by simp
qed

text \<open>\<open>remove_if\<close> is only safe when it removes nothing: it returns, with the list unchanged,
  when no element satisfies the predicate, and otherwise reads the \<open>next\<close> pointer of a node
  it has just destroyed. In particular the destructor of a non-empty list does.\<close>

theorem tsl_remove_if_uaf:
  assumes "tsl_inv l"
  shows "fst (tsl_remove_if (\<lambda>x s. (P x, s)) (l, s)) =
      (if \<exists>x \<in> set (contents l). P x then Undef Use_after_free else Ret ()) \<and>
    ((\<forall>x \<in> set (contents l). \<not> P x) \<longrightarrow> snd (tsl_remove_if (\<lambda>x s. (P x, s)) (l, s)) = (l, s)) \<and>
    tsl_destroy l = (if contents l = [] then Ret () else Undef Use_after_free)"
  using remove_if_uaf(1) [OF assms, of "\<lambda>x s. (P x, s)" s s]
    remove_if_ok [OF assms, of "\<lambda>x s. (P x, s)" s s] destroy_outcome [OF assms]
  by (auto simp: first_hit_pure)

theorem tsl_remove_if_uaf_witness:
  "tsl_destroy (tsl_push_front (1 :: nat) tsl_new) = Undef Use_after_free"
proof -
  have inv: "tsl_inv (tsl_push_front (1 :: nat) tsl_new)" by simp
  from tsl_remove_if_uaf [OF inv, of "\<lambda>_. True" "()"] show ?thesis by simp
qed

end
