(* ===== verification/Pubsub.thy ===== *)
theory Pubsub
  imports Threadsafe_List
begin

text \<open>
  \<^verbatim>\<open>src/pubsub.h\<close> and \<^verbatim>\<open>src/pubsub.cpp\<close>: the subscription lists of the store.
  The lists live behind \<open>unique_ptr\<close>s, so the model has a heap of lists: \<open>notify\<close> takes a
  raw pointer under the mutex and follows it after releasing the mutex. Callbacks are client
  code: a callback is a value of type \<open>'cb\<close>, and \<open>notify\<close> is given a handler that runs one.
\<close>

section \<open>Subscription lists\<close>

record 'cb wrapper =
  wr_id :: u64
  wr_cb :: "'cb option"

record 'cb sublist =
  sl_callbacks :: "'cb wrapper tslist"
  sl_next_id :: u64

definition sl_new :: "'cb sublist" where
  "sl_new = \<lparr>sl_callbacks = tsl_new, sl_next_id = 1\<rparr>"

definition sl_add :: "'cb option \<Rightarrow> 'cb sublist \<Rightarrow> u64 \<times> 'cb sublist" where
  "sl_add cb l =
     (let i = sl_next_id l
      in (i, l\<lparr>sl_next_id := i + 1,
               sl_callbacks := tsl_push_front \<lparr>wr_id = i, wr_cb = cb\<rparr> (sl_callbacks l)\<rparr>))"

definition sl_remove :: "u64 \<Rightarrow> (bool, 'cb sublist) prog" where
  "sl_remove i = zoom sl_callbacks (\<lambda>c l. l\<lparr>sl_callbacks := c\<rparr>)
     (tsl_remove_first_if (\<lambda>w. wr_id w = i))"

definition sl_invoke_all :: "('cb \<Rightarrow> (unit, 's) prog) \<Rightarrow> 'cb sublist \<Rightarrow> (unit, 's) prog" where
  "sl_invoke_all handler l =
     tsl_for_each (\<lambda>w. case wr_cb w of None \<Rightarrow> ret () | Some cb \<Rightarrow> handler cb) (sl_callbacks l)"

definition sl_size :: "'cb sublist \<Rightarrow> u64" where
  "sl_size l = ts_size (sl_callbacks l)"

section \<open>The subscription system\<close>

record 'cb subsys =
  su_map :: "actor_id \<rightharpoonup> nat"
  su_lists :: "nat \<rightharpoonup> 'cb sublist"
  su_fresh :: nat

definition su_new :: "'cb subsys" where
  "su_new = \<lparr>su_map = Map.empty, su_lists = Map.empty, su_fresh = 0\<rparr>"

definition su_create :: "actor_id \<Rightarrow> 'cb subsys \<Rightarrow> 'cb subsys" where
  "su_create a s = s\<lparr>su_map := (su_map s)(a \<mapsto> su_fresh s),
     su_lists := (su_lists s)(su_fresh s \<mapsto> sl_new), su_fresh := Suc (su_fresh s)\<rparr>"

definition su_subscribe :: "actor_id \<Rightarrow> 'cb option \<Rightarrow> (u64, 'cb subsys) prog" where
  "su_subscribe a cb s =
     (let s1 = (if su_map s a = None then su_create a s else s)
      in (case su_map s1 a of
            None \<Rightarrow> (Undef Use_after_free, s1)
          | Some p \<Rightarrow> (case su_lists s1 p of
              None \<Rightarrow> (Undef Use_after_free, s1)
            | Some l \<Rightarrow> (case sl_add cb l of (i, l') \<Rightarrow>
                (Ret i, s1\<lparr>su_lists := (su_lists s1)(p \<mapsto> l')\<rparr>)))))"

text \<open>
  \<open>unsubscribe\<close> erases the map entry when the list has become empty, which destroys the list
  (and runs the destructor of the linked list, on no nodes).
\<close>

definition su_unsubscribe :: "actor_id \<Rightarrow> u64 \<Rightarrow> (bool, 'cb subsys) prog" where
  "su_unsubscribe a i s =
     (case su_map s a of
        None \<Rightarrow> (Ret False, s)
      | Some p \<Rightarrow> (case su_lists s p of
          None \<Rightarrow> (Undef Use_after_free, s)
        | Some l \<Rightarrow> (case sl_remove i l of
            (Ret removed, l') \<Rightarrow>
              (if removed \<and> sl_size l' = 0 then
                 (case tsl_destroy (sl_callbacks l') of
                    Ret _ \<Rightarrow> (Ret removed, s\<lparr>su_map := (su_map s)(a := None),
                                              su_lists := (su_lists s)(p := None)\<rparr>)
                  | r \<Rightarrow> (abort_of r, s))
               else (Ret removed, s\<lparr>su_lists := (su_lists s)(p \<mapsto> l')\<rparr>))
          | (r, l') \<Rightarrow> (abort_of r, s\<lparr>su_lists := (su_lists s)(p \<mapsto> l')\<rparr>))))"

text \<open>The two halves of \<open>notify\<close>: look the pointer up under the mutex, then follow it without.\<close>

definition su_notify_find :: "actor_id \<Rightarrow> 'cb subsys \<Rightarrow> nat option" where
  "su_notify_find a s = su_map s a"

definition su_notify_invoke ::
  "nat option \<Rightarrow> ('cb \<Rightarrow> (unit, 's) prog) \<Rightarrow> 'cb subsys \<Rightarrow> (unit, 's) prog" where
  "su_notify_invoke ptr handler s = (case ptr of
     None \<Rightarrow> ret ()
   | Some p \<Rightarrow> (case su_lists s p of
       None \<Rightarrow> (\<lambda>x. (Undef Use_after_free, x))
     | Some l \<Rightarrow> sl_invoke_all handler l))"

definition su_notify :: "actor_id \<Rightarrow> ('cb \<Rightarrow> (unit, 's) prog) \<Rightarrow> 'cb subsys \<Rightarrow> (unit, 's) prog" where
  "su_notify a handler s = su_notify_invoke (su_notify_find a s) handler s"

definition su_subscriber_count :: "actor_id \<Rightarrow> 'cb subsys \<Rightarrow> u64 outcome" where
  "su_subscriber_count a s = (case su_map s a of
     None \<Rightarrow> Ret 0
   | Some p \<Rightarrow> (case su_lists s p of None \<Rightarrow> Undef Use_after_free | Some l \<Rightarrow> Ret (sl_size l)))"

section \<open>Invariants\<close>

interpretation sub_reg: registry contents tsl_inv tsl_new tsl_push_front tsl_remove_first_if ts_size wr_id
  by unfold_locales

definition sl_items :: "'cb sublist \<Rightarrow> 'cb wrapper list" where
  "sl_items l = contents (sl_callbacks l)"

definition sl_inv :: "'cb sublist \<Rightarrow> bool" where
  "sl_inv l \<longleftrightarrow> tsl_inv (sl_callbacks l) \<and> distinct (map wr_id (sl_items l)) \<and>
     (\<forall>w \<in> set (sl_items l). wr_id w < sl_next_id l)"

lemma sl_new_simps [simp]: "sl_inv sl_new" "sl_items sl_new = []" "sl_next_id sl_new = 1"
  by (simp_all add: sl_inv_def sl_new_def sl_items_def)

lemma sl_add_spec:
  assumes "sl_inv l" and "sl_add cb l = (i, l')"
  shows "i = sl_next_id l" and "sl_items l' = \<lparr>wr_id = i, wr_cb = cb\<rparr> # sl_items l"
    and "i \<notin> wr_id ` set (sl_items l)" and "sl_next_id l' = i + 1"
    and "i \<noteq> - 1 \<Longrightarrow> sl_inv l'"
proof -
  let ?w = "\<lparr>wr_id = sl_next_id l, wr_cb = cb\<rparr>"
  have l': "i = sl_next_id l" "l' = l\<lparr>sl_next_id := i + 1, sl_callbacks := tsl_push_front ?w (sl_callbacks l)\<rparr>"
    using assms(2) by (auto simp: sl_add_def Let_def)
  with assms(1) show "i = sl_next_id l" "sl_items l' = \<lparr>wr_id = i, wr_cb = cb\<rparr> # sl_items l"
    "i \<notin> wr_id ` set (sl_items l)" "sl_next_id l' = i + 1"
    by (auto simp: sl_items_def sl_inv_def)
  assume "i \<noteq> - 1"
  with l' assms(1) sub_reg.fresh_push [of "sl_callbacks l" "sl_next_id l" ?w]
    sub_reg.bound_push [of "sl_callbacks l" "sl_next_id l" ?w]
  show "sl_inv l'" by (simp add: sl_inv_def sl_items_def)
qed

lemma sl_remove_spec:
  assumes "sl_inv l"
  obtains l' where "sl_remove i l = (Ret (i \<in> wr_id ` set (sl_items l)), l')" and "sl_inv l'"
    and "sl_items l' = filter (\<lambda>w. wr_id w \<noteq> i) (sl_items l)" and "sl_next_id l' = sl_next_id l"
proof -
  let ?r = "tsl_remove_first_if (\<lambda>w. wr_id w = i) (sl_callbacks l)"
  have inv: "tsl_inv (sl_callbacks l)" "distinct (map wr_id (contents (sl_callbacks l)))"
    using assms by (auto simp: sl_inv_def sl_items_def)
  have "contents (snd ?r) = filter (\<lambda>w. wr_id w \<noteq> i) (contents (sl_callbacks l))"
    by (rule sub_reg.rm_ident [OF inv])
  moreover have "fst ?r = Ret (i \<in> wr_id ` set (sl_items l))"
    using tsl.rm_result [OF inv(1), of "\<lambda>w. wr_id w = i"] by (auto simp: sl_items_def)
  moreover have "tsl_inv (snd ?r)" by (rule tsl.ok_rm [OF inv(1)])
  moreover have "distinct (map wr_id (contents (snd ?r)))" by (rule sub_reg.rm_ident_distinct [OF inv])
  ultimately show thesis using assms
    by (intro that [of "l\<lparr>sl_callbacks := snd ?r\<rparr>"])
      (auto simp: sl_remove_def zoom_def sl_items_def sl_inv_def split: prod.splits)
qed

lemma sl_invoke_all_items:
  assumes "sl_inv l"
  shows "sl_invoke_all h l = seqP (\<lambda>w. case wr_cb w of None \<Rightarrow> ret () | Some cb \<Rightarrow> h cb) (sl_items l)"
proof (rule ext)
  fix s
  from assms have "tsl_inv (sl_callbacks l)" by (simp add: sl_inv_def)
  then show "sl_invoke_all h l s =
      seqP (\<lambda>w. case wr_cb w of None \<Rightarrow> ret () | Some cb \<Rightarrow> h cb) (sl_items l) s"
    by (simp add: sl_invoke_all_def sl_items_def for_each_contents)
qed

lemma sl_size_items: "sl_inv l \<Longrightarrow> sl_size l = of_nat (length (sl_items l))"
  by (simp add: sl_size_def sl_inv_def sl_items_def size_contents)

lemma sl_length:
  assumes "sl_inv l"
  shows "length (sl_items l) < 2 ^ 64"
proof -
  let ?ids = "map (\<lambda>w. unat (wr_id w)) (sl_items l)"
  have "distinct ?ids"
    using assms by (auto simp: sl_inv_def distinct_map inj_on_def dest: unsigned_word_eqI)
  then have "length (sl_items l) = card (set ?ids)" by (metis distinct_card length_map)
  also have "\<dots> \<le> card {..<unat (sl_next_id l)}"
    using assms by (intro card_mono) (auto simp: sl_inv_def word_less_nat_alt)
  also have "\<dots> < 2 ^ 64" using unsigned_less [of "sl_next_id l", where 'a = nat] by simp
  finally show ?thesis .
qed

lemma sl_size_0: "sl_inv l \<Longrightarrow> sl_size l = 0 \<longleftrightarrow> sl_items l = []"
  using sl_length [of l] nat_dvd_not_less [of "length (sl_items l)" "2 ^ 64"]
  by (auto simp: sl_size_items word_of_nat_eq_0_iff)

text \<open>
  The system: map entries point at live, pairwise different lists that are not empty.
\<close>

definition su_inv :: "'cb subsys \<Rightarrow> bool" where
  "su_inv s \<longleftrightarrow>
     (\<forall>a p. su_map s a = Some p \<longrightarrow> p < su_fresh s \<and>
        (\<exists>l. su_lists s p = Some l \<and> sl_inv l \<and> sl_items l \<noteq> [])) \<and>
     (\<forall>a b p. su_map s a = Some p \<longrightarrow> su_map s b = Some p \<longrightarrow> a = b) \<and>
     dom (su_lists s) = ran (su_map s)"

definition subs_of :: "'cb subsys \<Rightarrow> actor_id \<Rightarrow> 'cb wrapper list" where
  "subs_of s a = (case su_map s a of
     None \<Rightarrow> [] | Some p \<Rightarrow> (case su_lists s p of None \<Rightarrow> [] | Some l \<Rightarrow> sl_items l))"

definition next_sub_id :: "'cb subsys \<Rightarrow> actor_id \<Rightarrow> u64" where
  "next_sub_id s a = (case su_map s a of
     None \<Rightarrow> 1 | Some p \<Rightarrow> (case su_lists s p of None \<Rightarrow> 1 | Some l \<Rightarrow> sl_next_id l))"

lemma su_new_inv [simp, inv_intros]: "su_inv su_new"
  by (simp add: su_inv_def su_new_def)

lemma su_new_subs [simp]: "subs_of su_new a = []" "next_sub_id su_new a = 1"
  by (simp_all add: subs_of_def next_sub_id_def su_new_def)

lemma su_inv_mapD:
  assumes "su_inv s" and "su_map s a = Some p"
  obtains l where "su_lists s p = Some l" and "sl_inv l" and "sl_items l \<noteq> []" and "p < su_fresh s"
    and "subs_of s a = sl_items l" and "next_sub_id s a = sl_next_id l"
    and "\<And>b. su_map s b = Some p \<Longrightarrow> b = a"
  using assms by (fastforce simp: su_inv_def subs_of_def next_sub_id_def)

lemma su_inv_fresh:
  assumes "su_inv s"
  shows "su_lists s (su_fresh s) = None" and "su_map s a \<noteq> Some (su_fresh s)"
proof -
  have "su_fresh s \<notin> ran (su_map s)" using assms by (fastforce simp: su_inv_def ran_def)
  with assms show "su_lists s (su_fresh s) = None" "su_map s a \<noteq> Some (su_fresh s)"
    by (auto simp: su_inv_def ran_def domIff)
qed

text \<open>Writing back the list of one actor, and erasing it.\<close>

lemma su_update_list:
  assumes "su_inv s" and "su_map s a = Some p" and "sl_inv l" and "sl_items l \<noteq> []"
  defines "s' \<equiv> s\<lparr>su_lists := (su_lists s)(p \<mapsto> l)\<rparr>"
  shows "su_inv s'" and "subs_of s' = (subs_of s)(a := sl_items l)"
    and "next_sub_id s' = (next_sub_id s)(a := sl_next_id l)"
proof -
  from assms(1,2) have uniq: "\<And>b. b \<noteq> a \<Longrightarrow> su_map s b \<noteq> Some p" and p: "p \<in> ran (su_map s)"
    by (auto simp: su_inv_def ran_def)
  from p have "dom (su_lists s') = ran (su_map s')"
    using assms(1) by (auto simp: s'_def su_inv_def)
  moreover have "su_map s' = su_map s" "su_fresh s' = su_fresh s" by (simp_all add: s'_def)
  moreover have "\<exists>m. su_lists s' q = Some m \<and> sl_inv m \<and> sl_items m \<noteq> []" if "su_map s b = Some q" for b q
    using that assms(1,3,4) by (cases "q = p") (auto simp: s'_def su_inv_def)
  ultimately show "su_inv s'" using assms(1) unfolding su_inv_def by auto
  show "subs_of s' = (subs_of s)(a := sl_items l)" "next_sub_id s' = (next_sub_id s)(a := sl_next_id l)"
    using assms(2) uniq by (auto simp: s'_def subs_of_def next_sub_id_def fun_eq_iff split: option.splits)
qed

lemma su_erase_list:
  assumes "su_inv s" and "su_map s a = Some p"
  defines "s' \<equiv> s\<lparr>su_map := (su_map s)(a := None), su_lists := (su_lists s)(p := None)\<rparr>"
  shows "su_inv s'" and "subs_of s' = (subs_of s)(a := [])" and "next_sub_id s' = (next_sub_id s)(a := 1)"
proof -
  from assms(1,2) have uniq: "\<And>b. b \<noteq> a \<Longrightarrow> su_map s b \<noteq> Some p" by (auto simp: su_inv_def)
  then have ran: "ran ((su_map s)(a := None)) = ran (su_map s) - {p}"
    using assms(2) by (auto simp: ran_def split: if_splits) (metis option.inject)
  have "dom (su_lists s') = ran (su_map s')"
    using assms(1) by (auto simp: s'_def ran su_inv_def)
  moreover have "su_map s b = Some q \<and> su_lists s' q = su_lists s q" if "su_map s' b = Some q" for b q
    using that uniq by (auto simp: s'_def split: if_splits)
  moreover have "su_fresh s' = su_fresh s" by (simp add: s'_def)
  ultimately show "su_inv s'" using assms(1) unfolding su_inv_def by metis
  show "subs_of s' = (subs_of s)(a := [])" "next_sub_id s' = (next_sub_id s)(a := 1)"
    using uniq by (auto simp: s'_def subs_of_def next_sub_id_def fun_eq_iff split: option.splits)
qed

lemma subscribe_step:
  assumes "su_inv s" and "next_sub_id s a \<noteq> - 1"
  shows "\<exists>s'. su_subscribe a cb s = (Ret (next_sub_id s a), s') \<and> su_inv s' \<and>
    subs_of s' = (subs_of s)(a := \<lparr>wr_id = next_sub_id s a, wr_cb = cb\<rparr> # subs_of s a) \<and>
    next_sub_id s a \<notin> wr_id ` set (subs_of s a) \<and>
    next_sub_id s' = (next_sub_id s)(a := next_sub_id s a + 1)"
proof (cases "su_map s a")
  case (Some p)
  then obtain l where l: "su_lists s p = Some l" "sl_inv l" "subs_of s a = sl_items l"
    "next_sub_id s a = sl_next_id l"
    using su_inv_mapD [OF assms(1)] by metis
  obtain i l' where add: "sl_add cb l = (i, l')" by (cases "sl_add cb l")
  note add_spec = sl_add_spec [OF l(2) add]
  with l assms(2) have "sl_inv l'" "sl_items l' \<noteq> []" by simp_all
  note upd = su_update_list [OF assms(1) Some this]
  from Some l add have "su_subscribe a cb s = (Ret i, s\<lparr>su_lists := (su_lists s)(p \<mapsto> l')\<rparr>)"
    by (simp add: su_subscribe_def)
  with upd add_spec l show ?thesis by simp
next
  case None
  let ?p = "su_fresh s"
  obtain i l' where add: "sl_add cb sl_new = (i, l')" by (cases "sl_add cb sl_new")
  note add_spec = sl_add_spec [OF sl_new_simps(1) add]
  have i: "i = 1" "next_sub_id s a = 1" "subs_of s a = []"
    using add_spec(1) None by (simp_all add: next_sub_id_def subs_of_def)
  let ?s' = "s\<lparr>su_map := (su_map s)(a \<mapsto> ?p), su_lists := (su_lists s)(?p \<mapsto> l'), su_fresh := Suc ?p\<rparr>"
  have eq: "su_subscribe a cb s = (Ret i, ?s')"
    using None add by (simp add: su_subscribe_def su_create_def Let_def)
  note fresh = su_inv_fresh [OF assms(1)]
  have ran: "ran ((su_map s)(a \<mapsto> ?p)) = insert ?p (ran (su_map s))"
    using None by (simp add: ran_map_upd)
  have "su_inv ?s'" unfolding su_inv_def
    using assms(1) fresh add_spec i ran by (auto simp: su_inv_def less_SucI split: if_splits)
  moreover have "subs_of ?s' = (subs_of s)(a := sl_items l')"
    "next_sub_id ?s' = (next_sub_id s)(a := sl_next_id l')"
    using fresh by (auto simp: subs_of_def next_sub_id_def fun_eq_iff split: option.splits)
  ultimately show ?thesis using eq add_spec i by simp
qed

lemma unsubscribe_step:
  assumes "su_inv s"
  shows "\<exists>s'. su_unsubscribe a i s = (Ret (i \<in> wr_id ` set (subs_of s a)), s') \<and> su_inv s' \<and>
    subs_of s' = (subs_of s)(a := filter (\<lambda>w. wr_id w \<noteq> i) (subs_of s a)) \<and>
    next_sub_id s' = (next_sub_id s)(a :=
      if filter (\<lambda>w. wr_id w \<noteq> i) (subs_of s a) = [] then 1 else next_sub_id s a)"
proof (cases "su_map s a")
  case None
  then have "subs_of s a = []" "next_sub_id s a = 1" by (simp_all add: subs_of_def next_sub_id_def)
  with None assms show ?thesis by (simp add: su_unsubscribe_def fun_upd_idem)
next
  case (Some p)
  then obtain l where l: "su_lists s p = Some l" "sl_inv l" "subs_of s a = sl_items l" "sl_items l \<noteq> []"
    "next_sub_id s a = sl_next_id l"
    using su_inv_mapD [OF assms] by metis
  obtain l' where rm: "sl_remove i l = (Ret (i \<in> wr_id ` set (sl_items l)), l')" "sl_inv l'"
    "sl_items l' = filter (\<lambda>w. wr_id w \<noteq> i) (sl_items l)" "sl_next_id l' = sl_next_id l"
    by (rule sl_remove_spec [OF l(2)])
  show ?thesis
  proof (cases "sl_items l' = []")
    case True
    then have "i \<in> wr_id ` set (sl_items l)" using rm(3) l(4)
      by (cases "sl_items l") (auto simp: filter_empty_conv)
    moreover have "tsl_destroy (sl_callbacks l') = Ret ()"
      using rm(2) True by (simp add: destroy_outcome sl_inv_def sl_items_def)
    ultimately show ?thesis
      using Some l rm True su_erase_list [OF assms Some] by (simp add: su_unsubscribe_def sl_size_0)
  next
    case False
    then show ?thesis
      using Some l rm su_update_list [OF assms Some rm(2) False] by (simp add: su_unsubscribe_def sl_size_0)
  qed
qed

lemma notify_step:
  assumes "su_inv s"
  shows "su_notify a h s x =
    seqP (\<lambda>w. case wr_cb w of None \<Rightarrow> ret () | Some cb \<Rightarrow> h cb) (subs_of s a) x"
proof (cases "su_map s a")
  case None
  then show ?thesis
    by (simp add: su_notify_def su_notify_find_def su_notify_invoke_def subs_of_def ret_def)
next
  case (Some p)
  then obtain l where "su_lists s p = Some l" "sl_inv l" "subs_of s a = sl_items l"
    using su_inv_mapD [OF assms] by metis
  with Some show ?thesis
    by (simp add: su_notify_def su_notify_find_def su_notify_invoke_def sl_invoke_all_items)
qed

lemma count_step:
  assumes "su_inv s"
  shows "su_subscriber_count a s = Ret (of_nat (length (subs_of s a)))"
proof (cases "su_map s a")
  case None
  then show ?thesis by (simp add: su_subscriber_count_def subs_of_def)
next
  case (Some p)
  then obtain l where "su_lists s p = Some l" "sl_inv l" "subs_of s a = sl_items l"
    using su_inv_mapD [OF assms] by metis
  with Some show ?thesis by (simp add: su_subscriber_count_def sl_size_items)
qed

section \<open>Properties\<close>

text \<open>The abstract subscription table: the subscribers of each actor, newest first, and the next
  identifier of each actor, which starts again at 1 when the last subscriber leaves.\<close>

type_synonym 'cb subtable = "(actor_id \<Rightarrow> 'cb wrapper list) \<times> (actor_id \<Rightarrow> u64)"

definition sub_abs :: "'cb subsys \<Rightarrow> 'cb subtable" where
  "sub_abs s = (subs_of s, next_sub_id s)"

fun abs_subscribe :: "actor_id \<Rightarrow> 'cb option \<Rightarrow> 'cb subtable \<Rightarrow> u64 \<times> 'cb subtable" where
  "abs_subscribe a cb (subs, nxt) =
     (nxt a, subs(a := \<lparr>wr_id = nxt a, wr_cb = cb\<rparr> # subs a), nxt(a := nxt a + 1))"

fun abs_unsubscribe :: "actor_id \<Rightarrow> u64 \<Rightarrow> 'cb subtable \<Rightarrow> bool \<times> 'cb subtable" where
  "abs_unsubscribe a i (subs, nxt) =
     (let ws = filter (\<lambda>w. wr_id w \<noteq> i) (subs a)
      in (i \<in> wr_id ` set (subs a), subs(a := ws), nxt(a := if ws = [] then 1 else nxt a)))"

text \<open>C20: The subscription system refines the abstract table: on every state of the invariant,
  \<open>subscribe\<close> (while the actor's 64-bit counter has not run out) and \<open>unsubscribe\<close> return and
  change the table exactly as their abstract versions do, no memory error occurs, the new
  identifier is not in use for the actor, and the invariant is kept.\<close>

theorem su_refines_table:
  assumes "su_inv s" and "next_sub_id s a \<noteq> - 1"
  shows "(\<exists>i s'. su_subscribe a cb s = (Ret i, s') \<and> abs_subscribe a cb (sub_abs s) = (i, sub_abs s') \<and>
      i \<notin> wr_id ` set (subs_of s a) \<and> su_inv s') \<and>
    (\<exists>r s'. su_unsubscribe a k s = (Ret r, s') \<and> abs_unsubscribe a k (sub_abs s) = (r, sub_abs s') \<and>
      su_inv s')"
proof
  from subscribe_step [OF assms, of cb] obtain s' where
    "su_subscribe a cb s = (Ret (next_sub_id s a), s')" "su_inv s'"
    "subs_of s' = (subs_of s)(a := \<lparr>wr_id = next_sub_id s a, wr_cb = cb\<rparr> # subs_of s a)"
    "next_sub_id s a \<notin> wr_id ` set (subs_of s a)"
    "next_sub_id s' = (next_sub_id s)(a := next_sub_id s a + 1)" by blast
  then show "\<exists>i s'. su_subscribe a cb s = (Ret i, s') \<and> abs_subscribe a cb (sub_abs s) = (i, sub_abs s') \<and>
      i \<notin> wr_id ` set (subs_of s a) \<and> su_inv s'"
    by (intro exI [of _ "next_sub_id s a"] exI [of _ s']) (simp add: sub_abs_def)
  from unsubscribe_step [OF assms(1), of a k] obtain s2 where
    "su_unsubscribe a k s = (Ret (k \<in> wr_id ` set (subs_of s a)), s2)" "su_inv s2"
    "subs_of s2 = (subs_of s)(a := filter (\<lambda>w. wr_id w \<noteq> k) (subs_of s a))"
    "next_sub_id s2 = (next_sub_id s)(a :=
      if filter (\<lambda>w. wr_id w \<noteq> k) (subs_of s a) = [] then 1 else next_sub_id s a)" by blast
  then show "\<exists>r s'. su_unsubscribe a k s = (Ret r, s') \<and> abs_unsubscribe a k (sub_abs s) = (r, sub_abs s') \<and>
      su_inv s'"
    by (intro exI [of _ "k \<in> wr_id ` set (subs_of s a)"] exI [of _ s2]) (simp add: sub_abs_def Let_def)
qed

theorem su_refines_table_witness:
  "\<exists>i s'. su_subscribe ''a'' (Some ''cb'') su_new = (Ret i, s') \<and>
     abs_subscribe ''a'' (Some ''cb'') (sub_abs su_new) = (i, sub_abs s') \<and> su_inv s'"
proof -
  have "next_sub_id su_new ''a'' \<noteq> - 1" by simp
  from su_refines_table [OF su_new_inv this, of "Some ''cb''"] show ?thesis by blast
qed

text \<open>\<open>notify\<close> runs the callbacks of exactly the actor's current subscribers, newest first,
  skipping empty ones, and stops at the first callback that does not return; it does not
  change the subscriptions and never touches freed memory when nothing interferes.\<close>

theorem su_notify_order:
  assumes "su_inv s"
  shows "su_notify a h s x =
    seqP (\<lambda>w. case wr_cb w of None \<Rightarrow> ret () | Some cb \<Rightarrow> h cb) (subs_of s a) x"
  using assms by (rule notify_step)

theorem su_notify_order_witness:
  "\<exists>s. su_inv s \<and> map wr_cb (subs_of s ''a'') = [Some ''2'', Some ''1''] \<and>
     su_notify ''a'' (\<lambda>cb log. (Ret (), log @ [cb])) s [] = (Ret (), [''2'', ''1''])"
proof -
  have n0: "next_sub_id su_new ''a'' \<noteq> - 1" by simp
  obtain s1 where s1: "su_inv s1" "subs_of s1 ''a'' = [\<lparr>wr_id = 1, wr_cb = Some ''1''\<rparr>]"
    "next_sub_id s1 ''a'' = 2"
    using subscribe_step [OF su_new_inv n0, of "Some ''1''"] by auto
  obtain s2 where s2: "su_inv s2" "subs_of s2 ''a'' = [\<lparr>wr_id = 2, wr_cb = Some ''2''\<rparr>, \<lparr>wr_id = 1, wr_cb = Some ''1''\<rparr>]"
    using subscribe_step [OF s1(1), of "''a''" "Some ''2''"] s1 by auto
  with su_notify_order [OF s2(1), of "''a''" "\<lambda>cb log. (Ret (), log @ [cb])" "[]"] s2 show ?thesis
    by (intro exI [of _ s2]) simp
qed

text \<open>Identifiers are reused: when the last subscriber of an actor leaves and another one
  arrives, the newcomer gets the old identifier, and unsubscribing with the stale identifier
  succeeds and removes the newcomer.\<close>

theorem su_stale_id_removes_newcomer:
  assumes "su_inv s" and "subs_of s a = []"
    and "su_subscribe a cb1 s = (r1, s1)" and "r1 = Ret i"
    and "su_unsubscribe a i s1 = (r2, s2)"
    and "su_subscribe a cb2 s2 = (r3, s3)"
    and "su_unsubscribe a i s3 = (r4, s4)"
  shows "r2 = Ret True \<and> r3 = Ret i \<and> subs_of s3 a = [\<lparr>wr_id = i, wr_cb = cb2\<rparr>] \<and>
    r4 = Ret True \<and> subs_of s4 a = []"
proof -
  have n: "next_sub_id s a = 1"
  proof (cases "su_map s a")
    case None
    then show ?thesis by (simp add: next_sub_id_def)
  next
    case (Some p)
    from su_inv_mapD [OF assms(1) Some] show ?thesis using assms(2) by metis
  qed
  then have ne: "next_sub_id s a \<noteq> - 1" by simp
  from subscribe_step [OF assms(1) ne, of cb1] assms(2-4) n have s1: "i = 1" "su_inv s1"
    "subs_of s1 a = [\<lparr>wr_id = 1, wr_cb = cb1\<rparr>]" by auto
  from unsubscribe_step [OF s1(2), of a i] assms(5) s1 have s2: "r2 = Ret True" "su_inv s2"
    "subs_of s2 a = []" "next_sub_id s2 a = 1" by auto
  from s2(4) have ne2: "next_sub_id s2 a \<noteq> - 1" by simp
  from subscribe_step [OF s2(2) ne2, of cb2] assms(6) s1 s2 have s3: "r3 = Ret i" "su_inv s3"
    "subs_of s3 a = [\<lparr>wr_id = i, wr_cb = cb2\<rparr>]" by auto
  from unsubscribe_step [OF s3(2), of a i] assms(7) s3 have "r4 = Ret True" "subs_of s4 a = []" by auto
  with s2 s3 show ?thesis by simp
qed

theorem su_stale_id_removes_newcomer_witness:
  "\<exists>i s1 s2 s3 s4. su_subscribe ''a'' (Some ''old'') su_new = (Ret i, s1) \<and>
     su_unsubscribe ''a'' i s1 = (Ret True, s2) \<and> su_subscribe ''a'' (Some ''new'') s2 = (Ret i, s3) \<and>
     su_unsubscribe ''a'' i s3 = (Ret True, s4) \<and> subs_of s4 ''a'' = []"
proof -
  have e: "subs_of su_new ''a'' = []" by simp
  have "next_sub_id su_new ''a'' \<noteq> - 1" by simp
  from subscribe_step [OF su_new_inv this, of "Some ''old''"] obtain i s1 where
    a: "su_subscribe ''a'' (Some ''old'') su_new = (Ret i, s1)" by blast
  obtain r2 s2 where b: "su_unsubscribe ''a'' i s1 = (r2, s2)" by (cases "su_unsubscribe ''a'' i s1")
  obtain r3 s3 where c: "su_subscribe ''a'' (Some ''new'') s2 = (r3, s3)"
    by (cases "su_subscribe ''a'' (Some ''new'') s2")
  obtain r4 s4 where d: "su_unsubscribe ''a'' i s3 = (r4, s4)" by (cases "su_unsubscribe ''a'' i s3")
  from su_stale_id_removes_newcomer [OF su_new_inv e a refl b c d] a b c d show ?thesis by blast
qed

text \<open>\<open>notify\<close> follows its pointer without the mutex: if the only subscriber unsubscribes
  between the two halves of \<open>notify\<close>, the list has been destroyed and \<open>notify\<close> reads freed
  memory.\<close>

theorem su_notify_dangling:
  assumes "su_inv s" and "subs_of s a = [w]" and "su_unsubscribe a (wr_id w) s = (r, s')"
  shows "r = Ret True \<and> su_notify_invoke (su_notify_find a s) h s' x = (Undef Use_after_free, x)"
proof -
  obtain p where p: "su_map s a = Some p" using assms(2) by (cases "su_map s a") (auto simp: subs_of_def)
  then obtain l where l: "su_lists s p = Some l" "sl_inv l" "sl_items l = [w]"
    using su_inv_mapD [OF assms(1) p] assms(2) by metis
  obtain l' where rm: "sl_remove (wr_id w) l = (Ret (wr_id w \<in> wr_id ` set (sl_items l)), l')" "sl_inv l'"
    "sl_items l' = filter (\<lambda>v. wr_id v \<noteq> wr_id w) (sl_items l)"
    by (rule sl_remove_spec [OF l(2)])
  with l have "sl_items l' = []" by simp
  moreover have "tsl_destroy (sl_callbacks l') = Ret ()"
    using rm(2) \<open>sl_items l' = []\<close> by (simp add: destroy_outcome sl_inv_def sl_items_def)
  ultimately have "r = Ret True" "su_lists s' p = None"
    using assms(3) p l rm by (auto simp: su_unsubscribe_def sl_size_0)
  with p show ?thesis by (simp add: su_notify_find_def su_notify_invoke_def)
qed

theorem su_notify_dangling_witness:
  "\<exists>(s :: string subsys) s' i. su_unsubscribe ''a'' i s = (Ret True, s') \<and>
     su_notify_invoke (su_notify_find ''a'' s) (\<lambda>cb. ret ()) s' () = (Undef Use_after_free, ())"
proof -
  have "next_sub_id su_new ''a'' \<noteq> - 1" by simp
  from subscribe_step [OF su_new_inv this, of "Some ''cb''"] obtain s1 where
    a: "su_inv s1" "subs_of s1 = (subs_of su_new)(''a'' := [\<lparr>wr_id = 1, wr_cb = Some ''cb''\<rparr>])"
    by auto
  define w where "w = \<lparr>wr_id = (1 :: u64), wr_cb = Some ''cb''\<rparr>"
  from a have s1: "su_inv s1" "subs_of s1 ''a'' = [w]" by (simp_all add: w_def)
  obtain r s' where u: "su_unsubscribe ''a'' (wr_id w) s1 = (r, s')" by (rule prod.exhaust)
  from su_notify_dangling [OF s1 u, of "\<lambda>cb. ret ()" "()"] u show ?thesis by blast
qed

end
