(* ===== verification/Threadsafe_Queue.thy ===== *)
theory Threadsafe_Queue
  imports Prelude "HOL-Library.Sublist"
begin

text \<open>
  \<^verbatim>\<open>utils/threadsafe_queue.h\<close> and \<^verbatim>\<open>utils/threadsafe_queue.cpp\<close>:
  \<open>BoundedThreadsafeQueue<T>\<close>. Every operation holds the one mutex \<open>mu_\<close> throughout, so an
  operation is one atomic step of the model. A call that would wait on a condition variable
  is \<open>Blocked\<close>; \<open>bq_push_wake\<close> is what the blocked \<open>Push\<close> does once it is woken.
  The locale \<open>fifo\<close> is the contract the queue's clients rely on.
\<close>

section \<open>State and operations\<close>

datatype overflow_policy = Block | DropNewest | DropOldest | Compact

record 'a bqueue =
  bq_max :: nat
  bq_size :: u64
  bq_policy :: overflow_policy
  bq_items :: "'a list"
  bq_stopped :: bool

text \<open>The constructor takes a \<open>uint32_t\<close>; its default is the largest one, with \<open>Block\<close>.\<close>

definition bq_new :: "u32 \<Rightarrow> overflow_policy \<Rightarrow> 'a bqueue" where
  "bq_new max_size policy =
     \<lparr>bq_max = unat max_size, bq_size = 0, bq_policy = policy, bq_items = [], bq_stopped = False\<rparr>"

definition bq_default :: "'a bqueue" where
  "bq_default = bq_new (- 1) Block"

definition bq_enqueue :: "'a \<Rightarrow> 'a bqueue \<Rightarrow> 'a bqueue" where
  "bq_enqueue v q = q\<lparr>bq_items := bq_items q @ [v], bq_size := bq_size q + 1\<rparr>"

text \<open>The loop of the \<open>Compact\<close> policy; \<open>None\<close> is \<open>pop_front\<close> on an empty deque.\<close>

fun bq_compact :: "nat \<Rightarrow> 'a list \<Rightarrow> u64 \<Rightarrow> ('a list \<times> u64) option" where
  "bq_compact mx [] n = (if mx \<le> 0 then None else Some ([], n))"
| "bq_compact mx (x # xs) n =
     (if mx \<le> length (x # xs) then bq_compact mx xs (n - 1) else Some (x # xs, n))"

definition bq_push :: "'a \<Rightarrow> (unit, 'a bqueue) prog" where
  "bq_push v q =
     (if bq_stopped q then (Ret (), q)
      else if bq_max q \<le> length (bq_items q) then
        (case bq_policy q of
           Block \<Rightarrow> (Blocked, q)
         | DropNewest \<Rightarrow> (Ret (), q)
         | DropOldest \<Rightarrow> (case bq_items q of
             [] \<Rightarrow> (Undef Pop_empty, q)
           | _ # xs \<Rightarrow> (Ret (), bq_enqueue v (q\<lparr>bq_items := xs, bq_size := bq_size q - 1\<rparr>)))
         | Compact \<Rightarrow> (case bq_compact (bq_max q) (bq_items q) (bq_size q) of
             None \<Rightarrow> (Undef Pop_empty, q)
           | Some (xs, n) \<Rightarrow> (Ret (), bq_enqueue v (q\<lparr>bq_items := xs, bq_size := n\<rparr>))))
      else (Ret (), bq_enqueue v q))"

text \<open>A \<open>Push\<close> waiting on \<open>space_cond\<close>: it re-evaluates its predicate when it is woken.\<close>

definition bq_push_wake :: "'a \<Rightarrow> (unit, 'a bqueue) prog" where
  "bq_push_wake v q =
     (if \<not> (bq_stopped q \<or> length (bq_items q) < bq_max q) then (Blocked, q)
      else if bq_stopped q then (Ret (), q)
      else (Ret (), bq_enqueue v q))"

definition bq_pop :: "('a option, 'a bqueue) prog" where
  "bq_pop q = (case bq_items q of
     [] \<Rightarrow> (Undef Pop_empty, q)
   | x # xs \<Rightarrow> (Ret (Some x), q\<lparr>bq_items := xs, bq_size := bq_size q - 1\<rparr>))"

definition bq_try_pop :: "('a option, 'a bqueue) prog" where
  "bq_try_pop q = (if bq_items q = [] then (Ret None, q) else bq_pop q)"

text \<open>
  \<open>WaitAndPop(value, timeout)\<close>: \<open>expired\<close> says whether the timeout has passed when the
  predicate is last evaluated. A timeout that is not positive waits without limit.
\<close>

definition bq_wait_pop :: "int \<Rightarrow> bool \<Rightarrow> ('a option, 'a bqueue) prog" where
  "bq_wait_pop timeout expired q =
     (if \<not> (bq_stopped q \<or> bq_items q \<noteq> []) then
        (if 0 < timeout \<and> expired then (Ret None, q) else (Blocked, q))
      else if bq_stopped q \<and> bq_items q = [] then (Ret None, q)
      else bq_pop q)"

text \<open>The overload without a timeout, which returns a \<open>shared_ptr\<close>.\<close>

definition bq_wait_pop_shared :: "('a option, 'a bqueue) prog" where
  "bq_wait_pop_shared q =
     (if \<not> (bq_stopped q \<or> bq_items q \<noteq> []) then (Blocked, q)
      else if bq_stopped q \<and> bq_items q = [] then (Ret None, q)
      else bq_pop q)"

definition bq_empty :: "'a bqueue \<Rightarrow> bool" where
  "bq_empty q \<longleftrightarrow> bq_items q = []"

definition bq_get_size :: "'a bqueue \<Rightarrow> u32" where
  "bq_get_size q = of_nat (length (bq_items q))"

definition bq_is_stopped :: "'a bqueue \<Rightarrow> bool" where
  "bq_is_stopped q = bq_stopped q"

definition bq_stop :: "'a bqueue \<Rightarrow> 'a bqueue" where
  "bq_stop q = q\<lparr>bq_stopped := True\<rparr>"

lemmas bq_defs = bq_push_def bq_push_wake_def bq_pop_def bq_try_pop_def bq_wait_pop_def
  bq_wait_pop_shared_def bq_stop_def bq_enqueue_def

section \<open>The invariant\<close>

text \<open>The atomic counter agrees with the deque, and the bound is respected.\<close>

definition bq_inv :: "'a bqueue \<Rightarrow> bool" where
  "bq_inv q \<longleftrightarrow> bq_size q = of_nat (length (bq_items q)) \<and> length (bq_items q) \<le> bq_max q"

lemma bq_new_simps [simp]:
  "bq_items (bq_new m p) = []" "bq_stopped (bq_new m p) = False"
  "bq_max (bq_new m p) = unat m" "bq_policy (bq_new m p) = p"
  by (simp_all add: bq_new_def)

lemma unat_u32_max [simp]: "unat (- 1 :: u32) = 4294967295"
  by (simp add: unsigned_minus_1_eq_mask mask_eq_exp_minus_1)

lemma bq_default_simps [simp]:
  "bq_items bq_default = []" "bq_stopped bq_default = False"
  "bq_max bq_default = 4294967295" "bq_policy bq_default = Block" "bq_size bq_default = 0"
  by (simp_all add: bq_default_def bq_new_def)

lemma bq_new_inv [simp, inv_intros]: "bq_inv (bq_new m p)"
  by (simp add: bq_inv_def bq_new_def)

lemma bq_compact_Some:
  "bq_compact mx xs n = Some (ys, m) \<Longrightarrow> n = of_nat (length xs) \<Longrightarrow>
     m = of_nat (length ys) \<and> length ys < mx \<and> suffix ys xs"
  by (induction mx xs n rule: bq_compact.induct) (auto split: if_splits intro: suffix_ConsI)

lemma bq_compact_total: "0 < mx \<Longrightarrow> bq_compact mx xs n \<noteq> None"
  by (induction mx xs n rule: bq_compact.induct) auto

lemma bq_push_inv [inv_intros]:
  assumes "bq_inv q"
  shows "bq_inv (snd (bq_push v q))"
proof (cases "bq_compact (bq_max q) (bq_items q) (bq_size q)")
  case None
  with assms show ?thesis
    by (auto simp: bq_defs bq_inv_def split: overflow_policy.splits list.splits)
next
  case (Some p)
  with assms bq_compact_Some [of "bq_max q" "bq_items q" "bq_size q" "fst p" "snd p"] show ?thesis
    by (cases p) (auto simp: bq_defs bq_inv_def split: overflow_policy.splits list.splits)
qed

lemma bq_push_wake_inv [inv_intros]: "bq_inv q \<Longrightarrow> bq_inv (snd (bq_push_wake v q))"
  by (auto simp: bq_defs bq_inv_def)

lemma bq_pop_inv [inv_intros]: "bq_inv q \<Longrightarrow> bq_inv (snd (bq_pop q))"
  by (auto simp: bq_defs bq_inv_def split: list.splits)

lemma bq_try_pop_inv [inv_intros]: "bq_inv q \<Longrightarrow> bq_inv (snd (bq_try_pop q))"
  by (simp add: bq_try_pop_def bq_pop_inv)

lemma bq_wait_pop_inv [inv_intros]: "bq_inv q \<Longrightarrow> bq_inv (snd (bq_wait_pop t e q))"
  by (simp add: bq_wait_pop_def bq_pop_inv)

lemma bq_wait_pop_shared_inv [inv_intros]: "bq_inv q \<Longrightarrow> bq_inv (snd (bq_wait_pop_shared q))"
  by (simp add: bq_wait_pop_shared_def bq_pop_inv)

lemma bq_stop_inv [inv_intros]: "bq_inv q \<Longrightarrow> bq_inv (bq_stop q)"
  by (simp add: bq_stop_def bq_inv_def)

section \<open>Histories of a queue\<close>

text \<open>
  The calls that run on one queue, from any number of threads, in the order in which they
  hold the mutex. \<open>EWake v\<close> is a blocked \<open>Push\<close> of \<open>v\<close> being woken.
\<close>

datatype 'a qev = EPush 'a | EWake 'a | ETryPop | EWaitPop int bool | EWaitPopShared | EStop

fun bq_exec :: "'a qev \<Rightarrow> 'a bqueue \<Rightarrow> 'a option \<times> 'a bqueue" where
  "bq_exec (EPush v) q = (None, snd (bq_push v q))"
| "bq_exec (EWake v) q = (None, snd (bq_push_wake v q))"
| "bq_exec ETryPop q = (case bq_try_pop q of (Ret r, q') \<Rightarrow> (r, q') | (_, q') \<Rightarrow> (None, q'))"
| "bq_exec (EWaitPop t e) q = (case bq_wait_pop t e q of (Ret r, q') \<Rightarrow> (r, q') | (_, q') \<Rightarrow> (None, q'))"
| "bq_exec EWaitPopShared q = (case bq_wait_pop_shared q of (Ret r, q') \<Rightarrow> (r, q') | (_, q') \<Rightarrow> (None, q'))"
| "bq_exec EStop q = (None, bq_stop q)"

text \<open>The value an event appends to the queue, if it appends one.\<close>

fun bq_appends :: "'a qev \<Rightarrow> 'a bqueue \<Rightarrow> 'a list" where
  "bq_appends (EPush v) q =
     (if bq_stopped q \<or> bq_max q \<le> length (bq_items q) \<and> bq_policy q \<in> {Block, DropNewest}
      then [] else [v])"
| "bq_appends (EWake v) q = (if bq_stopped q \<or> bq_max q \<le> length (bq_items q) then [] else [v])"
| "bq_appends _ q = []"

fun bq_run :: "'a qev list \<Rightarrow> 'a bqueue \<Rightarrow> 'a list \<times> 'a list \<times> 'a bqueue" where
  "bq_run [] q = ([], [], q)"
| "bq_run (e # es) q =
     (let (r, q') = bq_exec e q; (ins, outs, q'') = bq_run es q'
      in (bq_appends e q @ ins, (case r of None \<Rightarrow> outs | Some x \<Rightarrow> x # outs), q''))"

lemma bq_exec_inv [inv_intros]:
  assumes "bq_inv q"
  shows "bq_inv (snd (bq_exec e q))"
proof (cases e)
  case (EWaitPop t x)
  then show ?thesis using bq_wait_pop_inv [OF assms, of t x]
    by (auto split: prod.splits outcome.splits)
next
  case ETryPop
  then show ?thesis using bq_try_pop_inv [OF assms]
    by (auto split: prod.splits outcome.splits)
next
  case EWaitPopShared
  then show ?thesis using bq_wait_pop_shared_inv [OF assms]
    by (auto split: prod.splits outcome.splits)
qed (use assms in \<open>auto intro: inv_intros\<close>)

lemma bq_exec_policy: "bq_policy (snd (bq_exec e q)) = bq_policy q"
  by (cases e) (auto simp: bq_defs split: prod.splits outcome.splits list.splits
      overflow_policy.splits option.splits)

text \<open>With \<open>Block\<close> and \<open>DropNewest\<close> one event keeps the sequence of values.\<close>

lemma bq_exec_fifo:
  assumes "bq_policy q \<in> {Block, DropNewest}"
  shows "bq_items q @ bq_appends e q =
    (case fst (bq_exec e q) of None \<Rightarrow> [] | Some x \<Rightarrow> [x]) @ bq_items (snd (bq_exec e q))"
  using assms by (cases e) (auto simp: bq_defs split: list.splits)

text \<open>C10: A queue with policy \<open>Block\<close> or \<open>DropNewest\<close> is a FIFO channel with exactly-once
  delivery: in every history of pushes, wake-ups, pops and stops, the values that were in the
  queue followed by the values the pushes appended are the popped values followed by what is
  left, in the same order.\<close>

theorem bq_run_fifo:
  assumes "bq_policy q \<in> {Block, DropNewest}" and "bq_run es q = (ins, outs, q')"
  shows "bq_items q @ ins = outs @ bq_items q'"
  using assms
proof (induction es arbitrary: q ins outs q')
  case (Cons e es)
  obtain r q1 where ex: "bq_exec e q = (r, q1)" by (cases "bq_exec e q")
  obtain ins1 outs1 q2 where run: "bq_run es q1 = (ins1, outs1, q2)" by (cases "bq_run es q1") auto
  have "bq_items q1 @ ins1 = outs1 @ bq_items q2"
    by (rule Cons.IH [OF _ run]) (use bq_exec_policy [of e q] ex Cons.prems in simp)
  with bq_exec_fifo [OF Cons.prems(1), of e] ex run Cons.prems(2) show ?case
    by (auto simp: append_assoc [symmetric] simp del: append_assoc split: option.splits)
qed simp

theorem bq_run_fifo_witness:
  "bq_run [EPush 1, EPush 2, EPush 3, ETryPop, EWake 3, EStop, EWaitPop 50 False]
     (bq_new 2 Block :: nat bqueue) =
       ([1, 2, 3], [1, 2], \<lparr>bq_max = 2, bq_size = 1, bq_policy = Block, bq_items = [3], bq_stopped = True\<rparr>) \<and>
   [1, 2, 3 :: nat] = [1, 2] @ [3]"
proof -
  have run: "bq_run [EPush 1, EPush 2, EPush 3, ETryPop, EWake 3, EStop, EWaitPop 50 False]
     (bq_new 2 Block :: nat bqueue) =
       ([1, 2, 3], [1, 2], \<lparr>bq_max = 2, bq_size = 1, bq_policy = Block, bq_items = [3], bq_stopped = True\<rparr>)"
    by (simp add: bq_defs bq_new_def)
  show ?thesis using run bq_run_fifo [OF _ run] by simp
qed

text \<open>With every policy, what comes out and what is left is a subsequence of what went in.\<close>

lemma bq_exec_subseq:
  assumes "bq_inv q"
  shows "subseq ((case fst (bq_exec e q) of None \<Rightarrow> [] | Some x \<Rightarrow> [x]) @ bq_items (snd (bq_exec e q)))
           (bq_items q @ bq_appends e q)"
proof (cases "bq_policy q \<in> {Block, DropNewest}")
  case True
  then show ?thesis using bq_exec_fifo [OF True, of e] by simp
next
  case False
  show ?thesis
  proof (cases e)
    case (EPush v)
    show ?thesis
    proof (cases "bq_compact (bq_max q) (bq_items q) (bq_size q)")
      case None
      with EPush False show ?thesis
        by (cases "bq_policy q") (auto simp: bq_defs split: list.splits)
    next
      case (Some p)
      then obtain ys m where p: "p = (ys, m)" by (cases p)
      from assms Some p have "suffix ys (bq_items q)"
        using bq_compact_Some by (fastforce simp: bq_inv_def)
      then have "subseq (ys @ [v]) (bq_items q @ [v])"
        by (auto simp: suffix_def intro!: list_emb_append_mono intro: list_emb_append2)
      with EPush False Some p show ?thesis
        by (cases "bq_policy q") (auto simp: bq_defs split: list.splits)
    qed
  qed (auto simp: bq_defs split: list.splits)
qed

text \<open>Whatever the overflow policy, a history never invents, duplicates or reorders values:
  the popped values followed by what is left are a subsequence of what was there followed by
  what the pushes appended, and the queue's counter and bound stay right.\<close>

theorem bq_run_subseq:
  assumes "bq_inv q" and "bq_run es q = (ins, outs, q')"
  shows "subseq (outs @ bq_items q') (bq_items q @ ins) \<and> bq_inv q'"
  using assms
proof (induction es arbitrary: q ins outs q')
  case (Cons e es)
  obtain r q1 where ex: "bq_exec e q = (r, q1)" by (cases "bq_exec e q")
  obtain ins1 outs1 q2 where run: "bq_run es q1 = (ins1, outs1, q2)" by (cases "bq_run es q1") auto
  let ?out = "case r of None \<Rightarrow> [] | Some x \<Rightarrow> [x]"
  have q1: "bq_inv q1" using bq_exec_inv [OF Cons.prems(1), of e] ex by simp
  note ih = Cons.IH [OF q1 run]
  have "subseq (?out @ (outs1 @ bq_items q2)) (?out @ (bq_items q1 @ ins1))"
    by (rule list_emb_append_mono [OF _ conjunct1 [OF ih]]) simp
  also have "subseq (?out @ (bq_items q1 @ ins1)) ((bq_items q @ bq_appends e q) @ ins1)"
    unfolding append_assoc [symmetric, of ?out]
    by (rule list_emb_append_mono) (use bq_exec_subseq [OF Cons.prems(1), of e] ex in simp_all)
  finally show ?case using Cons.prems(2) ex run ih
    by (cases r) auto
qed simp

theorem bq_run_subseq_witness:
  "subseq ([2] @ [3, 4]) ([] @ [1, 2, 3, 4 :: nat]) \<and>
   bq_inv \<lparr>bq_max = 2, bq_size = 2, bq_policy = DropOldest, bq_items = [3, 4 :: nat], bq_stopped = False\<rparr>"
proof -
  have run: "bq_run [EPush 1, EPush 2, EPush 3, ETryPop, EPush 4] (bq_new 2 DropOldest :: nat bqueue) =
       ([1, 2, 3, 4], [2], \<lparr>bq_max = 2, bq_size = 2, bq_policy = DropOldest, bq_items = [3, 4], bq_stopped = False\<rparr>)"
    by (simp add: bq_defs bq_new_def)
  show ?thesis using bq_run_subseq [OF bq_new_inv run] by simp
qed

text \<open>\<open>DropOldest\<close> keeps the newest values: after any run of pushes on a queue that is not
  stopped, the last \<open>bq_max\<close> of them.\<close>

lemma bq_push_drop_oldest:
  assumes "bq_policy q = DropOldest" "\<not> bq_stopped q" "0 < bq_max q" "length (bq_items q) \<le> bq_max q"
  shows "\<exists>q'. bq_push v q = (Ret (), q') \<and>
    bq_items q' = drop (Suc (length (bq_items q)) - bq_max q) (bq_items q @ [v]) \<and>
    bq_policy q' = DropOldest \<and> \<not> bq_stopped q' \<and> bq_max q' = bq_max q"
proof (cases "bq_max q \<le> length (bq_items q)")
  case True
  with assms obtain x xs where "bq_items q = x # xs" by (cases "bq_items q") auto
  with True assms show ?thesis by (simp add: bq_defs)
next
  case False
  with assms show ?thesis by (simp add: bq_defs)
qed

theorem bq_push_all_drop_oldest:
  assumes "0 < max_size"
  shows "fst (seqP bq_push vs (bq_new max_size DropOldest)) = Ret ()"
    and "bq_items (snd (seqP bq_push vs (bq_new max_size DropOldest))) =
      drop (length vs - unat max_size) vs"
proof -
  have m: "0 < unat max_size" using assms by (simp add: unat_gt_0)
  have "\<exists>q. seqP bq_push vs (bq_new max_size DropOldest) = (Ret (), q) \<and>
    bq_items q = drop (length vs - unat max_size) vs \<and>
    bq_policy q = DropOldest \<and> \<not> bq_stopped q \<and> bq_max q = unat max_size"
  proof (induction vs rule: rev_induct)
    case (snoc v vs)
    then obtain q where q: "seqP bq_push vs (bq_new max_size DropOldest) = (Ret (), q)"
      "bq_items q = drop (length vs - unat max_size) vs"
      "bq_policy q = DropOldest" "\<not> bq_stopped q" "bq_max q = unat max_size" by blast
    then have len: "length (bq_items q) \<le> bq_max q" by simp
    obtain q' where q': "bq_push v q = (Ret (), q')"
      "bq_items q' = drop (Suc (length (bq_items q)) - bq_max q) (bq_items q @ [v])"
      "bq_policy q' = DropOldest" "\<not> bq_stopped q'" "bq_max q' = bq_max q"
      using bq_push_drop_oldest [OF q(3,4) _ len, of v] m q(5) by auto
    have "bq_items q' = drop (length (vs @ [v]) - unat max_size) (vs @ [v])"
      using q(2,5) q'(2) m by (cases "unat max_size \<le> length vs") (auto simp: Suc_diff_le)
    with q q' show ?case by (auto simp: seqP_append)
  qed simp
  then show "fst (seqP bq_push vs (bq_new max_size DropOldest)) = Ret ()"
    and "bq_items (snd (seqP bq_push vs (bq_new max_size DropOldest))) =
      drop (length vs - unat max_size) vs" by auto
qed

section \<open>The contract of the queue\<close>

text \<open>
  The part of the queue its clients use: \<open>put\<close> appends while there is space, \<open>get\<close> takes
  the oldest value or reports an empty queue.
\<close>

fun get_n :: "nat \<Rightarrow> ('a option, 'q) prog \<Rightarrow> 'q \<Rightarrow> 'a list \<times> 'q" where
  "get_n 0 get q = ([], q)"
| "get_n (Suc n) get q = (case get q of
     (Ret (Some x), q') \<Rightarrow> (case get_n n get q' of (xs, q'') \<Rightarrow> (x # xs, q''))
   | (_, q') \<Rightarrow> ([], q'))"

locale fifo =
  fixes items :: "'q \<Rightarrow> 'a list"
    and ok :: "'q \<Rightarrow> bool"
    and space :: "'q \<Rightarrow> nat"
    and put :: "'a \<Rightarrow> 'q \<Rightarrow> unit outcome \<times> 'q"
    and get :: "'q \<Rightarrow> 'a option outcome \<times> 'q"
  assumes put_space: "ok q \<Longrightarrow> 0 < space q \<Longrightarrow>
      \<exists>q'. put v q = (Ret (), q') \<and> ok q' \<and> items q' = items q @ [v] \<and> space q' = space q - 1"
    and get_empty: "ok q \<Longrightarrow> items q = [] \<Longrightarrow> get q = (Ret None, q)"
    and get_Cons: "ok q \<Longrightarrow> items q = x # xs \<Longrightarrow>
      \<exists>q'. get q = (Ret (Some x), q') \<and> ok q' \<and> items q' = xs"
begin

lemma put_all:
  assumes "ok q" and "length vs \<le> space q"
  shows "\<exists>q'. seqP put vs q = (Ret (), q') \<and> ok q' \<and> items q' = items q @ vs \<and>
    space q' = space q - length vs"
  using assms
proof (induction vs arbitrary: q)
  case (Cons v vs)
  then obtain q1 where q1: "put v q = (Ret (), q1)" "ok q1" "items q1 = items q @ [v]"
    "space q1 = space q - 1" using put_space [of q v] by auto
  with Cons.IH [of q1] Cons.prems show ?case by auto
qed simp

lemma get_all:
  assumes "ok q"
  shows "\<exists>q'. get_n (length (items q)) get q = (items q, q') \<and> ok q' \<and> items q' = []"
  using assms
proof (induction "items q" arbitrary: q)
  case (Cons x xs)
  from get_Cons [OF Cons.prems Cons.hyps(2) [symmetric]] obtain q1
    where q1: "get q = (Ret (Some x), q1)" "ok q1" "items q1 = xs" by blast
  with Cons.hyps(1) [of q1] obtain q2 where "get_n (length xs) get q1 = (xs, q2)" "ok q2" "items q2 = []"
    by auto
  with q1 show ?case by (simp flip: Cons.hyps(2))
qed simp

lemma put_get_all:
  assumes "ok q" and "items q = []" and "length vs \<le> space q"
  shows "\<exists>q'. get_n (length vs) get (snd (seqP put vs q)) = (vs, q') \<and> items q' = []"
  using put_all [OF assms(1,3)] assms(2) get_all by fastforce

end

definition bq_space :: "'a bqueue \<Rightarrow> nat" where
  "bq_space q = (if bq_stopped q then 0 else bq_max q - length (bq_items q))"

lemma bq_push_space:
  "bq_inv q \<Longrightarrow> 0 < bq_space q \<Longrightarrow> bq_push v q = (Ret (), bq_enqueue v q)"
  by (auto simp: bq_push_def bq_space_def split: if_splits)

interpretation bq: fifo bq_items bq_inv bq_space bq_push bq_try_pop
proof unfold_locales
  fix q :: "'a bqueue" and v
  assume "bq_inv q" "0 < bq_space q"
  then show "\<exists>q'. bq_push v q = (Ret (), q') \<and> bq_inv q' \<and> bq_items q' = bq_items q @ [v] \<and>
      bq_space q' = bq_space q - 1"
    using bq_push_inv [of q v]
    by (auto simp: bq_push_space bq_enqueue_def bq_space_def split: if_splits)
next
  fix q :: "'a bqueue"
  show "bq_items q = [] \<Longrightarrow> bq_try_pop q = (Ret None, q)"
    by (simp add: bq_try_pop_def)
next
  fix q :: "'a bqueue" and x xs
  assume "bq_inv q" "bq_items q = x # xs"
  then show "\<exists>q'. bq_try_pop q = (Ret (Some x), q') \<and> bq_inv q' \<and> bq_items q' = xs"
    using bq_try_pop_inv [of q] by (auto simp: bq_try_pop_def bq_pop_def)
qed

section \<open>Stop and a waiting consumer\<close>

text \<open>
  \<open>Stop\<close> stores \<open>stopped_\<close> and notifies without holding \<open>mu_\<close>. The steps of one
  consumer in the untimed \<open>WaitAndPop\<close> and of one thread in \<open>Stop\<close>: the consumer locks
  \<open>mu_\<close> and evaluates its predicate (\<open>W_Checked\<close>: it was false, and \<open>mu_\<close> is still held),
  then blocks and releases \<open>mu_\<close> in one step; a notification moves only a sleeping consumer.
\<close>

datatype wait_pc = W_Start | W_Checked | W_Sleep | W_Done
datatype stop_pc = S_Start | S_Stored | S_Done

record 'a stop_sys =
  ss_queue :: "'a bqueue"
  ss_waiter :: wait_pc
  ss_stopper :: stop_pc

inductive stop_step :: "'a stop_sys \<Rightarrow> 'a stop_sys \<Rightarrow> bool" where
  check_false: "ss_waiter s = W_Start \<Longrightarrow> \<not> (bq_stopped (ss_queue s) \<or> bq_items (ss_queue s) \<noteq> []) \<Longrightarrow>
    stop_step s (s\<lparr>ss_waiter := W_Checked\<rparr>)"
| check_true: "ss_waiter s = W_Start \<Longrightarrow> bq_stopped (ss_queue s) \<or> bq_items (ss_queue s) \<noteq> [] \<Longrightarrow>
    stop_step s (s\<lparr>ss_waiter := W_Done, ss_queue := snd (bq_wait_pop_shared (ss_queue s))\<rparr>)"
| sleep: "ss_waiter s = W_Checked \<Longrightarrow> stop_step s (s\<lparr>ss_waiter := W_Sleep\<rparr>)"
| store: "ss_stopper s = S_Start \<Longrightarrow>
    stop_step s (s\<lparr>ss_stopper := S_Stored, ss_queue := bq_stop (ss_queue s)\<rparr>)"
| notify_all: "ss_stopper s = S_Stored \<Longrightarrow>
    stop_step s (s\<lparr>ss_stopper := S_Done,
      ss_waiter := (if ss_waiter s = W_Sleep then W_Start else ss_waiter s)\<rparr>)"

inductive_cases stop_stepE: "stop_step s t"

definition stop_init :: "'a bqueue \<Rightarrow> 'a stop_sys" where
  "stop_init q = \<lparr>ss_queue = q, ss_waiter = W_Start, ss_stopper = S_Start\<rparr>"

text \<open>\<open>Stop\<close> can lose its wake-up: from an empty, running queue there is an interleaving of
  \<open>Stop\<close> with an untimed \<open>WaitAndPop\<close> that ends with the queue stopped, \<open>Stop\<close> finished and
  the consumer asleep, with no step left that would wake it.\<close>

theorem stop_loses_wakeup:
  assumes "bq_items q = []" and "\<not> bq_stopped q"
  shows "\<exists>s. stop_step\<^sup>*\<^sup>* (stop_init q) s \<and> ss_waiter s = W_Sleep \<and> ss_stopper s = S_Done \<and>
    bq_stopped (ss_queue s) \<and> (\<forall>t. \<not> stop_step s t)"
proof -
  let ?s0 = "stop_init q"
  let ?s1 = "?s0\<lparr>ss_waiter := W_Checked\<rparr>"
  let ?s2 = "?s1\<lparr>ss_stopper := S_Stored, ss_queue := bq_stop (ss_queue ?s1)\<rparr>"
  let ?s3 = "?s2\<lparr>ss_stopper := S_Done,
    ss_waiter := (if ss_waiter ?s2 = W_Sleep then W_Start else ss_waiter ?s2)\<rparr>"
  let ?s4 = "?s3\<lparr>ss_waiter := W_Sleep\<rparr>"
  have "stop_step ?s0 ?s1" by (rule check_false) (use assms in \<open>simp_all add: stop_init_def\<close>)
  moreover have "stop_step ?s1 ?s2" by (rule store) (simp add: stop_init_def)
  moreover have "stop_step ?s2 ?s3" by (rule notify_all) simp
  moreover have "stop_step ?s3 ?s4" by (rule sleep) simp
  ultimately have "stop_step\<^sup>*\<^sup>* ?s0 ?s4"
    by (meson rtranclp.rtrancl_refl rtranclp.rtrancl_into_rtrancl)
  moreover have "\<not> stop_step ?s4 t" for t
    by (auto elim!: stop_stepE)
  moreover have "ss_waiter ?s4 = W_Sleep \<and> ss_stopper ?s4 = S_Done \<and> bq_stopped (ss_queue ?s4)"
    by (simp add: bq_stop_def)
  ultimately show ?thesis by blast
qed

theorem stop_loses_wakeup_witness:
  "\<exists>s. stop_step\<^sup>*\<^sup>* (stop_init (bq_default :: nat bqueue)) s \<and> ss_waiter s = W_Sleep \<and>
     ss_stopper s = S_Done \<and> bq_stopped (ss_queue s) \<and> (\<forall>t. \<not> stop_step s t)"
  by (rule stop_loses_wakeup) (simp_all add: bq_default_def)

text \<open>A consumer that has not started when \<open>Stop\<close> stores the flag is not lost: it never sleeps.\<close>

lemma stop_started_wakes:
  assumes "stop_step\<^sup>*\<^sup>* s t" and "bq_stopped (ss_queue s)" and "ss_waiter s \<in> {W_Start, W_Done}"
  shows "ss_waiter t \<in> {W_Start, W_Done} \<and> bq_stopped (ss_queue t)"
  using assms
  by (induction rule: rtranclp_induct)
    (auto elim!: stop_stepE simp: bq_stop_def bq_wait_pop_shared_def bq_pop_def split: list.splits)

end
