(* ===== verification/Thread_Pool.thy ===== *)
theory Thread_Pool
  imports Threadsafe_Queue "HOL-Library.Multiset"
begin

text \<open>
  \<^verbatim>\<open>utils/thread_pool.h\<close>, \<^verbatim>\<open>utils/thread_pool.inl\<close> and \<^verbatim>\<open>utils/callable.h\<close>: a fixed
  number of workers that take tasks from one shared queue. The steps of the workers, of
  \<open>Submit\<close> and of \<open>Stop\<close> interleave in any order (\<open>tp_step\<close>); a task is a value, and the
  pool records which tasks have been accepted, started and finished, in order.
\<close>

section \<open>Callable\<close>

text \<open>
  \<open>Callable\<close> owns its function (\<open>impl\<close>) or is empty: default-constructed, or moved from.
  Calling an empty one does nothing.
\<close>

record 'f callable =
  cl_impl :: "'f option"

definition callable_default :: "'f callable" where
  "callable_default = \<lparr>cl_impl = None\<rparr>"

definition callable_of :: "'f \<Rightarrow> 'f callable" where
  "callable_of f = \<lparr>cl_impl = Some f\<rparr>"

definition callable_move :: "'f callable \<Rightarrow> 'f callable \<times> 'f callable" where
  "callable_move c = (c, c\<lparr>cl_impl := None\<rparr>)"

definition callable_call :: "('f \<Rightarrow> (unit, 's) prog) \<Rightarrow> 'f callable \<Rightarrow> (unit, 's) prog" where
  "callable_call run c s = (case cl_impl c of None \<Rightarrow> (Ret (), s) | Some f \<Rightarrow> run f s)"

lemma callable_moved_from: "callable_call run (snd (callable_move c)) s = (Ret (), s)"
  by (simp add: callable_call_def callable_move_def)

lemma callable_moved_to: "callable_call run (fst (callable_move (callable_of f))) s = run f s"
  by (simp add: callable_call_def callable_move_def callable_of_def)

section \<open>The pool\<close>

text \<open>
  A worker is at the head of its loop, past the test of \<open>done\<close>, running a task, or gone.
\<close>

datatype 'w wstate = Polling | Checked | Running 'w | Exited

record 'w pool =
  tp_done :: bool
  tp_queue :: "'w bqueue"
  tp_active :: u64
  tp_workers :: "'w wstate list"
  tp_accepted :: "'w list"
  tp_started :: "'w list"
  tp_finished :: "'w list"

definition tp_new :: "nat \<Rightarrow> 'w pool" where
  "tp_new thread_count =
     \<lparr>tp_done = False, tp_queue = bq_default, tp_active = 0,
      tp_workers = replicate thread_count Polling, tp_accepted = [], tp_started = [], tp_finished = []\<rparr>"

definition tp_submit :: "'w \<Rightarrow> (unit, 'w pool) prog" where
  "tp_submit t p =
     (if tp_done p then (Ret (), p)
      else (case bq_push t (tp_queue p) of (r, q) \<Rightarrow>
        (r, p\<lparr>tp_queue := q, tp_accepted := tp_accepted p @ bq_appends (EPush t) (tp_queue p)\<rparr>)))"

text \<open>\<open>Stop\<close> sets \<open>done\<close> and then joins the workers: it returns once they have all exited.\<close>

definition tp_stop :: "'w pool \<Rightarrow> 'w pool" where
  "tp_stop p = p\<lparr>tp_done := True\<rparr>"

text \<open>The destructor stops the pool; the workers are joined as the members are destroyed.\<close>

definition tp_dtor :: "'w pool \<Rightarrow> 'w pool" where
  "tp_dtor p = tp_stop p"

definition tp_joined :: "'w pool \<Rightarrow> bool" where
  "tp_joined p \<longleftrightarrow> tp_done p \<and> (\<forall>w \<in> set (tp_workers p). w = Exited)"

definition set_worker :: "nat \<Rightarrow> 'w wstate \<Rightarrow> 'w pool \<Rightarrow> 'w pool" where
  "set_worker i w p = p\<lparr>tp_workers := (tp_workers p)[i := w]\<rparr>"

text \<open>
  The steps of \<open>WorkerThread\<close>: test \<open>done\<close>, \<open>TryPop\<close> (start a task, or yield), and the end
  of the task, which its \<open>catch (...)\<close> makes the same for a return and for an exception.
\<close>

definition worker_check :: "nat \<Rightarrow> 'w pool \<Rightarrow> 'w pool" where
  "worker_check i p = set_worker i (if tp_done p then Exited else Checked) p"

definition worker_pop :: "nat \<Rightarrow> 'w pool \<Rightarrow> 'w pool" where
  "worker_pop i p = (case bq_try_pop (tp_queue p) of
     (Ret (Some t), q) \<Rightarrow>
       set_worker i (Running t)
         (p\<lparr>tp_queue := q, tp_active := tp_active p + 1, tp_started := tp_started p @ [t]\<rparr>)
   | (_, q) \<Rightarrow> set_worker i Polling (p\<lparr>tp_queue := q\<rparr>))"

definition worker_finish :: "nat \<Rightarrow> 'w \<Rightarrow> 'w pool \<Rightarrow> 'w pool" where
  "worker_finish i t p =
     set_worker i Polling (p\<lparr>tp_active := tp_active p - 1, tp_finished := tp_finished p @ [t]\<rparr>)"

inductive tp_step :: "'w pool \<Rightarrow> 'w pool \<Rightarrow> bool" where
  submit: "tp_submit t p = (Ret (), p') \<Longrightarrow> tp_step p p'"
| stop: "tp_step p (tp_stop p)"
| check: "i < length (tp_workers p) \<Longrightarrow> tp_workers p ! i = Polling \<Longrightarrow> tp_step p (worker_check i p)"
| pop: "i < length (tp_workers p) \<Longrightarrow> tp_workers p ! i = Checked \<Longrightarrow> tp_step p (worker_pop i p)"
| finish: "i < length (tp_workers p) \<Longrightarrow> tp_workers p ! i = Running t \<Longrightarrow>
    tp_step p (worker_finish i t p)"

inductive_cases tp_stepE: "tp_step p p'"

lemmas tp_defs = tp_submit_def tp_stop_def worker_check_def worker_pop_def worker_finish_def
  set_worker_def

section \<open>The invariant of the pool\<close>

fun running_task :: "'w wstate \<Rightarrow> 'w list" where
  "running_task (Running t) = [t]"
| "running_task _ = []"

definition running :: "'w pool \<Rightarrow> 'w list" where
  "running p = concat (map running_task (tp_workers p))"

text \<open>
  Tasks start in the order in which they were accepted, each at most once; a started task is
  running or finished; and \<open>active_workers\<close> counts the running ones.
\<close>

definition tp_inv :: "'w pool \<Rightarrow> bool" where
  "tp_inv p \<longleftrightarrow>
     bq_inv (tp_queue p) \<and> bq_policy (tp_queue p) = Block \<and>
     tp_accepted p = tp_started p @ bq_items (tp_queue p) \<and>
     mset (tp_started p) = mset (tp_finished p) + mset (running p) \<and>
     tp_active p = of_nat (length (running p))"

lemma running_set_worker:
  assumes "i < length (tp_workers p)"
  shows "mset (running (set_worker i w p)) + mset (running_task (tp_workers p ! i)) =
    mset (running p) + mset (running_task w)"
proof -
  have "mset (concat (map running_task (xs[i := w]))) + mset (running_task (xs ! i)) =
      mset (concat (map running_task xs)) + mset (running_task w)" if "i < length xs" for xs :: "'a wstate list"
    using that
  proof (induction xs arbitrary: i)
    case (Cons x xs)
    then show ?case
    proof (cases i)
      case (Suc j)
      with Cons.IH [of j] Cons.prems show ?thesis by (simp add: ac_simps)
    qed (simp add: ac_simps)
  qed simp
  from this [OF assms] show ?thesis by (simp add: running_def set_worker_def)
qed

lemma length_running:
  assumes "i < length (tp_workers p)"
  shows "length (running (set_worker i w p)) + length (running_task (tp_workers p ! i)) =
    length (running p) + length (running_task w)"
  using arg_cong [OF running_set_worker [OF assms, of w], of size] by simp

lemma set_worker_simps [simp]:
  "tp_queue (set_worker i w p) = tp_queue p" "tp_accepted (set_worker i w p) = tp_accepted p"
  "tp_started (set_worker i w p) = tp_started p" "tp_finished (set_worker i w p) = tp_finished p"
  "tp_active (set_worker i w p) = tp_active p" "tp_done (set_worker i w p) = tp_done p"
  by (simp_all add: set_worker_def)

lemma running_update [simp]:
  "running (p\<lparr>tp_queue := q\<rparr>) = running p" "running (p\<lparr>tp_accepted := xs\<rparr>) = running p"
  "running (p\<lparr>tp_started := xs\<rparr>) = running p" "running (p\<lparr>tp_finished := xs\<rparr>) = running p"
  "running (p\<lparr>tp_active := n\<rparr>) = running p" "running (p\<lparr>tp_done := b\<rparr>) = running p"
  by (simp_all add: running_def)

lemma tp_inv_new [simp, inv_intros]: "tp_inv (tp_new n)"
  by (induction n) (auto simp: tp_inv_def tp_new_def bq_default_def running_def)

lemma tp_submit_inv:
  assumes "tp_inv p" and "tp_submit t p = (r, p')"
  shows "tp_inv p'"
proof (cases "tp_done p")
  case False
  obtain r' q where push: "bq_push t (tp_queue p) = (r', q)" by (cases "bq_push t (tp_queue p)")
  from assms(1) have "bq_inv q" "bq_policy q = Block"
    "bq_items (tp_queue p) @ bq_appends (EPush t) (tp_queue p) = bq_items q"
    using bq_push_inv [of "tp_queue p" t] bq_exec_policy [of "EPush t" "tp_queue p"]
      bq_exec_fifo [of "tp_queue p" "EPush t"] push by (auto simp: tp_inv_def)
  with assms False push show ?thesis
    by (auto simp: tp_submit_def tp_inv_def simp del: bq_appends.simps)
qed (use assms in \<open>simp add: tp_submit_def\<close>)

lemma worker_pop_inv:
  assumes "tp_inv p" and i: "i < length (tp_workers p)" and w: "tp_workers p ! i = Checked"
  shows "tp_inv (worker_pop i p)"
proof (cases "bq_items (tp_queue p)")
  case Nil
  then have "worker_pop i p = set_worker i Polling p"
    by (simp add: worker_pop_def bq_try_pop_def set_worker_def)
  with assms running_set_worker [OF i, of Polling] length_running [OF i, of Polling] show ?thesis
    by (simp add: tp_inv_def)
next
  case (Cons t ts)
  from assms(1) have "bq_inv (tp_queue p)" by (simp add: tp_inv_def)
  from bq.get_Cons [OF this Cons] obtain q where
    q: "bq_try_pop (tp_queue p) = (Ret (Some t), q)" "bq_inv q" "bq_items q = ts" by blast
  have pol: "bq_policy q = bq_policy (tp_queue p)"
    using bq_exec_policy [of ETryPop "tp_queue p"] q by simp
  let ?p = "p\<lparr>tp_queue := q, tp_active := tp_active p + 1, tp_started := tp_started p @ [t]\<rparr>"
  from i w have i': "i < length (tp_workers ?p)" "tp_workers ?p ! i = Checked" by simp_all
  from q have "worker_pop i p = set_worker i (Running t) ?p" by (simp add: worker_pop_def)
  with assms(1) q pol Cons running_set_worker [OF i'(1), of "Running t"]
    length_running [OF i'(1), of "Running t"] i'(2)
  show ?thesis by (simp add: tp_inv_def)
qed

lemma tp_step_inv:
  assumes "tp_step p p'" and "tp_inv p"
  shows "tp_inv p'"
  using assms
proof (induction rule: tp_step.induct)
  case (submit t p p')
  then show ?case by (auto intro: tp_submit_inv)
next
  case (stop p)
  then show ?case by (simp add: tp_inv_def tp_stop_def)
next
  case (check i p)
  with running_set_worker [of i p "if tp_done p then Exited else Checked"]
    length_running [of i p "if tp_done p then Exited else Checked"]
  show ?case by (auto simp: tp_inv_def worker_check_def)
next
  case (pop i p)
  then show ?case by (intro worker_pop_inv)
next
  case (finish i p t)
  let ?p = "p\<lparr>tp_active := tp_active p - 1, tp_finished := tp_finished p @ [t]\<rparr>"
  define R where "R = running (worker_finish i t p)"
  from finish running_set_worker [of i ?p Polling] length_running [of i ?p Polling]
  have "mset R + {#t#} = mset (running p)" and len: "length (running p) = Suc (length R)"
    by (simp_all add: R_def worker_finish_def)
  moreover from len have "of_nat (length (running p)) - 1 = (of_nat (length R) :: u64)" by simp
  moreover have "tp_active (worker_finish i t p) = tp_active p - 1"
    "tp_finished (worker_finish i t p) = tp_finished p @ [t]"
    "tp_queue (worker_finish i t p) = tp_queue p" "tp_started (worker_finish i t p) = tp_started p"
    "tp_accepted (worker_finish i t p) = tp_accepted p"
    by (simp_all add: worker_finish_def)
  ultimately show ?case using finish(3)
    unfolding tp_inv_def R_def [symmetric] by auto
qed

lemma tp_steps_inv: "tp_step\<^sup>*\<^sup>* p p' \<Longrightarrow> tp_inv p \<Longrightarrow> tp_inv p'"
  by (induction rule: rtranclp_induct) (auto intro: tp_step_inv)



section \<open>Stopping\<close>

lemma tp_step_done: "tp_step p p' \<Longrightarrow> tp_done p \<Longrightarrow> tp_done p'"
  by (induction rule: tp_step.induct)
    (auto simp: tp_defs split: prod.splits outcome.splits option.splits)

lemma tp_joined_step:
  assumes "tp_step p p'" and "tp_joined p"
  shows "p' = p"
  using assms(1)
proof cases
  case (submit t)
  with assms(2) show ?thesis by (simp add: tp_submit_def tp_joined_def)
next
  case stop
  with assms(2) show ?thesis by (simp add: tp_stop_def tp_joined_def)
qed (use assms(2) in \<open>force simp: tp_joined_def dest: nth_mem\<close>)+

text \<open>\<open>Stop\<close> abandons the queue: once it has returned (all workers joined), no step changes
  the pool any more, so tasks that were accepted but not yet started are never run, and later
  submissions are ignored.\<close>

theorem tp_stop_abandons_queue:
  assumes "tp_joined p" and "tp_step\<^sup>*\<^sup>* p p'"
  shows "p' = p \<and> tp_submit t p' = (Ret (), p)"
  using assms(2)
proof (induction rule: rtranclp_induct)
  case base
  then show ?case using assms(1) by (simp add: tp_submit_def tp_joined_def)
next
  case (step q r)
  then show ?case using tp_joined_step [of q r] assms(1) by (auto simp: tp_submit_def tp_joined_def)
qed

theorem tp_stop_abandons_queue_witness:
  "\<exists>p. tp_step\<^sup>*\<^sup>* (tp_new 1) p \<and> tp_accepted p = [''t''] \<and> tp_started p = [] \<and>
     (\<forall>p'. tp_step\<^sup>*\<^sup>* p p' \<longrightarrow> tp_started p' = [])"
proof -
  define p1 where "p1 = snd (tp_submit ''t'' (tp_new 1))"
  define p2 where "p2 = tp_stop p1"
  define p3 where "p3 = worker_check 0 p2"
  note defs = p3_def p2_def p1_def tp_defs tp_new_def bq_defs bq_default_def bq_new_def
  have "tp_step (tp_new 1) p1" by (rule tp_step.submit [of "''t''"]) (simp add: defs)
  moreover have "tp_step p1 p2" unfolding p2_def by (rule tp_step.stop)
  moreover have "tp_step p2 p3"
    unfolding p3_def by (rule tp_step.check) (simp_all add: defs)
  ultimately have steps: "tp_step\<^sup>*\<^sup>* (tp_new 1) p3"
    by (meson rtranclp.rtrancl_refl rtranclp.rtrancl_into_rtrancl)
  have "tp_joined p3" "tp_accepted p3 = [''t'']" "tp_started p3 = []"
    by (simp_all add: defs tp_joined_def)
  with tp_stop_abandons_queue [of p3] steps show ?thesis by metis
qed

section \<open>Progress\<close>

text \<open>While the pool is running, one idle worker can take and finish everything in the queue.\<close>

lemma worker_runs_one:
  assumes "tp_inv p" and "\<not> tp_done p" and i: "i < length (tp_workers p)" "tp_workers p ! i = Polling"
    and "bq_items (tp_queue p) = t # ts"
  shows "\<exists>p'. tp_step\<^sup>*\<^sup>* p p' \<and> tp_inv p' \<and> \<not> tp_done p' \<and> i < length (tp_workers p') \<and>
    tp_workers p' ! i = Polling \<and> bq_items (tp_queue p') = ts \<and>
    tp_finished p' = tp_finished p @ [t]"
proof -
  let ?p1 = "worker_check i p"
  let ?p2 = "worker_pop i ?p1"
  let ?p3 = "worker_finish i t ?p2"
  have q1: "tp_queue ?p1 = tp_queue p" by (simp add: worker_check_def)
  from assms(1) have "bq_inv (tp_queue p)" by (simp add: tp_inv_def)
  from bq.get_Cons [OF this assms(5)] obtain q where q: "bq_try_pop (tp_queue p) = (Ret (Some t), q)"
    "bq_items q = ts" by blast
  have s1: "tp_step p ?p1" by (rule tp_step.check [OF i])
  have s2: "tp_step ?p1 ?p2"
    by (rule tp_step.pop) (use i assms(2) in \<open>simp_all add: worker_check_def set_worker_def\<close>)
  have s3: "tp_step ?p2 ?p3"
    by (rule tp_step.finish)
      (use i assms(2) q in \<open>simp_all add: worker_pop_def worker_check_def set_worker_def\<close>)
  from s1 s2 s3 have steps: "tp_step\<^sup>*\<^sup>* p ?p3"
    by (meson rtranclp.rtrancl_refl rtranclp.rtrancl_into_rtrancl)
  moreover have "tp_inv ?p3" by (rule tp_steps_inv [OF steps assms(1)])
  ultimately show ?thesis using i assms(2) q
    by (intro exI [of _ ?p3])
      (simp add: worker_finish_def worker_pop_def worker_check_def set_worker_def)
qed

lemma worker_drains:
  assumes "tp_inv p" and "\<not> tp_done p" and "i < length (tp_workers p)" and "tp_workers p ! i = Polling"
  shows "\<exists>p'. tp_step\<^sup>*\<^sup>* p p' \<and> bq_items (tp_queue p') = [] \<and>
    tp_finished p' = tp_finished p @ bq_items (tp_queue p)"
  using assms
proof (induction "bq_items (tp_queue p)" arbitrary: p)
  case Nil
  then show ?case by (metis append_Nil2 rtranclp.rtrancl_refl)
next
  case (Cons t ts)
  from worker_runs_one [OF Cons.prems Cons.hyps(2) [symmetric]] obtain p1 where
    p1: "tp_step\<^sup>*\<^sup>* p p1" "tp_inv p1" "\<not> tp_done p1" "i < length (tp_workers p1)"
    "tp_workers p1 ! i = Polling" "bq_items (tp_queue p1) = ts"
    "tp_finished p1 = tp_finished p @ [t]" by blast
  from Cons.hyps(1) [of p1] p1 obtain p2 where "tp_step\<^sup>*\<^sup>* p1 p2" "bq_items (tp_queue p2) = []"
    "tp_finished p2 = tp_finished p1 @ ts" by auto
  with p1 show ?case
    by (intro exI [of _ p2]) (simp flip: Cons.hyps(2))
qed

text \<open>Progress: from every reachable state in which the pool is running and some worker is
  idle, there are steps of the pool that finish all tasks of the queue, in queue order.\<close>

theorem tp_can_drain:
  assumes "tp_step\<^sup>*\<^sup>* (tp_new n) p" and "\<not> tp_done p"
    and "i < length (tp_workers p)" and "tp_workers p ! i = Polling"
  shows "\<exists>p'. tp_step\<^sup>*\<^sup>* p p' \<and> bq_items (tp_queue p') = [] \<and>
    tp_finished p' = tp_finished p @ bq_items (tp_queue p)"
  by (rule worker_drains [OF tp_steps_inv [OF assms(1) tp_inv_new] assms(2-4)])

theorem tp_can_drain_witness:
  "\<exists>p p'. bq_items (tp_queue p) = [''t''] \<and> tp_step\<^sup>*\<^sup>* p p' \<and> bq_items (tp_queue p') = [] \<and>
     tp_finished p' = [''t'']"
proof -
  define p1 where "p1 = snd (tp_submit ''t'' (tp_new 1))"
  note defs = p1_def tp_defs tp_new_def bq_defs bq_default_def bq_new_def
  have "tp_step (tp_new 1) p1" by (rule tp_step.submit [of "''t''"]) (simp add: defs)
  then have steps: "tp_step\<^sup>*\<^sup>* (tp_new 1) p1" by simp
  have "\<not> tp_done p1" "0 < length (tp_workers p1)" "tp_workers p1 ! 0 = Polling"
    "bq_items (tp_queue p1) = [''t'']" "tp_finished p1 = []"
    by (simp_all add: defs)
  with tp_can_drain [OF steps, of 0] show ?thesis by auto
qed

text \<open>A pool that accepts a task without waiting.\<close>

definition tp_ready :: "'w pool \<Rightarrow> bool" where
  "tp_ready p \<longleftrightarrow> \<not> tp_done p \<and> \<not> bq_stopped (tp_queue p) \<and>
     length (bq_items (tp_queue p)) < bq_max (tp_queue p)"

lemma tp_submit_ready:
  assumes "tp_ready p"
  shows "\<exists>p'. tp_submit t p = (Ret (), p') \<and> tp_accepted p' = tp_accepted p @ [t] \<and>
    bq_items (tp_queue p') = bq_items (tp_queue p) @ [t]"
  using assms by (auto simp: tp_submit_def tp_ready_def bq_push_def bq_enqueue_def)

end
