(* ===== verification/Cpp_Strings.thy ===== *)
theory Cpp_Strings
  imports Prelude
begin

text \<open>
  The standard-library string functions that \<^verbatim>\<open>src/wal.cpp\<close> uses on log lines:
  writing an unsigned integer to a stream in decimal, \<open>std::stoull\<close>, and
  \<open>std::getline\<close> with a delimiter.
\<close>

section \<open>Decimal output\<close>

definition digit_char :: "nat \<Rightarrow> char" where
  "digit_char d = char_of (48 + d)"

fun show_nat :: "nat \<Rightarrow> string" where
  "show_nat n = (if n < 10 then [digit_char n] else show_nat (n div 10) @ [digit_char (n mod 10)])"

declare show_nat.simps [simp del]

definition show_u64 :: "u64 \<Rightarrow> string" where
  "show_u64 w = show_nat (unat w)"

section \<open>stoull\<close>

definition is_digit :: "char \<Rightarrow> bool" where
  "is_digit c \<longleftrightarrow> of_char c \<in> {48..57 :: nat}"

definition digit_val :: "char \<Rightarrow> nat" where
  "digit_val c = of_char c - 48"

definition is_space :: "char \<Rightarrow> bool" where
  "is_space c \<longleftrightarrow> of_char c = (32 :: nat) \<or> of_char c \<in> {9..13 :: nat}"

definition digits_val :: "string \<Rightarrow> nat" where
  "digits_val ds = fold (\<lambda>c n. 10 * n + digit_val c) ds 0"

text \<open>
  \<open>std::stoull(s)\<close> in base 10: leading white space, an optional sign, the longest run of
  digits. No digit is \<open>std::invalid_argument\<close>, a value that does not fit is
  \<open>std::out_of_range\<close>, a minus sign negates modulo \<open>2 ^ 64\<close>, and the rest is ignored.
\<close>

definition stoull :: "string \<Rightarrow> u64 outcome" where
  "stoull s =
     (let t = dropWhile is_space s;
          neg = (t \<noteq> [] \<and> hd t = CHR ''-'');
          u = (if t \<noteq> [] \<and> (hd t = CHR ''-'' \<or> hd t = CHR ''+'') then tl t else t);
          ds = takeWhile is_digit u;
          n = digits_val ds
      in if ds = [] then Throw Invalid_argument
         else if 2 ^ 64 \<le> n then Throw Out_of_range
         else Ret (if neg then - of_nat n else of_nat n))"

section \<open>getline\<close>

definition newline :: char where
  "newline = CHR 0x0A"

definition bar :: char where
  "bar = CHR ''|''"

text \<open>
  \<open>getline(in, out, d)\<close> on a stream with the characters \<open>s\<close> left: it fails when nothing is
  left, and otherwise gives the characters before the delimiter and what is left after it.
\<close>

definition getline :: "char \<Rightarrow> string \<Rightarrow> (string \<times> string) option" where
  "getline d s =
     (if s = [] then None else Some (takeWhile (\<lambda>c. c \<noteq> d) s, drop 1 (dropWhile (\<lambda>c. c \<noteq> d) s)))"

lemma getline_shorter: "getline d s = Some (l, r) \<Longrightarrow> length r < length s"
  using length_dropWhile_le [of "\<lambda>c. c \<noteq> d" s]
  by (cases s) (auto simp: getline_def split: if_splits)

text \<open>The lines a \<open>while (getline(infile, line))\<close> loop sees.\<close>

function lines_of :: "string \<Rightarrow> string list" where
  "lines_of s = (case getline newline s of None \<Rightarrow> [] | Some (l, r) \<Rightarrow> l # lines_of r)"
  by pat_completeness auto
termination
  by (relation "measure length") (auto dest: getline_shorter)

declare lines_of.simps [simp del]

section \<open>Their properties\<close>

lemma getline_Nil [simp]: "getline d [] = None"
  by (simp add: getline_def)

lemma getline_append [simp]: "d \<notin> set l \<Longrightarrow> getline d (l @ d # r) = Some (l, r)"
proof -
  assume "d \<notin> set l"
  then have "takeWhile (\<lambda>c. c \<noteq> d) (l @ d # r) = l" "dropWhile (\<lambda>c. c \<noteq> d) (l @ d # r) = d # r"
    by (induction l) auto
  then show ?thesis by (simp add: getline_def)
qed

lemma getline_last: "d \<notin> set l \<Longrightarrow> l \<noteq> [] \<Longrightarrow> getline d l = Some (l, [])"
proof -
  assume "d \<notin> set l" "l \<noteq> []"
  then have "takeWhile (\<lambda>c. c \<noteq> d) l = l" "dropWhile (\<lambda>c. c \<noteq> d) l = []"
    by (auto simp: takeWhile_eq_all_conv dropWhile_eq_Nil_conv)
  with \<open>l \<noteq> []\<close> show ?thesis
    by (simp add: getline_def del: dropWhile_eq_Nil_conv takeWhile_eq_all_conv)
qed

lemma lines_of_Nil [simp]: "lines_of [] = []"
  by (subst lines_of.simps) simp

lemma lines_of_Cons [simp]: "newline \<notin> set l \<Longrightarrow> lines_of (l @ newline # r) = l # lines_of r"
  by (subst lines_of.simps) simp

lemma lines_of_concat:
  assumes "\<forall>l \<in> set ls. newline \<notin> set l"
  shows "lines_of (concat (map (\<lambda>l. l @ [newline]) ls)) = ls"
  using assms by (induction ls) auto

lemma digit_char_props:
  assumes "d < 10"
  shows "is_digit (digit_char d)" and "digit_val (digit_char d) = d"
  using assms by (simp_all add: is_digit_def digit_val_def digit_char_def take_bit_nat_def)

lemma show_nat_digits: "c \<in> set (show_nat n) \<Longrightarrow> is_digit c"
proof (induction n rule: show_nat.induct)
  case (1 n)
  then show ?case
    by (subst (asm) show_nat.simps) (auto simp: digit_char_props split: if_splits)
qed

lemma show_nat_nonempty [simp]: "show_nat n \<noteq> []"
  by (subst show_nat.simps) simp

lemma show_nat_small: "n < 10 \<Longrightarrow> show_nat n = [digit_char n]"
  by (subst show_nat.simps) simp

lemma digits_val_snoc: "digits_val (ds @ [c]) = 10 * digits_val ds + digit_val c"
  by (simp add: digits_val_def)

lemma digits_val_show [simp]: "digits_val (show_nat n) = n"
proof (induction n rule: show_nat.induct)
  case (1 n)
  show ?case
  proof (cases "n < 10")
    case True
    then show ?thesis
      by (subst show_nat.simps) (simp add: digits_val_def digit_char_props)
  next
    case False
    with 1 show ?thesis
      by (subst show_nat.simps) (simp add: digits_val_snoc digit_char_props)
  qed
qed

lemma digit_not_special:
  assumes "is_digit c"
  shows "\<not> is_space c" "c \<noteq> CHR ''-''" "c \<noteq> CHR ''+''" "c \<noteq> bar" "c \<noteq> newline"
  using assms by (auto simp: is_digit_def is_space_def bar_def newline_def)

lemma show_u64_clean [simp]: "bar \<notin> set (show_u64 w)" "newline \<notin> set (show_u64 w)"
  using show_nat_digits digit_not_special(4) digit_not_special(5)
  unfolding show_u64_def by blast+

lemma stoull_show [simp]: "stoull (show_u64 w) = Ret w"
proof -
  let ?s = "show_nat (unat w)"
  have hd: "is_digit (hd ?s)" by (rule show_nat_digits [of _ "unat w"]) simp
  then have "dropWhile is_space ?s = ?s"
    using digit_not_special(1) by (cases ?s) auto
  moreover have "takeWhile is_digit ?s = ?s"
    using show_nat_digits by (simp add: takeWhile_eq_all_conv)
  moreover have "hd ?s \<noteq> CHR ''-''" "hd ?s \<noteq> CHR ''+''"
    using hd digit_not_special by auto
  moreover have "unat w < 2 ^ 64" using unsigned_less [of w, where 'a = nat] by simp
  ultimately show ?thesis
    by (simp add: stoull_def show_u64_def Let_def not_le del: takeWhile_eq_all_conv)
qed

end
