(* ===== verification/Wal.thy ===== *)
theory Wal
  imports Cpp_Strings
begin

text \<open>
  \<^verbatim>\<open>src/wal.h\<close> and \<^verbatim>\<open>src/wal.cpp\<close>: the write-ahead log, over a small model of the file
  system (names bound to inodes) and of \<open>std::ofstream\<close>. \<open>append\<close>, \<open>set_path\<close>,
  \<open>register_handler\<close> and \<open>replay\<close> hold \<open>mutex_\<close> throughout, so each is one step.
  Writes to an open file succeed in the model; opening a file can fail, and the functions of
  \<open>std::filesystem\<close> throw when the file is missing.
\<close>

section \<open>Files and streams\<close>

record fs =
  fs_names :: "string \<rightharpoonup> nat"
  fs_data :: "nat \<Rightarrow> string"
  fs_next :: nat
  fs_can_open :: "string \<Rightarrow> bool"

definition fs_content :: "string \<Rightarrow> fs \<Rightarrow> string option" where
  "fs_content p f = map_option (fs_data f) (fs_names f p)"

definition fs_create :: "string \<Rightarrow> fs \<Rightarrow> fs" where
  "fs_create p f = f\<lparr>fs_names := (fs_names f)(p \<mapsto> fs_next f),
     fs_data := (fs_data f)(fs_next f := []), fs_next := Suc (fs_next f)\<rparr>"

definition fs_write :: "nat \<Rightarrow> string \<Rightarrow> fs \<Rightarrow> fs" where
  "fs_write i s f = f\<lparr>fs_data := (fs_data f)(i := fs_data f i @ s)\<rparr>"

text \<open>\<open>std::filesystem::file_size\<close> and \<open>rename\<close>, which throw when the source is missing.\<close>

definition fs_size :: "string \<Rightarrow> (nat, fs) prog" where
  "fs_size p f = (case fs_content p f of
     None \<Rightarrow> (Throw (Filesystem_error p), f) | Some s \<Rightarrow> (Ret (length s), f))"

definition fs_rename :: "string \<Rightarrow> string \<Rightarrow> (unit, fs) prog" where
  "fs_rename p q f = (case fs_names f p of
     None \<Rightarrow> (Throw (Filesystem_error p), f)
   | Some i \<Rightarrow> (Ret (), f\<lparr>fs_names := (fs_names f)(p := None, q \<mapsto> i)\<rparr>))"

text \<open>
  \<open>std::ofstream\<close>: the open file, if any, and \<open>fail()\<close>. Opening a stream that is already
  open only sets \<open>failbit\<close>; a successful \<open>open\<close> clears the state.
\<close>

record ofs =
  of_open :: "nat option"
  of_fail :: bool

record entry =
  e_seq :: u64
  e_actor :: actor_id
  e_key :: key
  e_value :: val
  e_ts :: u64

text \<open>
  The log object. \<open>w_calls\<close> records the entries the handler has been called with; the
  handler itself is client code.
\<close>

record wal =
  w_path :: string
  w_file :: ofs
  w_max :: nat
  w_seq :: u64
  w_handler :: "(entry \<Rightarrow> unit outcome) option"
  w_calls :: "entry list"

type_synonym 'a wal_prog = "('a, wal \<times> fs) prog"

definition stream_open_app :: "string \<Rightarrow> ofs \<times> fs \<Rightarrow> ofs \<times> fs" where
  "stream_open_app p = (\<lambda>(o1, f).
     (if of_open o1 \<noteq> None then (o1\<lparr>of_fail := True\<rparr>, f)
      else if \<not> fs_can_open f p then (o1\<lparr>of_fail := True\<rparr>, f)
      else (case fs_names f p of
          Some i \<Rightarrow> (\<lparr>of_open = Some i, of_fail = False\<rparr>, f)
        | None \<Rightarrow> (\<lparr>of_open = Some (fs_next f), of_fail = False\<rparr>, fs_create p f))))"

definition stream_close :: "ofs \<Rightarrow> ofs" where
  "stream_close o1 = (if of_open o1 = None then o1\<lparr>of_fail := True\<rparr> else o1\<lparr>of_open := None\<rparr>)"

section \<open>The operations of the log\<close>

definition open_log :: "unit wal_prog" where
  "open_log = (\<lambda>(w, f).
     (case stream_open_app (w_path w) (w_file w, f) of (o1, f') \<Rightarrow>
        (if of_fail o1 then Throw (Runtime_error (''Failed to open WAL file: '' @ w_path w)) else Ret (),
         w\<lparr>w_file := o1\<rparr>, f')))"

definition wal_ctor :: "string \<Rightarrow> nat \<Rightarrow> fs \<Rightarrow> unit outcome \<times> wal \<times> fs" where
  "wal_ctor p mx f = open_log
     (\<lparr>w_path = p, w_file = \<lparr>of_open = None, of_fail = False\<rparr>, w_max = mx, w_seq = 0,
       w_handler = None, w_calls = []\<rparr>, f)"

definition wal_default_path :: string where
  "wal_default_path = ''wal.log''"

definition wal_default_max :: nat where
  "wal_default_max = 10 * 1024 * 1024"

text \<open>The destructor flushes and closes an open stream.\<close>

definition wal_dtor :: "wal \<Rightarrow> wal" where
  "wal_dtor w = (if of_open (w_file w) \<noteq> None then w\<lparr>w_file := stream_close (w_file w)\<rparr> else w)"

definition wal_notify_handler :: "entry \<Rightarrow> unit wal_prog" where
  "wal_notify_handler e = (\<lambda>(w, f).
     (case w_handler w of
        None \<Rightarrow> (Ret (), w, f)
      | Some h \<Rightarrow> (h e, w\<lparr>w_calls := w_calls w @ [e]\<rparr>, f)))"

definition wal_rotate :: "unit wal_prog" where
  "wal_rotate = (\<lambda>(w, f).
     (let w1 = w\<lparr>w_file := stream_close (w_file w)\<rparr>
      in (case fs_rename (w_path w1) (w_path w1 @ ''.1'') f of
            (Ret _, f') \<Rightarrow> open_log (w1, f')
          | (r, f') \<Rightarrow> (abort_of r, w1, f'))))"

definition wal_line :: "entry \<Rightarrow> string" where
  "wal_line e = show_u64 (e_seq e) @ bar # show_u64 (e_ts e) @ bar # e_actor e @ bar #
     e_key e @ bar # e_value e"

text \<open>\<open>append\<close>: \<open>now\<close> is the clock reading in milliseconds.\<close>

definition wal_write :: "entry \<Rightarrow> wal \<times> fs \<Rightarrow> wal \<times> fs" where
  "wal_write e = (\<lambda>(w, f).
     (if of_fail (w_file w) then (w, f)
      else (case of_open (w_file w) of
          None \<Rightarrow> (w\<lparr>w_file := (w_file w)\<lparr>of_fail := True\<rparr>\<rparr>, f)
        | Some i \<Rightarrow> (w, fs_write i (wal_line e @ [newline]) f))))"

definition wal_append :: "actor_id \<Rightarrow> key \<Rightarrow> val \<Rightarrow> u64 \<Rightarrow> unit wal_prog" where
  "wal_append actor k v now = (\<lambda>(w, f).
     (let e = \<lparr>e_seq = w_seq w + 1, e_actor = actor, e_key = k, e_value = v, e_ts = now\<rparr>;
          s = wal_write e (w\<lparr>w_seq := w_seq w + 1\<rparr>, f)
      in bindP (zoom snd (\<lambda>f (w, _). (w, f)) (fs_size (w_path w)))
           (\<lambda>n. bindP (if w_max w \<le> n then wal_rotate else ret ()) (\<lambda>_. wal_notify_handler e)) s))"

definition wal_set_path :: "string \<Rightarrow> unit wal_prog" where
  "wal_set_path p = (\<lambda>(w, f). open_log (w\<lparr>w_path := p\<rparr>, f))"

definition wal_register_handler :: "(entry \<Rightarrow> unit outcome) \<Rightarrow> wal \<Rightarrow> wal" where
  "wal_register_handler h w = w\<lparr>w_handler := Some h\<rparr>"

text \<open>
  One line of \<open>replay\<close>: five \<open>getline\<close> calls in a row (the last one with the default
  delimiter); a line on which one of them fails is skipped, and \<open>stoull\<close> may throw.
\<close>

definition wal_parse :: "string \<Rightarrow> entry option outcome" where
  "wal_parse line =
     (case getline bar line of None \<Rightarrow> Ret None | Some (seq_str, r1) \<Rightarrow>
     (case getline bar r1 of None \<Rightarrow> Ret None | Some (ts_str, r2) \<Rightarrow>
     (case getline bar r2 of None \<Rightarrow> Ret None | Some (actor, r3) \<Rightarrow>
     (case getline bar r3 of None \<Rightarrow> Ret None | Some (k, r4) \<Rightarrow>
     (case getline newline r4 of None \<Rightarrow> Ret None | Some (v, _) \<Rightarrow>
       (case stoull seq_str of
          Ret n \<Rightarrow> (case stoull ts_str of
              Ret t \<Rightarrow> Ret (Some \<lparr>e_seq = n, e_actor = actor, e_key = k, e_value = v, e_ts = t\<rparr>)
            | x \<Rightarrow> abort_of x)
        | x \<Rightarrow> abort_of x))))))"

definition wal_replay_line :: "string \<Rightarrow> unit wal_prog" where
  "wal_replay_line line s = (case wal_parse line of
     Ret None \<Rightarrow> (Ret (), s)
   | Ret (Some e) \<Rightarrow> wal_notify_handler e s
   | r \<Rightarrow> (abort_of r, s))"

text \<open>A missing file leaves the input stream closed, and the loop reads no line.\<close>

definition wal_replay :: "unit wal_prog" where
  "wal_replay = (\<lambda>(w, f).
     seqP wal_replay_line (case fs_content (w_path w) f of None \<Rightarrow> [] | Some s \<Rightarrow> lines_of s) (w, f))"

lemmas wal_defs = wal_append_def wal_write_def wal_rotate_def wal_notify_handler_def open_log_def
  stream_open_app_def stream_close_def fs_size_def fs_rename_def fs_create_def fs_write_def

section \<open>Lines: writing and parsing\<close>

definition clean_field :: "string \<Rightarrow> bool" where
  "clean_field s \<longleftrightarrow> bar \<notin> set s \<and> newline \<notin> set s"

definition clean_entry :: "entry \<Rightarrow> bool" where
  "clean_entry e \<longleftrightarrow> clean_field (e_actor e) \<and> clean_field (e_key e) \<and> newline \<notin> set (e_value e)"

text \<open>What a written line is read back as: an empty value does not survive.\<close>

definition read_back :: "entry \<Rightarrow> entry option" where
  "read_back e = (if e_value e = [] then None else Some e)"

lemma newline_neq_bar [simp]: "newline \<noteq> bar" "bar \<noteq> newline"
  by (simp_all add: newline_def bar_def)

lemma wal_line_no_newline:
  "clean_entry e \<Longrightarrow> newline \<notin> set (wal_line e)"
  by (simp add: clean_entry_def clean_field_def wal_line_def)

lemma wal_line_eq:
  "wal_line e = show_u64 (e_seq e) @ bar # (show_u64 (e_ts e) @ bar # (e_actor e @ bar #
     (e_key e @ bar # e_value e)))"
  by (simp add: wal_line_def)

lemma parse_line:
  assumes "clean_entry e"
  shows "wal_parse (wal_line e) = Ret (read_back e)"
proof (cases "e_value e")
  case Nil
  with assms show ?thesis
    by (simp add: wal_line_eq wal_parse_def read_back_def clean_entry_def clean_field_def)
next
  case (Cons c cs)
  with assms show ?thesis
    by (simp add: wal_line_eq wal_parse_def read_back_def clean_entry_def clean_field_def
        getline_last)
qed

text \<open>C18: Round trip of the log format: a line written by \<open>append\<close> is parsed by \<open>replay\<close> into
  the same entry, provided the actor and the key contain no separator and nothing contains a
  newline; the one loss on such entries is the empty value, which replay skips.\<close>

theorem wal_parse_line:
  assumes "clean_entry e"
  shows "wal_parse (wal_line e) = Ret (read_back e)"
  using assms by (rule parse_line)

theorem wal_parse_line_witness:
  "wal_parse (wal_line \<lparr>e_seq = 7, e_actor = ''a1'', e_key = ''cart'', e_value = ''x|y'', e_ts = 5\<rparr>) =
     Ret (Some \<lparr>e_seq = 7, e_actor = ''a1'', e_key = ''cart'', e_value = ''x|y'', e_ts = 5\<rparr>)"
  using wal_parse_line [of "\<lparr>e_seq = 7, e_actor = ''a1'', e_key = ''cart'', e_value = ''x|y'', e_ts = 5\<rparr>"]
  by (simp add: clean_entry_def clean_field_def bar_def newline_def read_back_def)

text \<open>A separator inside a key silently shifts the fields: the entry is read back with the
  key cut at the separator and the rest of the key glued to the front of the value.\<close>

theorem wal_parse_key_with_bar:
  assumes "clean_field a" and "clean_field k1" and "newline \<notin> set k2" and "newline \<notin> set v"
  shows "wal_parse (wal_line \<lparr>e_seq = n, e_actor = a, e_key = k1 @ bar # k2, e_value = v, e_ts = t\<rparr>) =
    Ret (Some \<lparr>e_seq = n, e_actor = a, e_key = k1, e_value = k2 @ bar # v, e_ts = t\<rparr>)"
  using assms by (simp add: wal_line_eq wal_parse_def clean_field_def getline_last)

theorem wal_parse_key_with_bar_witness:
  "wal_parse (wal_line \<lparr>e_seq = 1, e_actor = ''a'', e_key = ''k|1'', e_value = ''v'', e_ts = 2\<rparr>) =
    Ret (Some \<lparr>e_seq = 1, e_actor = ''a'', e_key = ''k'', e_value = ''1|v'', e_ts = 2\<rparr>)"
  using wal_parse_key_with_bar [of "''a''" "''k''" "''1''" "''v''" 1 2]
  by (simp add: clean_field_def bar_def newline_def)

section \<open>Log files\<close>

definition log_text :: "entry list \<Rightarrow> string" where
  "log_text es = concat (map (\<lambda>e. wal_line e @ [newline]) es)"

lemma log_text_simps [simp]:
  "log_text [] = []" "log_text (es @ es') = log_text es @ log_text es'"
  "log_text [e] = wal_line e @ [newline]"
  by (simp_all add: log_text_def)

lemma lines_of_log_text:
  assumes "\<forall>e \<in> set es. clean_entry e"
  shows "lines_of (log_text es) = map wal_line es"
  using lines_of_concat [of "map wal_line es"] assms
  by (simp add: log_text_def wal_line_no_newline comp_def)

definition handler_total :: "wal \<Rightarrow> bool" where
  "handler_total w \<longleftrightarrow> (\<forall>h e. w_handler w = Some h \<longrightarrow> h e = Ret ())"

definition handled :: "wal \<Rightarrow> entry list \<Rightarrow> wal" where
  "handled w es = (if w_handler w = None then w else w\<lparr>w_calls := w_calls w @ es\<rparr>)"

lemma handled_simps [simp]:
  "w_handler (handled w es) = w_handler w" "w_path (handled w es) = w_path w"
  "w_seq (handled w es) = w_seq w" "w_max (handled w es) = w_max w" "w_file (handled w es) = w_file w"
  "handler_total (handled w es) = handler_total w" "handled w [] = w"
  "handled (handled w es) es' = handled w (es @ es')"
  by (auto simp: handled_def handler_total_def)

lemma notify_total: "handler_total w \<Longrightarrow> wal_notify_handler e (w, f) = (Ret (), handled w [e], f)"
  by (auto simp: wal_notify_handler_def handler_total_def handled_def split: option.splits)

text \<open>Replaying lines that read back as \<open>es\<close> calls the handler with \<open>es\<close>, in order.\<close>

lemma replay_lines:
  assumes "handler_total w" and "\<forall>l \<in> set ls. \<exists>eo. wal_parse l = Ret eo"
  shows "seqP wal_replay_line ls (w, f) =
    (Ret (), handled w (List.map_filter (\<lambda>l. case wal_parse l of Ret eo \<Rightarrow> eo | _ \<Rightarrow> None) ls), f)"
  using assms
proof (induction ls arbitrary: w)
  case (Cons l ls)
  then obtain eo where eo: "wal_parse l = Ret eo" by auto
  show ?case
  proof (cases eo)
    case None
    with eo Cons show ?thesis by (simp add: wal_replay_line_def map_filter_simps)
  next
    case (Some e)
    with eo Cons show ?thesis
      by (simp add: wal_replay_line_def notify_total map_filter_simps)
  qed
qed (simp add: map_filter_simps)

theorem wal_replay_log:
  assumes "handler_total w" and "fs_content (w_path w) f = Some (log_text es)"
    and "\<forall>e \<in> set es. clean_entry e"
  shows "wal_replay (w, f) = (Ret (), handled w (List.map_filter read_back es), f)"
proof -
  have "List.map_filter (\<lambda>l. case wal_parse l of Ret eo \<Rightarrow> eo | _ \<Rightarrow> None) (map wal_line es) =
      List.map_filter read_back es"
    using assms(3) by (induction es) (auto simp: map_filter_simps parse_line split: option.splits)
  with assms show ?thesis
    using replay_lines [of w "map wal_line es" f]
    by (simp add: wal_replay_def lines_of_log_text parse_line)
qed

section \<open>Appending: refinement of a segmented log\<close>

text \<open>
  The abstract log: the entries of the active file and, after a rotation, those of the one
  rotated file that is kept. An append that makes the active file reach the size limit moves
  it, with the new entry, over the previous rotated file.
\<close>

type_synonym seglog = "entry list \<times> entry list option"

fun seg_append :: "nat \<Rightarrow> entry \<Rightarrow> seglog \<Rightarrow> seglog" where
  "seg_append mx e (act, rot) =
     (let act' = act @ [e]
      in if mx \<le> length (log_text act') then ([], Some act') else (act', rot))"

text \<open>The log object and the file system agree: the stream is good and open on the active file.\<close>

definition wal_ok :: "wal \<Rightarrow> fs \<Rightarrow> nat \<Rightarrow> bool" where
  "wal_ok w f i \<longleftrightarrow>
     w_file w = \<lparr>of_open = Some i, of_fail = False\<rparr> \<and> fs_names f (w_path w) = Some i \<and>
     fs_can_open f (w_path w) \<and> (\<forall>p j. fs_names f p = Some j \<longrightarrow> j < fs_next f) \<and>
     fs_names f (w_path w @ ''.1'') \<noteq> Some i"

definition wal_rel :: "wal \<Rightarrow> fs \<Rightarrow> seglog \<Rightarrow> bool" where
  "wal_rel w f sl \<longleftrightarrow>
     (\<exists>i. wal_ok w f i) \<and> fs_content (w_path w) f = Some (log_text (fst sl)) \<and>
     (\<forall>es. snd sl = Some es \<longrightarrow> fs_content (w_path w @ ''.1'') f = Some (log_text es))"

lemma path_neq_rotated [simp]: "p \<noteq> p @ ''.1''" "p @ ''.1'' \<noteq> p"
  by (simp_all add: append_self_conv)

definition next_entry :: "wal \<Rightarrow> actor_id \<Rightarrow> key \<Rightarrow> val \<Rightarrow> u64 \<Rightarrow> entry" where
  "next_entry w a k v now = \<lparr>e_seq = w_seq w + 1, e_actor = a, e_key = k, e_value = v, e_ts = now\<rparr>"

lemma wal_rotate_ok:
  assumes "wal_ok w f i"
  shows "\<exists>f' j. wal_rotate (w, f) = (Ret (), w\<lparr>w_file := \<lparr>of_open = Some j, of_fail = False\<rparr>\<rparr>, f') \<and>
    wal_ok (w\<lparr>w_file := \<lparr>of_open = Some j, of_fail = False\<rparr>\<rparr>) f' j \<and>
    fs_content (w_path w) f' = Some [] \<and> fs_content (w_path w @ ''.1'') f' = fs_content (w_path w) f"
proof -
  have ne: "w_path w \<noteq> w_path w @ ''.1''" by simp
  from assms have i: "fs_names f (w_path w) = Some i" "i < fs_next f" and o1: "fs_can_open f (w_path w)"
    and lt: "\<And>p j. fs_names f p = Some j \<Longrightarrow> j < fs_next f"
    and fl: "w_file w = \<lparr>of_open = Some i, of_fail = False\<rparr>"
    by (auto simp: wal_ok_def)
  show ?thesis
    using ne i o1 fl
    by (auto simp: wal_rotate_def open_log_def stream_open_app_def stream_close_def fs_rename_def
        fs_create_def wal_ok_def fs_content_def Let_def dest: lt intro: less_SucI)
qed

lemma wal_write_ok:
  assumes "wal_ok w f i" and "fs_content (w_path w) f = Some s"
  shows "\<exists>f'. wal_write e (w, f) = (w, f') \<and> wal_ok w f' i \<and>
    fs_content (w_path w) f' = Some (s @ wal_line e @ [newline]) \<and>
    fs_content (w_path w @ ''.1'') f' = fs_content (w_path w @ ''.1'') f"
proof -
  have "fs_content (w_path w @ ''.1'') (fs_write i t f) = fs_content (w_path w @ ''.1'') f" for t
    using assms by (cases "fs_names f (w_path w @ ''.1'')")
      (auto simp: wal_ok_def fs_content_def fs_write_def)
  with assms show ?thesis
    by (auto simp: wal_write_def wal_ok_def fs_content_def fs_write_def)
qed

lemma wal_ok_seq [simp]: "wal_ok (w\<lparr>w_seq := n\<rparr>) f i = wal_ok w f i"
  by (simp add: wal_ok_def)

lemma wal_rel_handled [simp]: "wal_rel (handled w es) f sl = wal_rel w f sl"
  by (simp add: wal_rel_def wal_ok_def)

lemma append_step:
  assumes "wal_rel w f sl" and "handler_total w"
  shows "\<exists>w' f'. wal_append a k v now (w, f) = (Ret (), w', f') \<and>
    wal_rel w' f' (seg_append (w_max w) (next_entry w a k v now) sl) \<and>
    w_seq w' = w_seq w + 1 \<and> w_max w' = w_max w \<and> w_path w' = w_path w \<and>
    w_handler w' = w_handler w \<and> w_calls w' = w_calls (handled w [next_entry w a k v now])"
proof -
  obtain act rot where sl: "sl = (act, rot)" by (cases sl)
  let ?e = "next_entry w a k v now"
  let ?w1 = "w\<lparr>w_seq := w_seq w + 1\<rparr>"
  from assms sl obtain i where ok: "wal_ok w f i" and act: "fs_content (w_path w) f = Some (log_text act)"
    and rot: "\<And>es. rot = Some es \<Longrightarrow> fs_content (w_path w @ ''.1'') f = Some (log_text es)"
    by (auto simp: wal_rel_def)
  from wal_write_ok [of ?w1 f i "log_text act" ?e] ok act obtain f1 where
    wr: "wal_write ?e (?w1, f) = (?w1, f1)" and ok1: "wal_ok ?w1 f1 i"
    and act1: "fs_content (w_path w) f1 = Some (log_text (act @ [?e]))"
    and rot1: "fs_content (w_path w @ ''.1'') f1 = fs_content (w_path w @ ''.1'') f"
    by auto
  have size: "fs_size (w_path w) f1 = (Ret (length (log_text (act @ [?e]))), f1)"
    using act1 by (simp add: fs_size_def del: log_text_simps)
  have app: "wal_append a k v now (w, f) =
      bindP (if w_max w \<le> length (log_text (act @ [?e])) then wal_rotate else ret ())
        (\<lambda>_. wal_notify_handler ?e) (?w1, f1)"
    using wr size
    by (simp add: wal_append_def Let_def next_entry_def zoom_def bindP_def del: log_text_simps)
  have calls: "w_calls (handled ?w1 [?e]) = w_calls (handled w [?e])"
    by (simp add: handled_def)
  have ht: "handler_total ?w1" using assms(2) by (simp add: handler_total_def)
  show ?thesis
  proof (cases "w_max w \<le> length (log_text (act @ [?e]))")
    case True
    let ?w2 = "\<lambda>j. ?w1\<lparr>w_file := \<lparr>of_open = Some j, of_fail = False\<rparr>\<rparr>"
    from wal_rotate_ok [OF ok1] obtain f2 j where
      rt: "wal_rotate (?w1, f1) = (Ret (), ?w2 j, f2)"
      and ok2: "wal_ok (?w2 j) f2 j" "fs_content (w_path w) f2 = Some []"
        "fs_content (w_path w @ ''.1'') f2 = fs_content (w_path w) f1"
      by auto
    have ht2: "handler_total (?w2 j)" using assms(2) by (simp add: handler_total_def)
    have "wal_append a k v now (w, f) = (Ret (), handled (?w2 j) [?e], f2)"
      using True rt notify_total [OF ht2] by (simp add: app bindP_def)
    moreover have "wal_rel (?w2 j) f2 ([], Some (act @ [?e]))"
      using ok2 act1 by (auto simp: wal_rel_def simp del: log_text_simps(2,3))
    moreover have "seg_append (w_max w) ?e sl = ([], Some (act @ [?e]))"
      using True by (simp add: sl Let_def del: log_text_simps)
    moreover have "w_calls (handled (?w2 j) [?e]) = w_calls (handled w [?e])"
      by (simp add: handled_def)
    ultimately show ?thesis by (intro exI [of _ "handled (?w2 j) [?e]"] exI [of _ f2]) simp
  next
    case False
    have "wal_append a k v now (w, f) = (Ret (), handled ?w1 [?e], f1)"
      using False notify_total [OF ht] by (simp add: app bindP_def ret_def)
    moreover have "wal_rel ?w1 f1 (act @ [?e], rot)"
      using ok1 act1 rot rot1 by (auto simp: wal_rel_def simp del: log_text_simps(2,3))
    moreover have "seg_append (w_max w) ?e sl = (act @ [?e], rot)"
      using False by (simp add: sl Let_def del: log_text_simps)
    ultimately show ?thesis using calls by (intro exI [of _ "handled ?w1 [?e]"] exI [of _ f1]) simp
  qed
qed

lemma append_returns:
  assumes "wal_rel w f sl" and "handler_total w"
  shows "fst (wal_append a k v now (w, f)) = Ret ()"
  using append_step [OF assms, of a k v now] by auto

text \<open>C6: \<open>append\<close> refines the segmented log: on a log whose stream is good and whose handler
  returns, \<open>append\<close> succeeds, gives the entry the next sequence number, calls the handler
  with it once, and changes the files exactly as \<open>seg_append\<close> changes the segments.\<close>

theorem wal_append_refines:
  assumes "wal_rel w f sl" and "handler_total w"
  shows "\<exists>w' f'. wal_append a k v now (w, f) = (Ret (), w', f') \<and>
    wal_rel w' f' (seg_append (w_max w) (next_entry w a k v now) sl) \<and>
    w_seq w' = w_seq w + 1 \<and> w_max w' = w_max w \<and> w_path w' = w_path w \<and>
    w_handler w' = w_handler w \<and> w_calls w' = w_calls (handled w [next_entry w a k v now])"
  using assms by (rule append_step)

theorem wal_append_refines_witness:
  "\<exists>w f w' f'. wal_rel w f ([], None) \<and> handler_total w \<and>
     wal_append ''a'' ''k'' ''v'' 3 (w, f) = (Ret (), w', f') \<and> w_seq w' = 1 \<and>
     wal_rel w' f' ([\<lparr>e_seq = 1, e_actor = ''a'', e_key = ''k'', e_value = ''v'', e_ts = 3\<rparr>], None)"
proof -
  define f :: fs where "f = \<lparr>fs_names = [''l'' \<mapsto> 0], fs_data = (\<lambda>_. []), fs_next = 1, fs_can_open = (\<lambda>_. True)\<rparr>"
  define w :: wal where "w = \<lparr>w_path = ''l'', w_file = \<lparr>of_open = Some 0, of_fail = False\<rparr>,
    w_max = 1000, w_seq = 0, w_handler = None, w_calls = []\<rparr>"
  have rel: "wal_rel w f ([], None)" by (simp add: wal_rel_def wal_ok_def fs_content_def w_def f_def)
  have ht: "handler_total w" by (simp add: handler_total_def w_def)
  have len: "length (show_u64 1) = 1" "length (show_u64 3) = 1"
    by (simp_all add: show_u64_def show_nat_small)
  have seg: "seg_append (w_max w) (next_entry w ''a'' ''k'' ''v'' 3) ([], None) =
      ([\<lparr>e_seq = 1, e_actor = ''a'', e_key = ''k'', e_value = ''v'', e_ts = 3\<rparr>], None)"
    by (simp add: w_def next_entry_def wal_line_def len)
  obtain w' f' where "wal_append ''a'' ''k'' ''v'' 3 (w, f) = (Ret (), w', f')"
    "wal_rel w' f' (seg_append (w_max w) (next_entry w ''a'' ''k'' ''v'' 3) ([], None))"
    "w_seq w' = w_seq w + 1"
    using wal_append_refines [OF rel ht, of "''a''" "''k''" "''v''" 3] by blast
  moreover have "w_seq w = 0" by (simp add: w_def)
  ultimately show ?thesis using rel ht unfolding seg
    by (intro exI [of _ w] exI [of _ f] exI [of _ w'] exI [of _ f']) simp
qed

section \<open>Histories of appends, restart and replay\<close>

type_synonym append_call = "actor_id \<times> key \<times> val \<times> u64"

definition append_all :: "append_call list \<Rightarrow> unit wal_prog" where
  "append_all = seqP (\<lambda>(a, k, v, now). wal_append a k v now)"

fun entries_from :: "u64 \<Rightarrow> append_call list \<Rightarrow> entry list" where
  "entries_from n [] = []"
| "entries_from n ((a, k, v, now) # cs) =
     \<lparr>e_seq = n + 1, e_actor = a, e_key = k, e_value = v, e_ts = now\<rparr> # entries_from (n + 1) cs"

lemma append_all_refines:
  assumes "wal_rel w f sl" and "handler_total w"
  shows "\<exists>w' f'. append_all cs (w, f) = (Ret (), w', f') \<and>
    wal_rel w' f' (fold (seg_append (w_max w)) (entries_from (w_seq w) cs) sl) \<and>
    w_seq w' = w_seq w + of_nat (length cs) \<and> w_path w' = w_path w \<and>
    w_calls w' = w_calls (handled w (entries_from (w_seq w) cs))"
  using assms
proof (induction cs arbitrary: w f sl)
  case Nil
  then show ?case by (simp add: append_all_def)
next
  case (Cons c cs)
  obtain a k v now where c: "c = (a, k, v, now)" by (cases c)
  from append_step [OF Cons.prems, of a k v now] obtain w1 f1 where
    s1: "wal_append a k v now (w, f) = (Ret (), w1, f1)"
    "wal_rel w1 f1 (seg_append (w_max w) (next_entry w a k v now) sl)"
    "w_seq w1 = w_seq w + 1" "w_max w1 = w_max w" "w_path w1 = w_path w"
    "w_handler w1 = w_handler w" "w_calls w1 = w_calls (handled w [next_entry w a k v now])"
    by blast
  from Cons.prems s1 have "handler_total w1" by (simp add: handler_total_def)
  from Cons.IH [OF s1(2) this] obtain w2 f2 where "append_all cs (w1, f1) = (Ret (), w2, f2)"
    "wal_rel w2 f2 (fold (seg_append (w_max w)) (entries_from (w_seq w1) cs)
       (seg_append (w_max w) (next_entry w a k v now) sl))"
    "w_seq w2 = w_seq w1 + of_nat (length cs)" "w_path w2 = w_path w1"
    "w_calls w2 = w_calls (handled w1 (entries_from (w_seq w1) cs))"
    using s1 by auto
  with s1 c show ?case
    by (auto simp: append_all_def next_entry_def handled_def algebra_simps)
qed

lemma fold_seg_append_small:
  "length (log_text (act @ es)) < mx \<Longrightarrow> fold (seg_append mx) es (act, rot) = (act @ es, rot)"
proof (induction es arbitrary: act)
  case (Cons e es)
  have "length (log_text (act @ [e])) \<le> length (log_text (act @ e # es))"
    by (simp add: log_text_def)
  with Cons.prems have "seg_append mx e (act, rot) = (act @ [e], rot)"
    by (simp add: Let_def del: log_text_simps)
  moreover have "fold (seg_append mx) es (act @ [e], rot) = ((act @ [e]) @ es, rot)"
    by (rule Cons.IH) (use Cons.prems in simp)
  ultimately show ?case by (simp del: seg_append.simps)
qed simp

text \<open>Opening a log on a path whose file does not exist yet, or holds a log already.\<close>

definition fs_wf :: "fs \<Rightarrow> bool" where
  "fs_wf f \<longleftrightarrow> (\<forall>p j. fs_names f p = Some j \<longrightarrow> j < fs_next f)"

lemma wal_ctor_new:
  assumes "fs_wf f" and "fs_names f p = None" and "fs_can_open f p"
  obtains w f' where "wal_ctor p mx f = (Ret (), w, f')" and "wal_rel w f' ([], None)"
    and "w_seq w = 0" and "w_max w = mx" and "w_path w = p" and "w_handler w = None" and "w_calls w = []"
proof -
  let ?w = "\<lparr>w_path = p, w_file = \<lparr>of_open = Some (fs_next f), of_fail = False\<rparr>, w_max = mx, w_seq = 0,
    w_handler = None, w_calls = []\<rparr>"
  have "wal_ctor p mx f = (Ret (), ?w, fs_create p f)"
    using assms(2,3) by (simp add: wal_ctor_def open_log_def stream_open_app_def)
  moreover have "fs_names f (p @ ''.1'') \<noteq> Some (fs_next f)"
    using assms(1) by (auto simp: fs_wf_def)
  then have "wal_rel ?w (fs_create p f) ([], None)"
    using assms by (auto simp: wal_rel_def wal_ok_def fs_create_def fs_content_def fs_wf_def
        intro: less_SucI)
  ultimately show thesis by (rule that) simp_all
qed

lemma wal_ctor_existing:
  assumes "wal_rel w f sl" and "fs_can_open f (w_path w)"
  obtains w' where "wal_ctor (w_path w) mx f = (Ret (), w', f)"
    and "w_path w' = w_path w" and "w_seq w' = 0" and "w_calls w' = []" and "w_handler w' = None"
  using assms
  by (auto simp: wal_ctor_def open_log_def stream_open_app_def wal_rel_def wal_ok_def)

text \<open>Durability without rotation: entries appended to a new log whose file stays below the
  size limit are all there after a restart (a crash included, since every append flushes): a
  new log object opened on the same path replays exactly these entries, in order, numbered
  from 1, to its handler, except those whose value is empty.\<close>

theorem wal_restart_replays:
  assumes "fs_wf f" and "fs_names f p = None" and "fs_can_open f p"
    and "wal_ctor p mx f = (r0, w, f0)" and "append_all cs (w, f0) = (r1, w1, f1)"
    and "wal_ctor p mx2 f1 = (r2, w2, f2)"
    and "length (log_text (entries_from 0 cs)) < mx"
    and "\<forall>e \<in> set (entries_from 0 cs). clean_entry e"
    and "\<forall>e. h e = Ret ()"
  shows "r0 = Ret () \<and> r1 = Ret () \<and> r2 = Ret () \<and>
    fst (wal_replay (wal_register_handler h w2, f2)) = Ret () \<and>
    w_calls (fst (snd (wal_replay (wal_register_handler h w2, f2)))) =
      List.map_filter read_back (entries_from 0 cs)"
proof -
  obtain w' f' where c1: "wal_ctor p mx f = (Ret (), w', f')" "wal_rel w' f' ([], None)"
    "w_seq w' = 0" "w_max w' = mx" "w_path w' = p" "w_handler w' = None"
    by (rule wal_ctor_new [OF assms(1-3), of mx])
  with assms(4) have w: "w' = w" "f' = f0" "r0 = Ret ()" by auto
  have "handler_total w" using c1 w by (simp add: handler_total_def)
  from append_all_refines [OF c1(2) [unfolded w] this, of cs] c1 w assms(5)
  have a: "r1 = Ret ()" "wal_rel w1 f1 (entries_from 0 cs, None)" "w_path w1 = p"
    using fold_seg_append_small [of "[]" "entries_from 0 cs" mx None] assms(7) by auto
  then have "fs_can_open f1 (w_path w1)" by (auto simp: wal_rel_def wal_ok_def)
  from wal_ctor_existing [OF a(2) this, of mx2] a(3) assms(6)
  have c2: "r2 = Ret ()" "f2 = f1" "w_path w2 = p" "w_calls w2 = []" by auto
  let ?w = "wal_register_handler h w2"
  have "wal_replay (?w, f1) = (Ret (), handled ?w (List.map_filter read_back (entries_from 0 cs)), f1)"
    by (rule wal_replay_log)
      (use a c2 assms(8,9) in \<open>auto simp: wal_rel_def wal_register_handler_def handler_total_def\<close>)
  with w a c2 show ?thesis by (simp add: handled_def wal_register_handler_def)
qed

theorem wal_restart_replays_witness:
  "\<exists>f r0 w f0 r1 w1 f1 r2 w2 f2. fs_names f ''l'' = None \<and>
     wal_ctor ''l'' 1000 f = (r0, w, f0) \<and>
     append_all [(''a'', ''k'', ''1'', 5), (''a'', ''k'', [], 6)] (w, f0) = (r1, w1, f1) \<and>
     wal_ctor ''l'' 1000 f1 = (r2, w2, f2) \<and>
     w_calls (fst (snd (wal_replay (wal_register_handler (\<lambda>_. Ret ()) w2, f2)))) =
       [\<lparr>e_seq = 1, e_actor = ''a'', e_key = ''k'', e_value = ''1'', e_ts = 5\<rparr>]"
proof -
  define f :: fs where "f = \<lparr>fs_names = Map.empty, fs_data = (\<lambda>_. []), fs_next = 0, fs_can_open = (\<lambda>_. True)\<rparr>"
  let ?cs = "[(''a'', ''k'', ''1'', 5), (''a'', ''k'', [], 6)] :: append_call list"
  obtain r0 w f0 where c: "wal_ctor ''l'' 1000 f = (r0, w, f0)" by (cases "wal_ctor ''l'' 1000 f") auto
  obtain r1 w1 f1 where a: "append_all ?cs (w, f0) = (r1, w1, f1)" by (cases "append_all ?cs (w, f0)") auto
  obtain r2 w2 f2 where d: "wal_ctor ''l'' 1000 f1 = (r2, w2, f2)" by (cases "wal_ctor ''l'' 1000 f1") auto
  have f: "fs_wf f" "fs_names f ''l'' = None" "fs_can_open f ''l''" by (simp_all add: fs_wf_def f_def)
  have len: "length (log_text (entries_from 0 ?cs)) < 1000"
    by (simp add: log_text_def wal_line_def show_u64_def show_nat_small)
  have clean: "\<forall>e \<in> set (entries_from 0 ?cs). clean_entry e"
    by (simp add: clean_entry_def clean_field_def bar_def newline_def)
  have "w_calls (fst (snd (wal_replay (wal_register_handler (\<lambda>_. Ret ()) w2, f2)))) =
      List.map_filter read_back (entries_from 0 ?cs)"
    using wal_restart_replays [OF f c a d len clean, of "\<lambda>_. Ret ()"] by simp
  then have "w_calls (fst (snd (wal_replay (wal_register_handler (\<lambda>_. Ret ()) w2, f2)))) =
      [\<lparr>e_seq = 1, e_actor = ''a'', e_key = ''k'', e_value = ''1'', e_ts = 5\<rparr>]"
    by (simp add: map_filter_simps read_back_def)
  with f(2) c a d show ?thesis by blast
qed

text \<open>An append that reaches the size limit leaves an empty active file: what it has just
  acknowledged, and everything before it, is not seen by \<open>replay\<close>, which reads the active
  file only.\<close>

theorem wal_rotation_hides_entries:
  assumes "wal_rel w f (act, rot)" and "handler_total w"
    and "w_max w \<le> length (log_text (act @ [next_entry w a k v now]))"
    and "wal_append a k v now (w, f) = (r, w1, f1)"
  shows "r = Ret () \<and> wal_replay (w1, f1) = (Ret (), w1, f1) \<and>
    fs_content (w_path w @ ''.1'') f1 = Some (log_text (act @ [next_entry w a k v now]))"
proof -
  from assms(3) have seg: "seg_append (w_max w) (next_entry w a k v now) (act, rot) =
      ([], Some (act @ [next_entry w a k v now]))"
    by (simp add: Let_def del: log_text_simps)
  from append_step [OF assms(1,2), of a k v now] assms(4)
  have r: "r = Ret ()" and rel: "wal_rel w1 f1 ([], Some (act @ [next_entry w a k v now]))"
    and p: "w_path w1 = w_path w" unfolding seg by auto
  then have c: "fs_content (w_path w1) f1 = Some []" by (simp add: wal_rel_def)
  from rel p have "fs_content (w_path w @ ''.1'') f1 = Some (log_text (act @ [next_entry w a k v now]))"
    by (simp add: wal_rel_def del: log_text_simps)
  with r c show ?thesis by (simp add: wal_replay_def del: log_text_simps)
qed

theorem wal_rotation_hides_entries_witness:
  "\<exists>w f w1 f1. wal_append ''a'' ''k'' ''v'' 3 (w, f) = (Ret (), w1, f1) \<and> w_seq w = 0 \<and>
     wal_replay (w1, f1) = (Ret (), w1, f1)"
proof -
  define f :: fs where "f = \<lparr>fs_names = [''l'' \<mapsto> 0], fs_data = (\<lambda>_. []), fs_next = 1, fs_can_open = (\<lambda>_. True)\<rparr>"
  define w :: wal where "w = \<lparr>w_path = ''l'', w_file = \<lparr>of_open = Some 0, of_fail = False\<rparr>,
    w_max = 8, w_seq = 0, w_handler = None, w_calls = []\<rparr>"
  have rel: "wal_rel w f ([], None)" by (simp add: wal_rel_def wal_ok_def fs_content_def w_def f_def)
  have ht: "handler_total w" by (simp add: handler_total_def w_def)
  have mx: "w_max w \<le> length (log_text ([] @ [next_entry w ''a'' ''k'' ''v'' 3]))"
    by (simp add: w_def next_entry_def wal_line_def)
  obtain r w1 f1 where a: "wal_append ''a'' ''k'' ''v'' 3 (w, f) = (r, w1, f1)"
    by (cases "wal_append ''a'' ''k'' ''v'' 3 (w, f)") auto
  from wal_rotation_hides_entries [OF rel ht mx a] a show ?thesis
    by (intro exI [of _ w] exI [of _ f] exI [of _ w1] exI [of _ f1]) (simp add: w_def)
qed

text \<open>Log injection: a value that contains a newline followed by the text of a log line is
  one append, but replays as two entries, the second one forged by whoever chose the value.\<close>

theorem wal_value_injects_entry:
  assumes "wal_rel w f ([], rot)" and "handler_total w" and "w_handler w \<noteq> None" and "w_calls w = []"
    and "clean_field a" and "clean_field k" and "newline \<notin> set v" and "v \<noteq> []"
    and "clean_entry e" and "e_value e \<noteq> []"
    and "length (log_text [next_entry w a k (v @ newline # wal_line e) now]) < w_max w"
    and "wal_append a k (v @ newline # wal_line e) now (w, f) = (r, w1, f1)"
  shows "w_calls w1 = [next_entry w a k (v @ newline # wal_line e) now] \<and>
    w_calls (fst (snd (wal_replay (w1, f1)))) = w_calls w1 @ [next_entry w a k v now, e]"
proof -
  let ?e1 = "next_entry w a k (v @ newline # wal_line e) now"
  have seg: "seg_append (w_max w) ?e1 ([], rot) = ([?e1], rot)"
    using assms(11) by (simp add: Let_def not_le del: log_text_simps)
  from append_step [OF assms(1,2), of a k "v @ newline # wal_line e" now] assms(12)
  have rel: "wal_rel w1 f1 ([?e1], rot)" and calls: "w_calls w1 = w_calls (handled w [?e1])"
    and h: "w_handler w1 = w_handler w" unfolding seg by auto
  have "log_text [?e1] = log_text [next_entry w a k v now, e]"
    by (simp add: log_text_def wal_line_def next_entry_def)
  with rel have c: "fs_content (w_path w1) f1 = Some (log_text [next_entry w a k v now, e])"
    by (simp add: wal_rel_def del: log_text_simps)
  have "clean_entry (next_entry w a k v now)"
    using assms(5-7) by (simp add: clean_entry_def next_entry_def)
  moreover have "handler_total w1" using assms(2) h by (simp add: handler_total_def)
  ultimately have "wal_replay (w1, f1) =
      (Ret (), handled w1 (List.map_filter read_back [next_entry w a k v now, e]), f1)"
    using c assms(9) by (intro wal_replay_log) auto
  with calls h assms(3,4,8,10) show ?thesis
    by (simp add: handled_def map_filter_simps read_back_def next_entry_def)
qed

text \<open>\<open>set_path\<close> on an open log always throws, because a stream that is open cannot be
  opened again, and it leaves the stream failed and the path changed: from then on \<open>append\<close>
  either throws (no file under the new path) or returns normally without writing anything.\<close>

theorem wal_set_path_breaks_log:
  assumes "wal_ok w f i" and "handler_total w"
    and "\<forall>s. fs_content p f = Some s \<longrightarrow> length s < w_max w"
    and "wal_set_path p (w, f) = (r, w1, f1)"
    and "wal_append a k v now (w1, f1) = (x, w2, f2)"
  shows "r = Throw (Runtime_error (''Failed to open WAL file: '' @ p)) \<and>
    x = (if fs_content p f = None then Throw (Filesystem_error p) else Ret ()) \<and>
    f1 = f \<and> f2 = f"
proof -
  let ?w1 = "w\<lparr>w_path := p, w_file := \<lparr>of_open = Some i, of_fail = True\<rparr>\<rparr>"
  have sp: "wal_set_path p (w, f) =
      (Throw (Runtime_error (''Failed to open WAL file: '' @ p)), ?w1, f)"
    using assms(1) by (simp add: wal_set_path_def open_log_def stream_open_app_def wal_ok_def)
  have ht: "handler_total (?w1\<lparr>w_seq := n\<rparr>)" for n using assms(2) by (simp add: handler_total_def)
  show ?thesis
    using sp assms(3,4,5) notify_total [OF ht]
    by (auto simp: wal_append_def wal_write_def Let_def bindP_def zoom_def fs_size_def ret_def
        split: option.splits)
qed

text \<open>A concrete open log, for the witnesses of this and of later theories.\<close>

definition ex_fs :: fs where
  "ex_fs = \<lparr>fs_names = [''l'' \<mapsto> 0], fs_data = (\<lambda>_. []), fs_next = 1, fs_can_open = (\<lambda>_. True)\<rparr>"

definition ex_wal :: wal where
  "ex_wal = \<lparr>w_path = ''l'', w_file = \<lparr>of_open = Some 0, of_fail = False\<rparr>, w_max = 1000, w_seq = 0,
    w_handler = Some (\<lambda>_. Ret ()), w_calls = []\<rparr>"

lemma ex_wal_props:
  "wal_ok ex_wal ex_fs 0" "wal_rel ex_wal ex_fs ([], None)" "handler_total ex_wal"
  "w_handler ex_wal \<noteq> None" "w_calls ex_wal = []" "w_max ex_wal = 1000" "w_path ex_wal = ''l''"
  "w_seq ex_wal = 0"
  by (auto simp: ex_wal_def ex_fs_def wal_ok_def wal_rel_def fs_content_def handler_total_def)

theorem wal_set_path_breaks_log_witness:
  "\<exists>w1 w2. wal_set_path ''m'' (ex_wal, ex_fs) =
       (Throw (Runtime_error (''Failed to open WAL file: '' @ ''m'')), w1, ex_fs) \<and>
     wal_append ''a'' ''k'' ''v'' 3 (w1, ex_fs) = (Throw (Filesystem_error ''m''), w2, ex_fs)"
proof -
  obtain r w1 f1 where s: "wal_set_path ''m'' (ex_wal, ex_fs) = (r, w1, f1)"
    by (cases "wal_set_path ''m'' (ex_wal, ex_fs)") auto
  obtain x w2 f2 where a: "wal_append ''a'' ''k'' ''v'' 3 (w1, f1) = (x, w2, f2)"
    by (cases "wal_append ''a'' ''k'' ''v'' 3 (w1, f1)") auto
  have none: "fs_content ''m'' ex_fs = None" by (simp add: fs_content_def ex_fs_def)
  from wal_set_path_breaks_log [OF ex_wal_props(1,3) _ s a] none s a show ?thesis by auto
qed

theorem wal_value_injects_entry_witness:
  "\<exists>e w1 f1. e_actor e = ''root'' \<and>
     wal_append ''a'' ''k'' (''v'' @ newline # wal_line e) 3 (ex_wal, ex_fs) = (Ret (), w1, f1) \<and>
     w_calls (fst (snd (wal_replay (w1, f1)))) = w_calls w1 @ [next_entry ex_wal ''a'' ''k'' ''v'' 3, e]"
proof -
  define e where "e = \<lparr>e_seq = 9, e_actor = ''root'', e_key = ''k'', e_value = ''x'', e_ts = 9\<rparr>"
  have clean: "clean_field ''a''" "clean_field ''k''" "newline \<notin> set ''v''" "''v'' \<noteq> []"
    "clean_entry e" "e_value e \<noteq> []"
    by (simp_all add: clean_field_def clean_entry_def bar_def newline_def e_def)
  have len: "length (log_text [next_entry ex_wal ''a'' ''k'' (''v'' @ newline # wal_line e) 3]) < w_max ex_wal"
    by (simp add: ex_wal_props(6,8) next_entry_def wal_line_def e_def show_u64_def show_nat_small)
  obtain r w1 f1 where a: "wal_append ''a'' ''k'' (''v'' @ newline # wal_line e) 3 (ex_wal, ex_fs) = (r, w1, f1)"
    by (cases "wal_append ''a'' ''k'' (''v'' @ newline # wal_line e) 3 (ex_wal, ex_fs)") auto
  have "r = Ret ()"
    using append_returns [OF ex_wal_props(2,3), of "''a''"] a by (metis fst_conv)
  with wal_value_injects_entry [OF ex_wal_props(2-5) clean len a] a show ?thesis
    by (intro exI [of _ e] exI [of _ w1] exI [of _ f1]) (simp add: e_def)
qed

end
