(* ===== verification/Write_Behind.thy ===== *)
theory Write_Behind
  imports Threadsafe_Queue Wal
begin

text \<open>
  \<^verbatim>\<open>src/write_behind_worker.h\<close> and \<^verbatim>\<open>src/write_behind_worker.cpp\<close>: the thread that collects
  dirty records from a bounded queue and appends them to the log in batches. One iteration of
  \<open>run\<close> is one step of the model; \<open>wb_held\<close> says that the worker thread owns \<open>batch_mutex_\<close>,
  and locking it again on that thread is \<open>Relock\<close>. Clock readings are arguments: \<open>now i\<close>
  is the time stamp the log gives to the \<open>i\<close>th record of a batch, \<open>t1\<close> and \<open>t2\<close> are readings
  of the steady clock in milliseconds.
\<close>

section \<open>State and operations\<close>

record dirty =
  d_actor :: actor_id
  d_key :: key
  d_value :: val

text \<open>\<open>wb_last\<close> is the local \<open>last_flush\<close> of \<open>run\<close>; \<open>wb_joinable\<close> is \<open>worker_.joinable()\<close>.\<close>

record worker =
  wb_running :: bool
  wb_joinable :: bool
  wb_queue :: "dirty bqueue"
  wb_size :: u64
  wb_batch :: "dirty list"
  wb_held :: bool
  wb_last :: int

type_synonym 'a wb_prog = "('a, worker \<times> wal \<times> fs) prog"

definition wb_default_size :: u64 where
  "wb_default_size = 100"

definition wb_new :: "u64 \<Rightarrow> worker" where
  "wb_new batch_size =
     \<lparr>wb_running = False, wb_joinable = False, wb_queue = bq_new 1000 Block, wb_size = batch_size,
      wb_batch = [], wb_held = False, wb_last = 0\<rparr>"

definition wb_start :: "int \<Rightarrow> worker \<Rightarrow> worker" where
  "wb_start t b = (if wb_running b then b else b\<lparr>wb_running := True, wb_joinable := True, wb_last := t\<rparr>)"

definition wb_enqueue :: "dirty \<Rightarrow> unit wb_prog" where
  "wb_enqueue d = zoom (wb_queue \<circ> fst) (\<lambda>q (b, ws). (b\<lparr>wb_queue := q\<rparr>, ws)) (bq_push d)"

definition wb_set_batch_size :: "u64 \<Rightarrow> unit wb_prog" where
  "wb_set_batch_size n = (\<lambda>(b, ws).
     if wb_held b then (Blocked, b, ws) else (Ret (), b\<lparr>wb_size := n\<rparr>, ws))"

definition stamped :: "(nat \<Rightarrow> u64) \<Rightarrow> dirty list \<Rightarrow> append_call list" where
  "stamped now ds = map (\<lambda>(i, d). (d_actor d, d_key d, d_value d, now i)) (List.enumerate 0 ds)"

text \<open>
  \<open>process_batch\<close>: an exception ends the loop over the batch, is reported and swallowed; the
  batch has already been taken out of \<open>current_batch_\<close>.
\<close>

definition wb_process_batch :: "(nat \<Rightarrow> u64) \<Rightarrow> unit wb_prog" where
  "wb_process_batch now = (\<lambda>(b, ws).
     (if wb_held b then (Undef Relock, b, ws)
      else (case catchP (append_all (stamped now (wb_batch b))) (\<lambda>_. ret ()) ws of
          (r, ws') \<Rightarrow> (r, b\<lparr>wb_batch := []\<rparr>, ws'))))"

definition wb_timed_flush :: "(nat \<Rightarrow> u64) \<Rightarrow> int \<Rightarrow> unit wb_prog" where
  "wb_timed_flush now t2 = (\<lambda>(b, ws).
     (if 500 \<le> t2 - wb_last b \<and> wb_batch b \<noteq> [] then
        bindP (wb_process_batch now) (\<lambda>_. modify (\<lambda>(b, ws). (b\<lparr>wb_last := t2\<rparr>, ws))) (b, ws)
      else (Ret (), b, ws)))"

text \<open>
  The body of the loop of \<open>run\<close>. \<open>WaitAndPop\<close> waits for data or for its timeout of 100 ms,
  so an iteration finds the queue either non-empty or expired.
\<close>

definition wb_full :: "(nat \<Rightarrow> u64) \<Rightarrow> int \<Rightarrow> unit wb_prog" where
  "wb_full now t1 = (\<lambda>(b, ws).
     (if unat (wb_size b) \<le> length (wb_batch b) then
        bindP (wb_process_batch now) (\<lambda>_. modify (\<lambda>(b, ws). (b\<lparr>wb_last := t1\<rparr>, ws))) (b, ws)
      else (Ret (), b, ws)))"

definition wb_iterate :: "(nat \<Rightarrow> u64) \<Rightarrow> int \<Rightarrow> int \<Rightarrow> unit wb_prog" where
  "wb_iterate now t1 t2 = (\<lambda>(b, ws).
     (case bq_wait_pop 100 True (wb_queue b) of
        (Ret (Some d), q) \<Rightarrow>
          bindP (wb_full now t1)
            (\<lambda>_. bindP (modify (\<lambda>(b, ws). (b\<lparr>wb_held := False\<rparr>, ws))) (\<lambda>_. wb_timed_flush now t2))
            (b\<lparr>wb_queue := q, wb_held := True, wb_batch := wb_batch b @ [d]\<rparr>, ws)
      | (Ret None, q) \<Rightarrow> wb_timed_flush now t2 (b\<lparr>wb_queue := q\<rparr>, ws)
      | (r, q) \<Rightarrow> (abort_of r, b\<lparr>wb_queue := q\<rparr>, ws)))"

text \<open>
  \<open>stop\<close> clears \<open>running_\<close>, joins the thread and flushes the batch. The thread is at its loop
  test (\<open>None\<close>) or inside an iteration that it still completes (\<open>Some\<close>); a thread stuck on
  its own lock is never joined. The destructor calls \<open>stop\<close>.
\<close>

definition wb_join :: "((nat \<Rightarrow> u64) \<times> int \<times> int) option \<Rightarrow> unit wb_prog" where
  "wb_join it = (\<lambda>(b, ws).
     (if \<not> wb_joinable b then (Ret (), b, ws)
      else if wb_held b then (Blocked, b, ws)
      else bindP (case it of None \<Rightarrow> ret () | Some (now, t1, t2) \<Rightarrow> wb_iterate now t1 t2)
             (\<lambda>_. modify (\<lambda>(b, ws). (b\<lparr>wb_joinable := False\<rparr>, ws))) (b, ws)))"

definition wb_stop :: "((nat \<Rightarrow> u64) \<times> int \<times> int) option \<Rightarrow> (nat \<Rightarrow> u64) \<Rightarrow> unit wb_prog" where
  "wb_stop it now = bindP (modify (\<lambda>(b, ws). (b\<lparr>wb_running := False\<rparr>, ws)))
     (\<lambda>_. bindP (wb_join it) (\<lambda>_. wb_process_batch now))"

definition wb_dtor :: "((nat \<Rightarrow> u64) \<times> int \<times> int) option \<Rightarrow> (nat \<Rightarrow> u64) \<Rightarrow> unit wb_prog" where
  "wb_dtor it now = wb_stop it now"

lemmas wb_defs = wb_enqueue_def wb_set_batch_size_def wb_process_batch_def wb_timed_flush_def
  wb_full_def wb_iterate_def wb_join_def wb_stop_def

section \<open>Conservation: what is enqueued is in the log or still in memory\<close>

definition unstamp :: "append_call \<Rightarrow> dirty" where
  "unstamp c = (case c of (a, k, v, _) \<Rightarrow> \<lparr>d_actor = a, d_key = k, d_value = v\<rparr>)"

lemma unstamp_stamped [simp]: "map unstamp (stamped now ds) = ds"
  by (rule nth_equalityI) (simp_all add: stamped_def unstamp_def nth_enumerate_eq)

lemma stamped_Nil [simp]: "stamped now [] = []"
  by (simp add: stamped_def)

lemma append_all_Nil [simp]: "append_all [] ws = (Ret (), ws)"
  by (simp add: append_all_def)

definition wb_inv :: "worker \<Rightarrow> bool" where
  "wb_inv b \<longleftrightarrow> bq_inv (wb_queue b) \<and> \<not> bq_stopped (wb_queue b) \<and> bq_policy (wb_queue b) = Block \<and>
     \<not> wb_held b"

definition pending :: "worker \<Rightarrow> dirty list" where
  "pending b = wb_batch b @ bq_items (wb_queue b)"

lemma wb_new_inv [simp, inv_intros]: "wb_inv (wb_new n)"
  by (simp add: wb_inv_def wb_new_def)

lemma wb_new_pending [simp]: "pending (wb_new n) = []"
  by (simp add: pending_def wb_new_def)

text \<open>Appending never goes wrong other than by an exception when the handler returns.\<close>

lemma process_batch_good:
  assumes "\<not> wb_held b" and "wal_rel w f sl" and "handler_total w"
  obtains w' f' where "append_all (stamped now (wb_batch b)) (w, f) = (Ret (), w', f')"
    and "wb_process_batch now (b, w, f) = (Ret (), b\<lparr>wb_batch := []\<rparr>, w', f')"
proof -
  from append_all_refines [OF assms(2,3)] obtain w' f' where
    "append_all (stamped now (wb_batch b)) (w, f) = (Ret (), w', f')" by blast
  with assms(1) show thesis by (intro that) (auto simp: wb_process_batch_def catchP_def)
qed

text \<open>A loop iteration that returns writes a prefix of what is pending and keeps the rest.\<close>

lemma timed_flush_step:
  assumes "wb_inv b" and "wal_rel w f sl" and "handler_total w"
    and "wb_timed_flush now t2 (b, w, f) = (r, b', w', f')"
  shows "r = Ret () \<and> wb_inv b' \<and> (\<exists>cs. map unstamp cs @ pending b' = pending b \<and>
    append_all cs (w, f) = (Ret (), w', f'))"
proof (cases "500 \<le> t2 - wb_last b \<and> wb_batch b \<noteq> []")
  case True
  have held: "\<not> wb_held b" using assms(1) by (simp add: wb_inv_def)
  obtain w1 f1 where p: "append_all (stamped now (wb_batch b)) (w, f) = (Ret (), w1, f1)"
    "wb_process_batch now (b, w, f) = (Ret (), b\<lparr>wb_batch := []\<rparr>, w1, f1)"
    by (rule process_batch_good [OF held assms(2,3)])
  with True assms(4) have "r = Ret ()" "b' = b\<lparr>wb_batch := [], wb_last := t2\<rparr>" "w' = w1" "f' = f1"
    by (auto simp: wb_timed_flush_def modify_def)
  with p assms(1) show ?thesis
    by (intro conjI exI [of _ "stamped now (wb_batch b)"]) (auto simp: wb_inv_def pending_def)
next
  case False
  with assms show ?thesis by (auto simp: wb_timed_flush_def intro: exI [of _ "[]"])
qed

lemma wait_pop_inv_cases:
  assumes "bq_inv q" and "\<not> bq_stopped q"
  obtains "bq_items q = []" and "bq_wait_pop 100 True q = (Ret None, q)"
  | d ds where "bq_items q = d # ds"
    and "bq_wait_pop 100 True q = (Ret (Some d), q\<lparr>bq_items := ds, bq_size := bq_size q - 1\<rparr>)"
  by (cases "bq_items q") (use assms in \<open>auto simp: bq_wait_pop_def bq_pop_def\<close>)

lemma iterate_step:
  assumes "wb_inv b" and "wal_rel w f sl" and "handler_total w"
    and it: "wb_iterate now t1 t2 (b, w, f) = (Ret (), b', w', f')"
  shows "wb_inv b' \<and> (\<exists>cs. map unstamp cs @ pending b' = pending b \<and>
    append_all cs (w, f) = (Ret (), w', f'))"
proof -
  let ?q = "wb_queue b"
  have q: "bq_inv ?q" "\<not> bq_stopped ?q" using assms(1) by (simp_all add: wb_inv_def)
  then show ?thesis
  proof (cases rule: wait_pop_inv_cases)
    case 1
    with it have "wb_timed_flush now t2 (b, w, f) = (Ret (), b', w', f')"
      by (simp add: wb_iterate_def)
    from timed_flush_step [OF assms(1-3) this] show ?thesis by simp
  next
    case (2 d ds)
    let ?b = "b\<lparr>wb_queue := ?q\<lparr>bq_items := ds, bq_size := bq_size ?q - 1\<rparr>, wb_batch := wb_batch b @ [d]\<rparr>"
    have ex: "wb_held (?b\<lparr>wb_held := True\<rparr>)" by simp
    have "wb_inv ?b"
      using bq_wait_pop_inv [OF q(1), of 100 True] assms(1) 2 by (simp add: wb_inv_def)
    moreover have "pending ?b = pending b" by (simp add: pending_def 2)
    moreover have "?b\<lparr>wb_held := False\<rparr> = ?b" using assms(1) by (simp add: wb_inv_def)
    then have "wb_timed_flush now t2 (?b, w, f) = (Ret (), b', w', f')"
      using it 2
      by (simp add: wb_iterate_def wb_full_def wb_process_batch_def bindP_def modify_def split: if_splits)
    ultimately show ?thesis using timed_flush_step [OF _ assms(2,3)] by metis
  qed
qed

datatype wb_event = WEnqueue dirty | WIterate "nat \<Rightarrow> u64" int int | WSetSize u64

fun wb_exec :: "wb_event \<Rightarrow> unit wb_prog" where
  "wb_exec (WEnqueue d) = wb_enqueue d"
| "wb_exec (WIterate now t1 t2) = wb_iterate now t1 t2"
| "wb_exec (WSetSize n) = wb_set_batch_size n"

fun enqueued :: "wb_event list \<Rightarrow> dirty list" where
  "enqueued [] = []"
| "enqueued (WEnqueue d # es) = d # enqueued es"
| "enqueued (_ # es) = enqueued es"

lemma enqueue_step:
  assumes "wb_inv b" and "wb_enqueue d (b, ws) = (Ret (), b', ws')"
  shows "wb_inv b' \<and> pending b' = pending b @ [d] \<and> ws' = ws"
proof -
  obtain r q where p: "bq_push d (wb_queue b) = (r, q)" by (rule prod.exhaust)
  with assms have "r = Ret ()" "b' = b\<lparr>wb_queue := q\<rparr>" "ws' = ws"
    by (auto simp: wb_enqueue_def zoom_def)
  moreover from p this assms(1) have "q = bq_enqueue d (wb_queue b)"
    by (auto simp: bq_push_def wb_inv_def split: if_splits)
  moreover have "bq_inv q" using bq_push_inv [of "wb_queue b" d] assms(1) p by (simp add: wb_inv_def)
  ultimately show ?thesis using assms(1) by (simp add: wb_inv_def pending_def bq_enqueue_def)
qed

lemma append_all_append:
  assumes "append_all cs ws = (Ret (), ws1)"
  shows "append_all (cs @ ds) ws = append_all ds ws1"
  using assms by (simp add: append_all_def seqP_append)

lemma wb_exec_step:
  assumes "wb_inv b" and "wal_rel w f sl" and "handler_total w"
    and "wb_exec e (b, w, f) = (Ret (), b', w', f')"
  shows "wb_inv b' \<and> (\<exists>cs. map unstamp cs @ pending b' = pending b @ enqueued [e] \<and>
    append_all cs (w, f) = (Ret (), w', f'))"
proof (cases e)
  case (WEnqueue d)
  with assms enqueue_step [of b d "(w, f)" b' "(w', f')"] show ?thesis by (auto intro: exI [of _ "[]"])
next
  case (WIterate now t1 t2)
  with assms iterate_step [of b w f sl now t1 t2 b' w' f'] show ?thesis by auto
next
  case (WSetSize n)
  with assms show ?thesis
    by (auto simp: wb_set_batch_size_def wb_inv_def pending_def split: if_splits intro: exI [of _ "[]"])
qed

lemma append_all_keeps:
  assumes "wal_rel w f sl" and "handler_total w" and "append_all cs (w, f) = (Ret (), w', f')"
  shows "\<exists>sl'. wal_rel w' f' sl'" and "w_handler w' = w_handler w"
proof -
  from append_all_refines [OF assms(1,2), of cs] obtain w1 f1 sl1 where
    "append_all cs (w, f) = (Ret (), w1, f1)" "wal_rel w1 f1 sl1" by blast
  with assms(3) show "\<exists>sl'. wal_rel w' f' sl'" by (intro exI [of _ sl1]) simp
  show "w_handler w' = w_handler w" using assms
  proof (induction cs arbitrary: w f sl)
    case (Cons c cs)
    obtain a k v now where c: "c = (a, k, v, now)" by (cases c)
    from append_step [OF Cons.prems(1,2), of a k v now] obtain w1 f1 where
      s1: "wal_append a k v now (w, f) = (Ret (), w1, f1)"
      "wal_rel w1 f1 (seg_append (w_max w) (next_entry w a k v now) sl)" "w_handler w1 = w_handler w"
      by blast
    with Cons.prems(2) have "handler_total w1" by (simp add: handler_total_def)
    with Cons.IH [OF s1(2)] Cons.prems(3) s1 c show ?case by (simp add: append_all_def)
  qed simp
qed

lemma wb_run_conserves:
  assumes "wb_inv b" and "wal_rel w f sl" and "handler_total w"
    and "seqP wb_exec es (b, w, f) = (Ret (), b', w', f')"
  shows "\<exists>cs. map unstamp cs @ pending b' = pending b @ enqueued es \<and>
    append_all cs (w, f) = (Ret (), w', f')"
  using assms
proof (induction es arbitrary: b w f sl)
  case Nil
  then show ?case by (auto intro: exI [of _ "[]"])
next
  case (Cons e es)
  obtain r b1 w1 f1 where e: "wb_exec e (b, w, f) = (r, b1, w1, f1)" by (metis prod_cases4)
  with Cons.prems(4) have r: "r = Ret ()" and rest: "seqP wb_exec es (b1, w1, f1) = (Ret (), b', w', f')"
    by (cases r; simp)+
  from wb_exec_step [OF Cons.prems(1-3) e [unfolded r]] obtain cs where
    cs: "wb_inv b1" "map unstamp cs @ pending b1 = pending b @ enqueued [e]"
    "append_all cs (w, f) = (Ret (), w1, f1)" by blast
  from append_all_keeps [OF Cons.prems(2,3) cs(3)] Cons.prems(3) obtain sl1 where
    "wal_rel w1 f1 sl1" "handler_total w1" by (auto simp: handler_total_def)
  from Cons.IH [OF cs(1) this rest] obtain ds where
    ds: "map unstamp ds @ pending b' = pending b1 @ enqueued es"
    "append_all ds (w1, f1) = (Ret (), w', f')" by blast
  have "enqueued (e # es) = enqueued [e] @ enqueued es" by (cases e) simp_all
  with cs ds have "map unstamp (cs @ ds) @ pending b' = pending b @ enqueued (e # es)"
    by (metis append.assoc map_append)
  with append_all_append [OF cs(3), of ds] ds(2) show ?case by metis
qed

text \<open>C26: Conservation and order: in any history of enqueues, loop iterations and changes of the
  batch size that all return, starting from a new worker and a good log, the records appended
  to the log, followed by the current batch and the queue, are exactly the enqueued records in
  the order in which they were enqueued; nothing is lost, duplicated or reordered.\<close>

theorem wb_conserves_records:
  assumes "wal_rel w f sl" and "handler_total w"
    and "seqP wb_exec es (wb_start t (wb_new n), w, f) = (Ret (), b', w', f')"
  shows "\<exists>cs. map unstamp cs @ wb_batch b' @ bq_items (wb_queue b') = enqueued es \<and>
    wal_rel w' f' (fold (seg_append (w_max w)) (entries_from (w_seq w) cs) sl)"
proof -
  have "wb_inv (wb_start t (wb_new n))" "pending (wb_start t (wb_new n)) = []"
    by (simp_all add: wb_start_def wb_inv_def pending_def wb_new_def)
  with wb_run_conserves [OF _ assms] obtain cs where
    "map unstamp cs @ pending b' = enqueued es" "append_all cs (w, f) = (Ret (), w', f')" by auto
  with append_all_refines [OF assms(1,2), of cs] show ?thesis
    by (auto simp: pending_def intro!: exI [of _ cs])
qed

theorem wb_conserves_records_witness:
  "\<exists>b' w' f' cs. seqP wb_exec [WEnqueue \<lparr>d_actor = ''a'', d_key = ''k'', d_value = ''1''\<rparr>,
        WEnqueue \<lparr>d_actor = ''a'', d_key = ''k'', d_value = ''2''\<rparr>, WIterate (\<lambda>_. 7) 600 600]
      (wb_start 0 (wb_new 100), ex_wal, ex_fs) = (Ret (), b', w', f') \<and>
    map unstamp cs @ wb_batch b' @ bq_items (wb_queue b') =
      [\<lparr>d_actor = ''a'', d_key = ''k'', d_value = ''1''\<rparr>, \<lparr>d_actor = ''a'', d_key = ''k'', d_value = ''2''\<rparr>] \<and>
    wal_rel w' f' (fold (seg_append 1000) (entries_from 0 cs) ([], None))"
proof -
  let ?d1 = "\<lparr>d_actor = ''a'', d_key = ''k'', d_value = ''1''\<rparr>"
  let ?d2 = "\<lparr>d_actor = ''a'', d_key = ''k'', d_value = ''2''\<rparr>"
  let ?es = "[WEnqueue ?d1, WEnqueue ?d2, WIterate (\<lambda>_. 7) 600 600]"
  let ?q = "\<lparr>bq_max = 1000, bq_size = 1, bq_policy = Block, bq_items = [?d2], bq_stopped = False\<rparr>"
  let ?b = "\<lparr>wb_running = True, wb_joinable = True, wb_queue = ?q, wb_size = 100, wb_batch = [?d1],
    wb_held = False, wb_last = 0\<rparr>"
  have "\<not> wb_held ?b" by simp
  from process_batch_good [OF this ex_wal_props(2,3), of "\<lambda>_. 7"] obtain w' f' where
    p: "wb_process_batch (\<lambda>_. 7) (?b, ex_wal, ex_fs) = (Ret (), ?b\<lparr>wb_batch := []\<rparr>, w', f')" by blast
  let ?q0 = "\<lparr>bq_max = 1000, bq_size = 2, bq_policy = Block, bq_items = [?d1, ?d2], bq_stopped = False\<rparr>"
  have enq: "seqP wb_exec ?es (wb_start 0 (wb_new 100), ex_wal, ex_fs) =
      seqP wb_exec [WIterate (\<lambda>_. 7) 600 600] (?b\<lparr>wb_queue := ?q0, wb_batch := []\<rparr>, ex_wal, ex_fs)"
    by (simp add: wb_start_def wb_new_def wb_enqueue_def zoom_def bq_push_def bq_enqueue_def bq_new_def)
  have it: "wb_iterate (\<lambda>_. 7) 600 600 (?b\<lparr>wb_queue := ?q0, wb_batch := []\<rparr>, ex_wal, ex_fs) =
      wb_timed_flush (\<lambda>_. 7) 600 (?b, ex_wal, ex_fs)"
    by (simp add: wb_iterate_def bq_wait_pop_def bq_pop_def wb_full_def bindP_def modify_def)
  also have "\<dots> = (Ret (), ?b\<lparr>wb_batch := [], wb_last := 600\<rparr>, w', f')"
    using p by (simp add: wb_timed_flush_def modify_def)
  finally have run: "seqP wb_exec ?es (wb_start 0 (wb_new 100), ex_wal, ex_fs) =
      (Ret (), ?b\<lparr>wb_batch := [], wb_last := 600\<rparr>, w', f')"
    unfolding enq by simp
  from wb_conserves_records [OF ex_wal_props(2,3) run] obtain cs where
    "map unstamp cs @ wb_batch (?b\<lparr>wb_batch := [], wb_last := 600\<rparr>) @
       bq_items (wb_queue (?b\<lparr>wb_batch := [], wb_last := 600\<rparr>)) = enqueued ?es"
    "wal_rel w' f' (fold (seg_append (w_max ex_wal)) (entries_from (w_seq ex_wal) cs) ([], None))"
    by blast
  with run show ?thesis unfolding ex_wal_props(6,8)
    by (intro exI [of _ "?b\<lparr>wb_batch := [], wb_last := 600\<rparr>"] exI [of _ w'] exI [of _ f'] exI [of _ cs])
      simp
qed

section \<open>A full batch\<close>

lemma iterate_collects:
  assumes "wb_inv b" and "bq_items (wb_queue b) = d # ds"
    and "Suc (length (wb_batch b)) < unat (wb_size b)" and "t2 - wb_last b < 500"
  shows "\<exists>b'. wb_iterate now t1 t2 (b, ws) = (Ret (), b', ws) \<and> wb_inv b' \<and>
    wb_batch b' = wb_batch b @ [d] \<and> bq_items (wb_queue b') = ds \<and> wb_size b' = wb_size b \<and>
    wb_last b' = wb_last b \<and> wb_joinable b' = wb_joinable b"
proof -
  let ?q = "wb_queue b"
  have q: "bq_inv ?q" "\<not> bq_stopped ?q" using assms(1) by (simp_all add: wb_inv_def)
  then have pop: "bq_wait_pop 100 True ?q = (Ret (Some d), ?q\<lparr>bq_items := ds, bq_size := bq_size ?q - 1\<rparr>)"
    using assms(2) by (simp add: bq_wait_pop_def bq_pop_def)
  with bq_wait_pop_inv [OF q(1), of 100 True] assms show ?thesis
    by (simp add: wb_iterate_def wb_full_def wb_timed_flush_def bindP_def modify_def wb_inv_def)
qed

lemma iterate_relocks:
  assumes "wb_inv b" and "bq_items (wb_queue b) = d # ds"
    and "unat (wb_size b) \<le> Suc (length (wb_batch b))"
  shows "\<exists>b'. wb_iterate now t1 t2 (b, ws) = (Undef Relock, b', ws) \<and> wb_held b' \<and>
    wb_batch b' = wb_batch b @ [d] \<and> bq_items (wb_queue b') = ds \<and> wb_joinable b' = wb_joinable b"
  using assms
  by (simp add: wb_iterate_def wb_full_def wb_process_batch_def bq_wait_pop_def bq_pop_def bindP_def)

lemma iterations_deadlock:
  assumes "wb_inv b" and "length its = unat (wb_size b) - length (wb_batch b)"
    and "length (wb_batch b) < unat (wb_size b)" and "unat (wb_size b) \<le> length (pending b)"
    and "\<forall>(now, t1, t2) \<in> set its. t2 - wb_last b < 500"
  shows "\<exists>b'. seqP (\<lambda>(now, t1, t2). wb_iterate now t1 t2) its (b, ws) = (Undef Relock, b', ws) \<and>
    wb_held b' \<and> pending b' = pending b \<and> wb_joinable b' = wb_joinable b"
  using assms
proof (induction its arbitrary: b)
  case (Cons it its)
  obtain now t1 t2 where it: "it = (now, t1, t2)" by (cases it)
  from Cons.prems(3,4) obtain d ds where q: "bq_items (wb_queue b) = d # ds"
    by (cases "bq_items (wb_queue b)") (simp_all add: pending_def)
  show ?case
  proof (cases its)
    case Nil
    with Cons.prems(2,3) have "unat (wb_size b) \<le> Suc (length (wb_batch b))" by simp
    from iterate_relocks [OF Cons.prems(1) q this, of now t1 t2 ws] it q show ?thesis
      by (auto simp: pending_def)
  next
    case (Cons it2 its2)
    with Cons.prems(2) have "Suc (length (wb_batch b)) < unat (wb_size b)" by simp
    moreover have "t2 - wb_last b < 500" using Cons.prems(5) it by simp
    ultimately obtain b1 where b1: "wb_iterate now t1 t2 (b, ws) = (Ret (), b1, ws)" "wb_inv b1"
      "wb_batch b1 = wb_batch b @ [d]" "bq_items (wb_queue b1) = ds" "wb_size b1 = wb_size b"
      "wb_last b1 = wb_last b" "wb_joinable b1 = wb_joinable b"
      using iterate_collects [OF Cons.prems(1) q] by blast
    have "\<exists>b'. seqP (\<lambda>(now, t1, t2). wb_iterate now t1 t2) its (b1, ws) = (Undef Relock, b', ws) \<and>
        wb_held b' \<and> pending b' = pending b1 \<and> wb_joinable b' = wb_joinable b1"
      by (rule Cons.IH)
        (use Cons.prems b1 q \<open>Suc (length (wb_batch b)) < unat (wb_size b)\<close> in
          \<open>auto simp: pending_def\<close>)
    then show ?thesis using b1 q it by (simp add: pending_def)
  qed
qed simp

text \<open>C38: A full batch is never written: when the records in the batch and in the queue reach
  the batch size before the flush interval has passed, the iteration that fills the batch
  locks \<open>batch_mutex_\<close> in \<open>run\<close> and again in \<open>process_batch\<close>. The thread is stuck, nothing has
  been appended to the log, every record is still in memory, and \<open>stop\<close> waits forever.\<close>

theorem wb_full_batch_deadlocks:
  assumes "wb_inv b" and "wb_joinable b" and "length (wb_batch b) < unat (wb_size b)"
    and "unat (wb_size b) \<le> length (pending b)"
    and "length its = unat (wb_size b) - length (wb_batch b)"
    and "\<forall>(now, t1, t2) \<in> set its. t2 - wb_last b < 500"
    and "seqP (\<lambda>(now, t1, t2). wb_iterate now t1 t2) its (b, ws) = (r, b', ws')"
  shows "r = Undef Relock \<and> ws' = ws \<and> pending b' = pending b \<and>
    fst (wb_stop it now (b', ws')) = Blocked"
proof -
  from iterations_deadlock [OF assms(1,5,3,4,6), of ws] assms(7)
  have "r = Undef Relock" "ws' = ws" "pending b' = pending b" "wb_held b'" "wb_joinable b'"
    using assms(2) by auto
  then show ?thesis by (simp add: wb_stop_def wb_join_def bindP_def modify_def)
qed

theorem wb_full_batch_deadlocks_witness:
  "\<exists>b b' ws' r. bq_items (wb_queue b) = [\<lparr>d_actor = ''a'', d_key = ''k'', d_value = ''1''\<rparr>,
       \<lparr>d_actor = ''a'', d_key = ''k'', d_value = ''2''\<rparr>] \<and> wb_size b = 2 \<and>
     seqP (\<lambda>(now, t1, t2). wb_iterate now t1 t2) [(\<lambda>_. 7, 1, 1), (\<lambda>_. 7, 2, 2)] (b, ex_wal, ex_fs) =
       (r, b', ws') \<and> r = Undef Relock \<and> ws' = (ex_wal, ex_fs)"
proof -
  define b where "b = \<lparr>wb_running = True, wb_joinable = True,
    wb_queue = \<lparr>bq_max = 1000, bq_size = 2, bq_policy = Block,
      bq_items = [\<lparr>d_actor = ''a'', d_key = ''k'', d_value = ''1''\<rparr>,
        \<lparr>d_actor = ''a'', d_key = ''k'', d_value = ''2''\<rparr>], bq_stopped = False\<rparr>,
    wb_size = 2, wb_batch = [], wb_held = False, wb_last = 0\<rparr>"
  let ?its = "[(\<lambda>_. 7, 1, 1), (\<lambda>_. 7, 2, 2)] :: ((nat \<Rightarrow> u64) \<times> int \<times> int) list"
  obtain r b' ws' where run:
    "seqP (\<lambda>(now, t1, t2). wb_iterate now t1 t2) ?its (b, ex_wal, ex_fs) = (r, b', ws')"
    by (metis prod_cases3)
  have "wb_inv b" "wb_joinable b" "length (wb_batch b) < unat (wb_size b)"
    "unat (wb_size b) \<le> length (pending b)" "length ?its = unat (wb_size b) - length (wb_batch b)"
    "\<forall>(now, t1, t2) \<in> set ?its. t2 - wb_last b < 500"
    by (simp_all add: b_def wb_inv_def bq_inv_def pending_def)
  from wb_full_batch_deadlocks [OF this run] run show ?thesis
    by (intro exI [of _ b] exI [of _ b'] exI [of _ ws'] exI [of _ r]) (simp add: b_def)
qed

section \<open>Stopping\<close>

lemma timed_flush_queue:
  "wb_timed_flush now t2 (b, ws) = (r, b', ws') \<Longrightarrow>
    wb_queue b' = wb_queue b \<and> wb_running b' = wb_running b"
  by (auto simp: wb_timed_flush_def wb_process_batch_def bindP_def modify_def
      split: if_splits prod.splits outcome.splits)

lemma iterate_queue:
  assumes "wb_inv b" and "wb_iterate now t1 t2 (b, ws) = (Ret (), b', ws')"
  shows "length (bq_items (wb_queue b)) - 1 \<le> length (bq_items (wb_queue b')) \<and>
    wb_running b' = wb_running b"
proof -
  have "bq_inv (wb_queue b)" "\<not> bq_stopped (wb_queue b)" using assms(1) by (simp_all add: wb_inv_def)
  then show ?thesis
  proof (cases rule: wait_pop_inv_cases)
    case (2 d ds)
    let ?q' = "(wb_queue b)\<lparr>bq_items := ds, bq_size := bq_size (wb_queue b) - 1\<rparr>"
    obtain b1 where "wb_timed_flush now t2 (b1, ws) = (Ret (), b', ws')" "wb_queue b1 = ?q'"
      "wb_running b1 = wb_running b"
      using assms(2) 2
      by (auto simp: wb_iterate_def wb_full_def wb_process_batch_def bindP_def modify_def
          split: if_splits)
    with timed_flush_queue [of now t2 b1 ws] 2 show ?thesis by simp
  next
    case 1
    with assms(2) timed_flush_queue [of now t2 b ws "Ret ()" b' ws'] show ?thesis
      by (simp add: wb_iterate_def)
  qed
qed

text \<open>\<open>stop\<close> flushes the current batch but not the queue: when it returns, the batch is in the
  log, but of the records still queued at most one (taken by an iteration that was under way)
  has been written; the others stay in the queue of a worker that no longer runs.\<close>

theorem wb_stop_leaves_queue:
  assumes "wb_inv b" and "wal_rel w f sl" and "handler_total w"
    and "wb_stop it now (b, w, f) = (Ret (), b', w', f')"
  shows "\<not> wb_running b' \<and> wb_batch b' = [] \<and>
    length (bq_items (wb_queue b)) - 1 \<le> length (bq_items (wb_queue b')) \<and>
    (\<exists>cs. map unstamp cs @ bq_items (wb_queue b') = pending b \<and>
       wal_rel w' f' (fold (seg_append (w_max w)) (entries_from (w_seq w) cs) sl))"
proof -
  let ?b = "b\<lparr>wb_running := False\<rparr>"
  have inv: "wb_inv ?b" "pending ?b = pending b" using assms(1) by (simp_all add: wb_inv_def pending_def)
  obtain b1 w1 f1 where j: "wb_join it (?b, w, f) = (Ret (), b1, w1, f1)"
    and p: "wb_process_batch now (b1, w1, f1) = (Ret (), b', w', f')"
    using assms(4) by (auto simp: wb_stop_def bindP_eq_Ret modify_def)
  have j2: "wb_inv b1 \<and> \<not> wb_running b1 \<and>
      length (bq_items (wb_queue b)) - 1 \<le> length (bq_items (wb_queue b1)) \<and>
      (\<exists>cs. map unstamp cs @ pending b1 = pending b \<and> append_all cs (w, f) = (Ret (), w1, f1))"
  proof (cases "wb_joinable b \<and> it \<noteq> None")
    case True
    then obtain n t1 t2 where it: "it = Some (n, t1, t2)" by auto
    with j True obtain b0 where b0: "wb_iterate n t1 t2 (?b, w, f) = (Ret (), b0, w1, f1)"
      "b1 = b0\<lparr>wb_joinable := False\<rparr>"
      by (auto simp: wb_join_def bindP_eq_Ret modify_def split: if_splits)
    from iterate_step [OF inv(1) assms(2,3) b0(1)] iterate_queue [OF inv(1) b0(1)] inv(2) b0(2)
    show ?thesis by (simp add: wb_inv_def pending_def)
  next
    case False
    with j assms(1) have "b1 = ?b\<lparr>wb_joinable := False\<rparr> \<and> (w1, f1) = (w, f)"
      by (cases it) (auto simp: wb_join_def bindP_eq_Ret modify_def ret_def wb_inv_def split: if_splits)
    with inv show ?thesis by (auto simp: wb_inv_def pending_def intro: exI [of _ "[]"])
  qed
  then obtain cs where cs: "map unstamp cs @ pending b1 = pending b" "append_all cs (w, f) = (Ret (), w1, f1)"
    by blast
  from append_all_keeps [OF assms(2,3) cs(2)] assms(3) obtain sl1 where
    "wal_rel w1 f1 sl1" "handler_total w1" by (auto simp: handler_total_def)
  moreover have "\<not> wb_held b1" using j2 by (simp add: wb_inv_def)
  ultimately obtain w2 f2 where p2: "append_all (stamped now (wb_batch b1)) (w1, f1) = (Ret (), w2, f2)"
    "wb_process_batch now (b1, w1, f1) = (Ret (), b1\<lparr>wb_batch := []\<rparr>, w2, f2)"
    by (metis process_batch_good)
  with p have eqs: "b' = b1\<lparr>wb_batch := []\<rparr>" "w' = w2" "f' = f2" by simp_all
  let ?cs = "cs @ stamped now (wb_batch b1)"
  have "map unstamp ?cs @ bq_items (wb_queue b') = pending b"
    using cs(1) eqs by (simp add: pending_def)
  moreover have "append_all ?cs (w, f) = (Ret (), w', f')"
    using append_all_append [OF cs(2)] p2(1) eqs by simp
  then have "wal_rel w' f' (fold (seg_append (w_max w)) (entries_from (w_seq w) ?cs) sl)"
    using append_all_refines [OF assms(2,3), of ?cs] by auto
  ultimately have "\<exists>cs. map unstamp cs @ bq_items (wb_queue b') = pending b \<and>
       wal_rel w' f' (fold (seg_append (w_max w)) (entries_from (w_seq w) cs) sl)" by blast
  with j2 eqs show ?thesis by simp
qed

theorem wb_stop_leaves_queue_witness:
  "\<exists>b b' w' f' ds. bq_items (wb_queue b) = [\<lparr>d_actor = ''a'', d_key = ''k'', d_value = ''1''\<rparr>,
       \<lparr>d_actor = ''a'', d_key = ''k'', d_value = ''2''\<rparr>] \<and>
     wb_stop None (\<lambda>_. 7) (b, ex_wal, ex_fs) = (Ret (), b', w', f') \<and>
     bq_items (wb_queue b') = ds \<and> 1 \<le> length ds \<and> \<not> wb_running b'"
proof -
  define b where "b = \<lparr>wb_running = True, wb_joinable = True,
    wb_queue = \<lparr>bq_max = 1000, bq_size = 2, bq_policy = Block,
      bq_items = [\<lparr>d_actor = ''a'', d_key = ''k'', d_value = ''1''\<rparr>,
        \<lparr>d_actor = ''a'', d_key = ''k'', d_value = ''2''\<rparr>], bq_stopped = False\<rparr>,
    wb_size = 100, wb_batch = [], wb_held = False, wb_last = 0\<rparr>"
  have inv: "wb_inv b" by (simp add: b_def wb_inv_def bq_inv_def)
  have run: "wb_stop None (\<lambda>_. 7) (b, ex_wal, ex_fs) =
      (Ret (), b\<lparr>wb_running := False, wb_joinable := False\<rparr>, ex_wal, ex_fs)"
    by (simp add: b_def wb_stop_def wb_join_def wb_process_batch_def prog_simps)
  define b' where "b' = b\<lparr>wb_running := False, wb_joinable := False\<rparr>"
  have q: "bq_items (wb_queue b) = [\<lparr>d_actor = ''a'', d_key = ''k'', d_value = ''1''\<rparr>,
      \<lparr>d_actor = ''a'', d_key = ''k'', d_value = ''2''\<rparr>]" by (simp add: b_def)
  from wb_stop_leaves_queue [OF inv ex_wal_props(2,3) run [folded b'_def]]
  have "\<not> wb_running b'" "length (bq_items (wb_queue b)) - 1 \<le> length (bq_items (wb_queue b'))" by blast+
  with q run [folded b'_def] show ?thesis
    by (intro exI [of _ b] exI [of _ b'] exI [of _ ex_wal] exI [of _ ex_fs]
        exI [of _ "bq_items (wb_queue b')"]) simp
qed

end
