(* ===== verification/Mem_Store.thy ===== *)
theory Mem_Store
  imports Pubsub Thread_Pool Write_Behind
begin

text \<open>
  \<^verbatim>\<open>src/mem_store.h\<close> and \<^verbatim>\<open>src/mem_store.cpp\<close>: the in-memory key-value store of an actor
  system, with versions, expiry times, a log (written ahead, or behind by a worker) and
  notification of subscribers through the thread pool. \<open>set\<close>, \<open>del\<close> and \<open>set_if_version\<close>
  hold \<open>mutex_\<close> exclusively and \<open>get\<close> holds it shared, so an operation is one step.
  Times are readings of the system clock in nanoseconds and arguments of the operations;
  \<open>wt\<close> is the reading, in milliseconds, that the log stamps its entry with.
\<close>

section \<open>State\<close>

record meta =
  m_value :: val
  m_version :: u64
  m_created :: int
  m_accessed :: int
  m_expires :: "int option"

text \<open>What \<open>store_[actor_id][key]\<close> creates: the members' default initialisers.\<close>

definition meta_default :: meta where
  "meta_default = \<lparr>m_value = [], m_version = 0, m_created = 0, m_accessed = 0, m_expires = None\<rparr>"

datatype durability = WriteAhead | WriteBehind

text \<open>A task of the pool: notify the subscribers of an actor of a key and a value.\<close>

datatype job = Notify actor_id key val

text \<open>A registered callback is the closure over the actor and the client's callback.\<close>

record 'cb mstore =
  ms_store :: "actor_id \<rightharpoonup> (key \<rightharpoonup> meta)"
  ms_mode :: durability
  ms_wal :: wal
  ms_fs :: fs
  ms_pool :: "job pool"
  ms_subs :: "(actor_id \<times> 'cb) subsys"
  ms_worker :: "worker option"
  ms_ttl :: "(actor_id \<times> key) tslist"

text \<open>The constructor, given the log and the pool; a \<open>WriteBehind\<close> store starts its worker.\<close>

definition ms_new :: "wal \<Rightarrow> fs \<Rightarrow> job pool \<Rightarrow> durability \<Rightarrow> u64 \<Rightarrow> int \<Rightarrow> 'cb mstore" where
  "ms_new w f p mode batch_size t =
     \<lparr>ms_store = Map.empty, ms_mode = mode, ms_wal = w, ms_fs = f, ms_pool = p, ms_subs = su_new,
      ms_worker = (if mode = WriteBehind then Some (wb_start t (wb_new batch_size)) else None),
      ms_ttl = tsl_new\<rparr>"

section \<open>Operations\<close>

definition ms_find :: "actor_id \<Rightarrow> key \<Rightarrow> 'cb mstore \<Rightarrow> meta option" where
  "ms_find a k s = Option.bind (ms_store s a) (\<lambda>m. m k)"

text \<open>\<open>store_[a][k]\<close> assigned to: both levels are created when they are missing.\<close>

definition ms_put :: "actor_id \<Rightarrow> key \<Rightarrow> meta \<Rightarrow> 'cb mstore \<Rightarrow> 'cb mstore" where
  "ms_put a k v s = s\<lparr>ms_store := (ms_store s)(a \<mapsto>
     (case ms_store s a of None \<Rightarrow> Map.empty | Some m \<Rightarrow> m)(k \<mapsto> v))\<rparr>"

definition ms_entry :: "actor_id \<Rightarrow> key \<Rightarrow> 'cb mstore \<Rightarrow> meta" where
  "ms_entry a k s = (case ms_find a k s of None \<Rightarrow> meta_default | Some v \<Rightarrow> v)"

definition ms_wal_append :: "actor_id \<Rightarrow> key \<Rightarrow> val \<Rightarrow> u64 \<Rightarrow> (unit, 'cb mstore) prog" where
  "ms_wal_append a k v wt =
     zoom (\<lambda>s. (ms_wal s, ms_fs s)) (\<lambda>(w, f) s. s\<lparr>ms_wal := w, ms_fs := f\<rparr>) (wal_append a k v wt)"

definition ms_write_behind_append :: "actor_id \<Rightarrow> key \<Rightarrow> val \<Rightarrow> (unit, 'cb mstore) prog" where
  "ms_write_behind_append a k v s = (case ms_worker s of
     None \<Rightarrow> (Ret (), s)
   | Some b \<Rightarrow> (case wb_enqueue \<lparr>d_actor = a, d_key = k, d_value = v\<rparr> (b, ms_wal s, ms_fs s) of
       (r, b', w', f') \<Rightarrow> (r, s\<lparr>ms_worker := Some b', ms_wal := w', ms_fs := f'\<rparr>)))"

definition ms_log :: "actor_id \<Rightarrow> key \<Rightarrow> val \<Rightarrow> u64 \<Rightarrow> (unit, 'cb mstore) prog" where
  "ms_log a k v wt s = (if ms_mode s = WriteAhead then ms_wal_append a k v wt s
     else ms_write_behind_append a k v s)"

text \<open>The constructor never leaves \<open>thread_pool_\<close> null, so notifications are always submitted.\<close>

definition ms_notify_subscribers :: "actor_id \<Rightarrow> key \<Rightarrow> val \<Rightarrow> (unit, 'cb mstore) prog" where
  "ms_notify_subscribers a k v = zoom ms_pool (\<lambda>p s. s\<lparr>ms_pool := p\<rparr>) (tp_submit (Notify a k v))"

text \<open>\<open>ttl_secs\<close> is an \<open>int\<close>; the sum with a present-day clock stays far below \<open>2 ^ 63\<close>.\<close>

definition ms_set_entry :: "actor_id \<Rightarrow> key \<Rightarrow> val \<Rightarrow> int option \<Rightarrow> int \<Rightarrow> 'cb mstore \<Rightarrow> 'cb mstore" where
  "ms_set_entry a k v ttl t s =
     (let e = ms_entry a k s;
          e1 = e\<lparr>m_value := v, m_version := m_version e + 1, m_created := t, m_accessed := t\<rparr>
      in (case ttl of
            None \<Rightarrow> ms_put a k e1 s
          | Some secs \<Rightarrow> (ms_put a k (e1\<lparr>m_expires := Some (t + secs * 1000000000)\<rparr>) s)
              \<lparr>ms_ttl := tsl_push_front (a, k) (ms_ttl s)\<rparr>))"

definition ms_set :: "actor_id \<Rightarrow> key \<Rightarrow> val \<Rightarrow> int option \<Rightarrow> int \<Rightarrow> u64 \<Rightarrow> (bool, 'cb mstore) prog" where
  "ms_set a k v ttl t wt =
     bindP (modify (ms_set_entry a k v ttl t)) (\<lambda>_.
     bindP (ms_log a k v wt) (\<lambda>_.
     bindP (ms_notify_subscribers a k v) (\<lambda>_. ret True)))"

definition ms_expired :: "int \<Rightarrow> meta \<Rightarrow> bool" where
  "ms_expired t e = (case m_expires e of None \<Rightarrow> False | Some x \<Rightarrow> x < t)"

text \<open>\<open>get\<close> reads the clock once for \<open>last_accessed\<close> and, if needed, once more for the expiry.\<close>

definition ms_get :: "actor_id \<Rightarrow> key \<Rightarrow> int \<Rightarrow> int \<Rightarrow> (val option, 'cb mstore) prog" where
  "ms_get a k t1 t2 s = (case ms_find a k s of
     None \<Rightarrow> (Ret None, s)
   | Some e \<Rightarrow> (Ret (if ms_expired t2 e then None else Some (m_value e)),
               ms_put a k (e\<lparr>m_accessed := t1\<rparr>) s))"

definition ms_del :: "actor_id \<Rightarrow> key \<Rightarrow> (bool, 'cb mstore) prog" where
  "ms_del a k s = (case ms_store s a of
     None \<Rightarrow> (Ret False, s)
   | Some m \<Rightarrow> (Ret (m k \<noteq> None), s\<lparr>ms_store := (ms_store s)(a \<mapsto> m(k := None))\<rparr>))"

definition ms_set_if_version ::
  "actor_id \<Rightarrow> key \<Rightarrow> val \<Rightarrow> u64 \<Rightarrow> int \<Rightarrow> u64 \<Rightarrow> (bool, 'cb mstore) prog" where
  "ms_set_if_version a k v expected t wt s =
     (let e = ms_entry a k s; s1 = ms_put a k e s
      in if m_version e \<noteq> expected then (Ret False, s1)
         else bindP (modify (ms_put a k
                (e\<lparr>m_value := v, m_version := m_version e + 1, m_accessed := t\<rparr>))) (\<lambda>_.
              bindP (ms_log a k v wt) (\<lambda>_.
              bindP (ms_notify_subscribers a k v) (\<lambda>_. ret True))) s1)"

definition ms_subscribe :: "actor_id \<Rightarrow> 'cb \<Rightarrow> (u64, 'cb mstore) prog" where
  "ms_subscribe a cb = zoom ms_subs (\<lambda>u s. s\<lparr>ms_subs := u\<rparr>) (su_subscribe a (Some (a, cb)))"

definition ms_unsubscribe :: "actor_id \<Rightarrow> u64 \<Rightarrow> (bool, 'cb mstore) prog" where
  "ms_unsubscribe a i = zoom ms_subs (\<lambda>u s. s\<lparr>ms_subs := u\<rparr>) (su_unsubscribe a i)"

text \<open>What a worker of the pool does with a job; \<open>call\<close> is the client's callback.\<close>

definition ms_run_job ::
  "('cb \<Rightarrow> actor_id \<Rightarrow> key \<Rightarrow> val \<Rightarrow> (unit, 's) prog) \<Rightarrow> job \<Rightarrow> 'cb mstore \<Rightarrow> (unit, 's) prog" where
  "ms_run_job call j s = (case j of
     Notify a k v \<Rightarrow> su_notify a (\<lambda>(b, cb). call cb b k v) (ms_subs s))"

text \<open>
  \<open>cleanup_expired\<close> walks \<open>ttl_index_\<close> with an effectful predicate that erases expired
  entries; \<open>clock\<close> gives the successive readings, one for each entry with an expiry time.
  It takes no lock; the model gives it the store of one moment.
\<close>

type_synonym table = "actor_id \<rightharpoonup> (key \<rightharpoonup> meta)"

definition ms_stale :: "(nat \<Rightarrow> int) \<Rightarrow> actor_id \<times> key \<Rightarrow> table \<times> nat \<Rightarrow> bool \<times> table \<times> nat" where
  "ms_stale clock = (\<lambda>(a, k) (st, n).
     (case st a of
        None \<Rightarrow> (True, st, n)
      | Some m \<Rightarrow> (case m k of
          None \<Rightarrow> (True, st, n)
        | Some e \<Rightarrow> (case m_expires e of
            None \<Rightarrow> (False, st, n)
          | Some x \<Rightarrow>
              if x < clock n then (True, st(a \<mapsto> m(k := None)), Suc n) else (False, st, Suc n)))))"

definition ms_cleanup_expired :: "(nat \<Rightarrow> int) \<Rightarrow> (unit, 'cb mstore) prog" where
  "ms_cleanup_expired clock s = (case tsl_remove_if (ms_stale clock) (ms_ttl s, ms_store s, 0) of
     (r, l, st, _) \<Rightarrow> (r, s\<lparr>ms_ttl := l, ms_store := st\<rparr>))"

lemmas ms_defs = ms_set_def ms_set_entry_def ms_get_def ms_del_def ms_set_if_version_def
  ms_log_def ms_wal_append_def ms_write_behind_append_def ms_notify_subscribers_def

section \<open>The store as a map\<close>

lemma ms_find_put [simp]:
  "ms_find a k (ms_put b l e s) = (if a = b \<and> k = l then Some e else ms_find a k s)"
  by (auto simp: ms_find_def ms_put_def split: option.splits)

lemma ms_put_simps [simp]:
  "ms_mode (ms_put a k e s) = ms_mode s" "ms_wal (ms_put a k e s) = ms_wal s"
  "ms_fs (ms_put a k e s) = ms_fs s" "ms_pool (ms_put a k e s) = ms_pool s"
  "ms_subs (ms_put a k e s) = ms_subs s" "ms_worker (ms_put a k e s) = ms_worker s"
  "ms_ttl (ms_put a k e s) = ms_ttl s"
  by (simp_all add: ms_put_def)

lemma ms_find_cong: "ms_store s = ms_store s' \<Longrightarrow> ms_find a k s = ms_find a k s'"
  by (simp add: ms_find_def)

lemma ms_find_ttl [simp]: "ms_find a k (s\<lparr>ms_ttl := l\<rparr>) = ms_find a k s"
  by (simp add: ms_find_def)

lemma ms_log_frame:
  assumes "ms_log a k v wt s = (r, s')"
  shows "ms_store s' = ms_store s \<and> ms_ttl s' = ms_ttl s \<and> ms_pool s' = ms_pool s \<and>
    ms_subs s' = ms_subs s \<and> ms_mode s' = ms_mode s"
  using assms
  by (auto simp: ms_log_def ms_wal_append_def ms_write_behind_append_def zoom_def
      split: if_splits option.splits prod.splits)

lemma ms_notify_frame:
  assumes "ms_notify_subscribers a k v s = (r, s')"
  shows "\<exists>p. s' = s\<lparr>ms_pool := p\<rparr>"
  using assms by (auto simp: ms_notify_subscribers_def zoom_def split: prod.splits)

text \<open>What follows the update of the table in \<open>set\<close> and \<open>set_if_version\<close>.\<close>

definition ms_publish :: "actor_id \<Rightarrow> key \<Rightarrow> val \<Rightarrow> u64 \<Rightarrow> (bool, 'cb mstore) prog" where
  "ms_publish a k v wt = bindP (ms_log a k v wt) (\<lambda>_.
     bindP (ms_notify_subscribers a k v) (\<lambda>_. ret True))"

lemma ms_set_publish: "ms_set a k v ttl t wt s = ms_publish a k v wt (ms_set_entry a k v ttl t s)"
  by (simp add: ms_set_def ms_publish_def bindP_def modify_def)

lemma ms_publish_frame:
  assumes "ms_publish a k v wt s = (r, s')"
  shows "ms_store s' = ms_store s \<and> ms_ttl s' = ms_ttl s \<and> ms_subs s' = ms_subs s \<and>
    ms_mode s' = ms_mode s"
proof -
  obtain r1 s1 where l: "ms_log a k v wt s = (r1, s1)" by (rule prod.exhaust)
  obtain r2 s2 where n: "ms_notify_subscribers a k v s1 = (r2, s2)" by (rule prod.exhaust)
  have "s' = s1 \<or> s' = s2"
    using assms l n by (auto simp: ms_publish_def bindP_def ret_def split: outcome.splits)
  with ms_log_frame [OF l] ms_notify_frame [OF n] show ?thesis
    by auto
qed


lemma ms_set_store:
  assumes "ms_set a k v ttl t wt s = (r, s')"
  shows "ms_store s' = ms_store (ms_set_entry a k v ttl t s) \<and>
    ms_ttl s' = ms_ttl (ms_set_entry a k v ttl t s) \<and> ms_subs s' = ms_subs s \<and> ms_mode s' = ms_mode s"
  using ms_publish_frame [of a k v wt "ms_set_entry a k v ttl t s" r s'] assms
  by (auto simp: ms_set_publish ms_set_entry_def Let_def split: option.splits)

lemma ms_find_set_entry [simp]:
  "ms_find b l (ms_set_entry a k v ttl t s) = (if b = a \<and> l = k then
     Some \<lparr>m_value = v, m_version = m_version (ms_entry a k s) + 1, m_created = t, m_accessed = t,
       m_expires = (case ttl of None \<Rightarrow> m_expires (ms_entry a k s) | Some n \<Rightarrow> Some (t + n * 1000000000))\<rparr>
   else ms_find b l s)"
  by (cases "ms_entry a k s") (auto simp: ms_set_entry_def Let_def split: option.splits)

lemma ms_find_set:
  assumes "ms_set a k v ttl t wt s = (r, s')"
  shows "ms_find b l s' = ms_find b l (ms_set_entry a k v ttl t s)"
  using ms_set_store [OF assms] by (intro ms_find_cong) simp

lemma ms_find_del:
  "fst (ms_del a k s) = Ret (ms_find a k s \<noteq> None)"
  "ms_find b l (snd (ms_del a k s)) = (if b = a \<and> l = k then None else ms_find b l s)"
  by (auto simp: ms_del_def ms_find_def split: option.splits)

lemma ms_set_if_version_cases:
  obtains "m_version (ms_entry a k s) \<noteq> n"
    and "ms_set_if_version a k v n t wt s = (Ret False, ms_put a k (ms_entry a k s) s)"
  | "m_version (ms_entry a k s) = n"
    and "ms_set_if_version a k v n t wt s = ms_publish a k v wt (ms_put a k
      ((ms_entry a k s)\<lparr>m_value := v, m_version := n + 1, m_accessed := t\<rparr>)
      (ms_put a k (ms_entry a k s) s))"
  by (cases "m_version (ms_entry a k s) = n")
    (simp_all add: ms_set_if_version_def ms_publish_def Let_def bindP_def modify_def)

lemma ms_find_cas:
  "ms_find b l (snd (ms_set_if_version a k v n t wt s)) =
     (if b = a \<and> l = k then
        Some (if m_version (ms_entry a k s) = n
          then (ms_entry a k s)\<lparr>m_value := v, m_version := n + 1, m_accessed := t\<rparr>
          else ms_entry a k s)
      else ms_find b l s)"
proof (cases rule: ms_set_if_version_cases [of a k s n v t wt])
  case 2
  let ?s1 = "ms_put a k ((ms_entry a k s)\<lparr>m_value := v, m_version := n + 1, m_accessed := t\<rparr>)
      (ms_put a k (ms_entry a k s) s)"
  obtain r s' where p: "ms_publish a k v wt ?s1 = (r, s')" by (rule prod.exhaust)
  have "ms_find b l s' = ms_find b l ?s1"
    using ms_publish_frame [OF p] by (intro ms_find_cong) simp
  with 2 p show ?thesis by simp
qed simp

text \<open>
  The contract of a key-value store: writes and deletions act on the values as a map. An
  argument of \<open>put\<close> carries its key and its value.
\<close>

locale kv_store =
  fixes look :: "'s \<Rightarrow> 'k \<Rightarrow> 'v option"
    and put :: "'p \<Rightarrow> 's \<Rightarrow> 's"
    and del :: "'k \<Rightarrow> 's \<Rightarrow> 's"
    and key_of :: "'p \<Rightarrow> 'k"
    and val_of :: "'p \<Rightarrow> 'v"
  assumes look_put: "look (put p s) = (look s)(key_of p \<mapsto> val_of p)"
    and look_del: "look (del k s) = (look s)(k := None)"
begin

lemma look_puts:
  "look (fold put ps s) = look s ++ map_of (rev (map (\<lambda>p. (key_of p, val_of p)) ps))"
proof (induction ps arbitrary: s)
  case (Cons p ps)
  then show ?case by (auto simp: look_put map_add_def fun_eq_iff split: option.splits)
qed simp

lemma look_del_put: "look (del (key_of p) (put p s)) = (look s)(key_of p := None)"
  by (simp add: look_put look_del)

lemma look_put_swap:
  "key_of p \<noteq> key_of q \<Longrightarrow> look (put p (put q s)) = look (put q (put p s))"
  by (simp add: look_put fun_upd_twist)

end

type_synonym set_call = "actor_id \<times> key \<times> val \<times> int option \<times> int \<times> u64"

fun ms_set_call :: "set_call \<Rightarrow> (unit, 'cb mstore) prog" where
  "ms_set_call (a, k, v, ttl, t, wt) = bindP (ms_set a k v ttl t wt) (\<lambda>_. ret ())"

fun call_key :: "set_call \<Rightarrow> actor_id \<times> key" where
  "call_key (a, k, _) = (a, k)"

fun call_value :: "set_call \<Rightarrow> val" where
  "call_value (_, _, v, _) = v"

definition ms_values :: "'cb mstore \<Rightarrow> actor_id \<times> key \<Rightarrow> val option" where
  "ms_values s = (\<lambda>(a, k). map_option m_value (ms_find a k s))"

lemma ms_set_call_snd:
  "snd (ms_set_call (a, k, v, ttl, t, wt) s) = snd (ms_set a k v ttl t wt s)"
  by (simp add: bindP_def ret_def split: prod.splits outcome.splits)

interpretation ms_kv: kv_store ms_values "\<lambda>c s. snd (ms_set_call c s)" "\<lambda>(a, k) s. snd (ms_del a k s)"
  call_key call_value
proof unfold_locales
  fix c :: set_call and s :: "'cb mstore"
  obtain a k v ttl t wt where c: "c = (a, k, v, ttl, t, wt)" by (rule prod_cases6)
  obtain r s' where set: "ms_set a k v ttl t wt s = (r, s')" by (rule prod.exhaust)
  show "ms_values (snd (ms_set_call c s)) = (ms_values s)(call_key c \<mapsto> call_value c)"
    unfolding c ms_set_call_snd set
    by (auto simp: ms_values_def ms_find_set [OF set] fun_eq_iff)
next
  fix ak :: "actor_id \<times> key" and s :: "'cb mstore"
  show "ms_values ((\<lambda>(a, k) s. snd (ms_del a k s)) ak s) = (ms_values s)(ak := None)"
    by (cases ak) (auto simp: ms_values_def ms_find_del fun_eq_iff)
qed

section \<open>Properties of the map\<close>

lemma ms_version_set:
  "m_version (ms_entry a k (snd (ms_set a k v ttl t wt s))) = m_version (ms_entry a k s) + 1"
proof -
  obtain r s' where set: "ms_set a k v ttl t wt s = (r, s')" by (rule prod.exhaust)
  then show ?thesis by (simp add: ms_entry_def [of a k s'] ms_find_set [OF set])
qed

lemma ms_version_cas:
  "m_version (ms_entry a k (snd (ms_set_if_version a k v n t wt s))) =
    (if m_version (ms_entry a k s) = n then n + 1 else m_version (ms_entry a k s))"
  by (simp add: ms_entry_def [of a k "snd (ms_set_if_version a k v n t wt s)"] ms_find_cas)

lemma ms_get_result:
  "fst (ms_get a k t1 t2 s) = Ret (case ms_find a k s of
     None \<Rightarrow> None | Some e \<Rightarrow> if ms_expired t2 e then None else Some (m_value e))"
  by (simp add: ms_get_def split: option.splits)

lemma ms_values_get: "ms_values (snd (ms_get a k t1 t2 s)) = ms_values s"
  by (auto simp: ms_get_def ms_values_def fun_eq_iff split: option.splits)


text \<open>Reading back: after \<open>set\<close> with a time to live, \<open>get\<close> of that key returns the value up to
  and including the instant of expiry and nothing later; \<open>get\<close> of every other key returns
  what it returned before; and the version has gone up by one.\<close>

theorem ms_get_after_set:
  assumes "ms_set a k v (Some n) t wt s = (r, s')"
  shows "fst (ms_get a k t1 t2 s') = Ret (if t + n * 1000000000 < t2 then None else Some v) \<and>
    ((b, l) \<noteq> (a, k) \<longrightarrow> fst (ms_get b l t1 t2 s') = fst (ms_get b l t1 t2 s)) \<and>
    m_version (ms_entry a k s') = m_version (ms_entry a k s) + 1"
  using ms_version_set [of a k v "Some n" t wt s] assms
  by (auto simp: ms_get_result ms_find_set [OF assms] ms_expired_def)

definition ex_store :: "durability \<Rightarrow> string mstore" where
  "ex_store m = ms_new ex_wal ex_fs (tp_new 1) m 100 0"

theorem ms_get_after_set_witness:
  "\<exists>r s'. ms_set ''a'' ''k'' ''v'' (Some 2) 5 0 (ex_store WriteAhead) = (r, s') \<and>
     fst (ms_get ''a'' ''k'' 6 2000000005 s') = Ret (Some ''v'') \<and>
     fst (ms_get ''a'' ''k'' 6 2000000006 s') = Ret None"
proof -
  obtain r s' where set: "ms_set ''a'' ''k'' ''v'' (Some 2) 5 0 (ex_store WriteAhead) = (r, s')"
    by (rule prod.exhaust)
  show ?thesis
    using ms_get_after_set [OF set, of 6 2000000005 "[]" "[]"]
      ms_get_after_set [OF set, of 6 2000000006 "[]" "[]"] set
    by (intro exI [of _ r] exI [of _ s']) simp
qed

text \<open>A plain \<open>set\<close> keeps an old expiry time: writing a key whose entry carries an expiry
  time, without giving a time to live, stores the value under the old expiry, so if that has
  passed no \<open>get\<close> returns the value just acknowledged.\<close>

theorem ms_set_keeps_old_expiry:
  assumes "m_expires (ms_entry a k s) = Some x" and "x < t2"
    and "ms_set a k v None t wt s = (r, s')"
  shows "ms_values s' (a, k) = Some v \<and> fst (ms_get a k t1 t2 s') = Ret None"
  using assms(1,2) by (simp add: ms_get_result ms_find_set [OF assms(3)] ms_expired_def ms_values_def)

theorem ms_set_keeps_old_expiry_witness:
  "\<exists>r0 s r s'. ms_set ''a'' ''k'' ''old'' (Some 1) 0 0 (ex_store WriteAhead) = (r0, s) \<and>
     ms_set ''a'' ''k'' ''new'' None 3000000000 3000 s = (r, s') \<and>
     fst (ms_get ''a'' ''k'' 3000000001 3000000001 s') = Ret None"
proof -
  obtain r0 s where s0: "ms_set ''a'' ''k'' ''old'' (Some 1) 0 0 (ex_store WriteAhead) = (r0, s)"
    by (rule prod.exhaust)
  obtain r s' where s1: "ms_set ''a'' ''k'' ''new'' None 3000000000 3000 s = (r, s')"
    by (rule prod.exhaust)
  have "m_expires (ms_entry ''a'' ''k'' s) = Some 1000000000"
    by (simp add: ms_entry_def [of _ _ s] ms_find_set [OF s0])
  from ms_set_keeps_old_expiry [OF this _ s1, of 3000000001] s0 s1 show ?thesis by auto
qed

text \<open>\<open>set_if_version\<close> is a compare-and-swap: of two calls on one key with the same expected
  version, the second fails and leaves value and version as the first one set them, whatever
  happens to other keys; a call fails exactly when the version differs.\<close>

theorem ms_cas_exclusive:
  assumes "ms_set_if_version a k v n t wt s = (Ret True, s1)"
  shows "m_version (ms_entry a k s) = n \<and> m_version (ms_entry a k s1) = n + 1 \<and>
    fst (ms_set_if_version a k v2 n t2 wt2 s1) = Ret False \<and>
    ms_values (snd (ms_set_if_version a k v2 n t2 wt2 s1)) (a, k) = Some v"
proof -
  have old: "m_version (ms_entry a k s) = n"
    by (cases rule: ms_set_if_version_cases [of a k s n v t wt]) (use assms in auto)
  have new: "m_version (ms_entry a k s1) = n + 1" "m_value (ms_entry a k s1) = v"
    using ms_version_cas [of a k v n t wt s] ms_find_cas [of a k a k v n t wt s] assms old
    by (auto simp: ms_entry_def [of a k s1])
  then have "ms_set_if_version a k v2 n t2 wt2 s1 = (Ret False, ms_put a k (ms_entry a k s1) s1)"
    by (cases rule: ms_set_if_version_cases [of a k s1 n v2 t2 wt2]) auto
  with old new show ?thesis by (simp add: ms_values_def)
qed

text \<open>A failed \<open>set_if_version\<close> on a missing key creates it: the call reports failure, yet from
  then on \<open>get\<close> returns the empty string for a key nobody has written.\<close>

theorem ms_cas_creates_phantom:
  assumes "ms_values s (a, k) = None" and "n \<noteq> 0"
  shows "fst (ms_get a k t1 t2 s) = Ret None \<and>
    fst (ms_set_if_version a k v n t wt s) = Ret False \<and>
    fst (ms_get a k t1 t2 (snd (ms_set_if_version a k v n t wt s))) = Ret (Some [])"
proof -
  have none: "ms_find a k s = None" using assms(1) by (simp add: ms_values_def)
  then have e: "ms_entry a k s = meta_default" by (simp add: ms_entry_def)
  then have "ms_set_if_version a k v n t wt s = (Ret False, ms_put a k meta_default s)"
    using assms(2)
    by (cases rule: ms_set_if_version_cases [of a k s n v t wt]) (auto simp: meta_default_def)
  with none show ?thesis by (simp add: ms_get_result ms_expired_def meta_default_def)
qed

theorem ms_cas_creates_phantom_witness:
  "fst (ms_get ''a'' ''k'' 0 0 (snd (ms_set_if_version ''a'' ''k'' ''v'' 1 0 0 (ex_store WriteAhead)))) =
     Ret (Some [])"
proof -
  have "ms_values (ex_store WriteAhead) (''a'', ''k'') = None"
    by (simp add: ex_store_def ms_new_def ms_values_def ms_find_def)
  from ms_cas_creates_phantom [OF this, of 1] show ?thesis by simp
qed

theorem ms_cas_exclusive_witness:
  "\<exists>s1. ms_set_if_version ''a'' ''k'' ''v'' 0 0 0 (ex_store WriteAhead) = (Ret True, s1) \<and>
     fst (ms_set_if_version ''a'' ''k'' ''w'' 0 1 1 s1) = Ret False"
proof -
  obtain w f where a: "wal_append ''a'' ''k'' ''v'' 0 (ex_wal, ex_fs) = (Ret (), w, f)"
    using append_step [OF ex_wal_props(2,3)] by blast
  have "fst (ms_set_if_version ''a'' ''k'' ''v'' 0 0 0 (ex_store WriteAhead)) = Ret True"
    using a
    by (simp add: ms_defs ex_store_def ms_new_def ms_entry_def ms_find_def meta_default_def Let_def
        prog_simps tp_submit_def tp_new_def bq_push_def ms_put_def)
  then obtain s1 where cas: "ms_set_if_version ''a'' ''k'' ''v'' 0 0 0 (ex_store WriteAhead) = (Ret True, s1)"
    by (metis prod.collapse)
  from ms_cas_exclusive [OF this, of "''w''" 1 1] cas show ?thesis by blast
qed

section \<open>Failures of the log and durability\<close>

lemma ms_notify_ready:
  assumes "tp_ready (ms_pool s)"
  shows "\<exists>p'. ms_notify_subscribers a k v s = (Ret (), s\<lparr>ms_pool := p'\<rparr>) \<and>
    tp_accepted p' = tp_accepted (ms_pool s) @ [Notify a k v]"
  using tp_submit_ready [OF assms, of "Notify a k v"]
  by (auto simp: ms_notify_subscribers_def zoom_def)

lemma ms_set_entry_simps [simp]:
  "ms_mode (ms_set_entry a k v ttl t s) = ms_mode s" "ms_wal (ms_set_entry a k v ttl t s) = ms_wal s"
  "ms_fs (ms_set_entry a k v ttl t s) = ms_fs s" "ms_pool (ms_set_entry a k v ttl t s) = ms_pool s"
  "ms_subs (ms_set_entry a k v ttl t s) = ms_subs s" "ms_worker (ms_set_entry a k v ttl t s) = ms_worker s"
  by (simp_all add: ms_set_entry_def Let_def split: option.splits)

text \<open>When the log cannot be written, \<open>set\<close> throws after it has changed the store: the
  exception of \<open>append\<close> reaches the caller, \<open>get\<close> nevertheless returns the new value, the
  version has advanced, and no subscriber is ever told.\<close>

theorem ms_set_log_failure:
  assumes "ms_mode s = WriteAhead"
    and "wal_append a k v wt (ms_wal s, ms_fs s) = (Throw e, w, f)"
    and "ms_set a k v (Some n) t wt s = (r, s')" and "t2 \<le> t + n * 1000000000"
  shows "r = Throw e \<and> fst (ms_get a k t1 t2 s') = Ret (Some v) \<and>
    m_version (ms_entry a k s') = m_version (ms_entry a k s) + 1 \<and> ms_pool s' = ms_pool s"
proof -
  have "ms_log a k v wt (ms_set_entry a k v (Some n) t s) =
      (Throw e, (ms_set_entry a k v (Some n) t s)\<lparr>ms_wal := w, ms_fs := f\<rparr>)"
    using assms(1,2) by (simp add: ms_log_def ms_wal_append_def zoom_def)
  with assms(3) have "r = Throw e" "ms_pool s' = ms_pool s"
    by (auto simp: ms_set_publish ms_publish_def bindP_def)
  moreover have "fst (ms_get a k t1 t2 s') = Ret (Some v)"
    using assms(4) by (simp add: ms_get_result ms_find_set [OF assms(3)] ms_expired_def)
  moreover have "m_version (ms_entry a k s') = m_version (ms_entry a k s) + 1"
    using ms_version_set [of a k v "Some n" t wt s] assms(3) by simp
  ultimately show ?thesis by blast
qed

theorem ms_set_log_failure_witness:
  "\<exists>r s'. ms_set ''a'' ''k'' ''v'' (Some 1) 0 0
       ((ex_store WriteAhead)\<lparr>ms_wal := ex_wal\<lparr>w_path := ''m''\<rparr>\<rparr>) = (r, s') \<and>
     r = Throw (Filesystem_error ''m'') \<and> fst (ms_get ''a'' ''k'' 1 1 s') = Ret (Some ''v'')"
proof -
  let ?s = "(ex_store WriteAhead)\<lparr>ms_wal := ex_wal\<lparr>w_path := ''m''\<rparr>\<rparr>"
  obtain w f where a: "wal_append ''a'' ''k'' ''v'' 0 (ms_wal ?s, ms_fs ?s) =
      (Throw (Filesystem_error ''m''), w, f)"
    by (auto simp: ex_store_def ms_new_def ex_wal_def ex_fs_def wal_append_def wal_write_def Let_def
        prog_simps fs_size_def fs_content_def fs_write_def)
  obtain r s' where set: "ms_set ''a'' ''k'' ''v'' (Some 1) 0 0 ?s = (r, s')" by (rule prod.exhaust)
  have "ms_mode ?s = WriteAhead" by (simp add: ex_store_def ms_new_def)
  from ms_set_log_failure [OF this a set, of 1 1] set show ?thesis by auto
qed

text \<open>What the entries of a log say about the values, the later entry winning.\<close>

definition log_map :: "entry list \<Rightarrow> actor_id \<times> key \<Rightarrow> val option" where
  "log_map es = map_of (rev (map (\<lambda>e. ((e_actor e, e_key e), e_value e)) es))"

lemma log_map_simps [simp]:
  "log_map [] = Map.empty" "log_map (es @ [e]) = (log_map es)((e_actor e, e_key e) \<mapsto> e_value e)"
  by (simp_all add: log_map_def)

fun call_entry :: "set_call \<Rightarrow> append_call" where
  "call_entry (a, k, v, ttl, t, wt) = (a, k, v, wt)"

lemma ms_set_write_ahead:
  assumes "ms_mode s = WriteAhead" and "wal_rel (ms_wal s) (ms_fs s) sl" and "handler_total (ms_wal s)"
    and "ms_set a k v ttl t wt s = (r, s')"
  shows "wal_append a k v wt (ms_wal s, ms_fs s) = (Ret (), ms_wal s', ms_fs s')"
proof -
  from append_step [OF assms(2,3)] obtain w f where
    a: "wal_append a k v wt (ms_wal s, ms_fs s) = (Ret (), w, f)" by blast
  let ?s1 = "(ms_set_entry a k v ttl t s)\<lparr>ms_wal := w, ms_fs := f\<rparr>"
  have l: "ms_log a k v wt (ms_set_entry a k v ttl t s) = (Ret (), ?s1)"
    using a assms(1) by (simp add: ms_log_def ms_wal_append_def zoom_def)
  obtain x s2 where n: "ms_notify_subscribers a k v ?s1 = (x, s2)" by (rule prod.exhaust)
  have "s' = s2"
    using assms(4) l n by (auto simp: ms_set_publish ms_publish_def bindP_def ret_def split: outcome.splits)
  with ms_notify_frame [OF n] a show ?thesis by auto
qed

lemma ms_set_call_Ret:
  assumes "ms_set_call (a, k, v, ttl, t, wt) s = (Ret (), s')"
  shows "\<exists>r. ms_set a k v ttl t wt s = (Ret r, s')"
  using assms by (auto simp: bindP_eq_Ret ret_def)

lemma ms_sets_append:
  assumes "ms_mode s = WriteAhead" and "wal_rel (ms_wal s) (ms_fs s) sl" and "handler_total (ms_wal s)"
    and "seqP ms_set_call cs s = (Ret (), s')"
  shows "append_all (map call_entry cs) (ms_wal s, ms_fs s) = (Ret (), ms_wal s', ms_fs s')"
  using assms
proof (induction cs arbitrary: s sl)
  case (Cons c cs)
  obtain a k v ttl t wt where c: "c = (a, k, v, ttl, t, wt)" by (rule prod_cases6)
  obtain r s1 where call: "ms_set_call c s = (r, s1)" by (rule prod.exhaust)
  with Cons.prems(4) have r: "r = Ret ()" and rest: "seqP ms_set_call cs s1 = (Ret (), s')"
    by (cases r; simp)+
  from ms_set_call_Ret call [unfolded c r] obtain x where set: "ms_set a k v ttl t wt s = (Ret x, s1)"
    by blast
  have app: "wal_append a k v wt (ms_wal s, ms_fs s) = (Ret (), ms_wal s1, ms_fs s1)"
    by (rule ms_set_write_ahead [OF Cons.prems(1-3) set])
  let ?sl1 = "seg_append (w_max (ms_wal s)) (next_entry (ms_wal s) a k v wt) sl"
  from append_step [OF Cons.prems(2,3), of a k v wt] app
  have sl1: "wal_rel (ms_wal s1) (ms_fs s1) ?sl1" "w_handler (ms_wal s1) = w_handler (ms_wal s)" by auto
  have "ms_mode s1 = WriteAhead" using ms_set_store [OF set] Cons.prems(1) by simp
  moreover have "handler_total (ms_wal s1)" using Cons.prems(3) sl1(2) by (simp add: handler_total_def)
  ultimately have "append_all (map call_entry cs) (ms_wal s1, ms_fs s1) = (Ret (), ms_wal s', ms_fs s')"
    using Cons.IH [OF _ sl1(1)] rest by blast
  with app c show ?case by (simp add: append_all_def)
qed simp

lemma seqP_fold_snd:
  "seqP f xs s = (Ret (), s') \<Longrightarrow> s' = fold (\<lambda>x s. snd (f x s)) xs s"
proof (induction xs arbitrary: s)
  case (Cons x xs)
  obtain r s1 where "f x s = (r, s1)" by (rule prod.exhaust)
  with Cons show ?case by (cases r) simp_all
qed simp

lemma log_map_entries:
  "log_map (entries_from n (map call_entry cs)) =
     map_of (rev (map (\<lambda>c. (call_key c, call_value c)) cs))"
proof -
  have "map (\<lambda>e. ((e_actor e, e_key e), e_value e)) (entries_from n (map call_entry cs)) =
      map (\<lambda>c. (call_key c, call_value c)) cs"
  proof (induction cs arbitrary: n)
    case (Cons c cs)
    obtain a k v ttl t wt where "c = (a, k, v, ttl, t, wt)" by (rule prod_cases6)
    with Cons show ?case by simp
  qed simp
  then show ?thesis by (simp add: log_map_def)
qed

lemma log_map_append: "log_map (es @ es') = log_map es ++ log_map es'"
  by (simp add: log_map_def map_add_def fun_eq_iff map_of_append split: option.splits)


lemma ex_store_props:
  "ms_mode (ex_store m) = m" "ms_wal (ex_store m) = ex_wal" "ms_fs (ex_store m) = ex_fs"
  "ms_values (ex_store m) = Map.empty" "tp_ready (ms_pool (ex_store m))"
  "ms_subs (ex_store m) = su_new" "ms_ttl (ex_store m) = tsl_new"
  by (auto simp: ex_store_def ms_new_def ms_values_def ms_find_def tp_ready_def tp_new_def fun_eq_iff)

lemma ms_set_good:
  assumes "ms_mode s = WriteAhead" and "wal_rel (ms_wal s) (ms_fs s) sl" and "handler_total (ms_wal s)"
    and "tp_ready (ms_pool s)"
  shows "\<exists>s'. ms_set a k v ttl t wt s = (Ret True, s') \<and>
    tp_accepted (ms_pool s') = tp_accepted (ms_pool s) @ [Notify a k v] \<and> ms_subs s' = ms_subs s"
proof -
  from append_step [OF assms(2,3)] obtain w f where
    a: "wal_append a k v wt (ms_wal s, ms_fs s) = (Ret (), w, f)" by blast
  let ?s1 = "(ms_set_entry a k v ttl t s)\<lparr>ms_wal := w, ms_fs := f\<rparr>"
  have l: "ms_log a k v wt (ms_set_entry a k v ttl t s) = (Ret (), ?s1)"
    using a assms(1) by (simp add: ms_log_def ms_wal_append_def zoom_def)
  have "tp_ready (ms_pool ?s1)" using assms(4) by simp
  from ms_notify_ready [OF this, of a k v] obtain p' where
    "ms_notify_subscribers a k v ?s1 = (Ret (), ?s1\<lparr>ms_pool := p'\<rparr>)"
    "tp_accepted p' = tp_accepted (ms_pool s) @ [Notify a k v]" by auto
  with l show ?thesis
    by (intro exI [of _ "?s1\<lparr>ms_pool := p'\<rparr>"]) (simp add: ms_set_publish ms_publish_def ret_def)
qed


text \<open>\<open>del\<close> is not logged: it leaves the log file as it is, so a deleted key comes back when
  the store is rebuilt from a log that described it.\<close>

theorem ms_del_not_logged:
  assumes "fs_content (w_path (ms_wal s)) (ms_fs s) = Some (log_text es)"
    and "ms_values s = log_map es" and "ms_values s (a, k) = Some v" and "ms_del a k s = (r, s')"
  shows "r = Ret True \<and> ms_values s' (a, k) = None \<and>
    fs_content (w_path (ms_wal s')) (ms_fs s') = Some (log_text es) \<and> log_map es (a, k) = Some v"
proof -
  have "r = Ret True" using ms_find_del(1) [of a k s] assms(3,4) by (auto simp: ms_values_def)
  moreover have "ms_values s' (a, k) = None"
    using ms_kv.look_del [of "(a, k)" s] assms(4) by simp
  moreover have "ms_wal s' = ms_wal s" "ms_fs s' = ms_fs s"
    using assms(4) by (auto simp: ms_del_def split: option.splits)
  ultimately show ?thesis using assms(1-3) by simp
qed

theorem ms_del_not_logged_witness:
  "\<exists>(s :: string mstore) r s'. ms_values s = [(''a'', ''k'') \<mapsto> ''1''] \<and> ms_del ''a'' ''k'' s = (r, s') \<and>
     ms_values s' (''a'', ''k'') = None \<and>
     fs_content ''l'' (ms_fs s') = Some (log_text [\<lparr>e_seq = 1, e_actor = ''a'', e_key = ''k'',
       e_value = ''1'', e_ts = 5\<rparr>])"
proof -
  let ?e = "\<lparr>e_seq = 1, e_actor = ''a'', e_key = ''k'', e_value = ''1'', e_ts = 5\<rparr>"
  let ?s = "ms_put ''a'' ''k'' (meta_default\<lparr>m_value := ''1''\<rparr>)
    ((ex_store WriteAhead)\<lparr>ms_fs := ex_fs\<lparr>fs_data := (\<lambda>_. log_text [?e])\<rparr>\<rparr>)"
  have stored: "fs_content (w_path (ms_wal ?s)) (ms_fs ?s) = Some (log_text [?e])"
    by (simp add: ex_store_props ex_wal_props fs_content_def ex_fs_def del: log_text_simps)
  have vals: "ms_values ?s = [(''a'', ''k'') \<mapsto> ''1'']"
    by (auto simp: ms_values_def ms_find_def ms_put_def ex_store_def ms_new_def fun_eq_iff)
  then have "ms_values ?s = log_map [?e]" "ms_values ?s (''a'', ''k'') = Some ''1''"
    by (simp_all add: log_map_def)
  moreover obtain r s' where del: "ms_del ''a'' ''k'' ?s = (r, s')" by (rule prod.exhaust)
  ultimately have "ms_values s' (''a'', ''k'') = None"
    "fs_content (w_path (ms_wal s')) (ms_fs s') = Some (log_text [?e])"
    using ms_del_not_logged [OF stored] by blast+
  moreover have "ms_wal s' = ms_wal ?s" using del by (auto simp: ms_del_def split: option.splits)
  then have "w_path (ms_wal s') = ''l''" by (simp add: ex_store_props ex_wal_props)
  ultimately show ?thesis using vals del by (intro exI [of _ ?s] exI [of _ r] exI [of _ s']) simp
qed

text \<open>Write-behind acknowledges before it persists: in that mode a \<open>set\<close> that returns has
  changed neither the log nor any file; its record waits at the end of the worker's queue.\<close>

theorem ms_write_behind_acknowledges_early:
  assumes "ms_mode s = WriteBehind" and "ms_worker s = Some b" and "wb_inv b"
    and "ms_set a k v ttl t wt s = (Ret True, s')"
  shows "ms_wal s' = ms_wal s \<and> ms_fs s' = ms_fs s \<and>
    (\<exists>b'. ms_worker s' = Some b' \<and>
       pending b' = pending b @ [\<lparr>d_actor = a, d_key = k, d_value = v\<rparr>])"
proof -
  let ?s0 = "ms_set_entry a k v ttl t s" and ?d = "\<lparr>d_actor = a, d_key = k, d_value = v\<rparr>"
  obtain s1 s2 where l: "ms_log a k v wt ?s0 = (Ret (), s1)"
    and n: "ms_notify_subscribers a k v s1 = (Ret (), s2)" and s': "s' = s2"
    using assms(4) by (auto simp: ms_set_publish ms_publish_def bindP_eq_Ret ret_def)
  obtain r b' w' f' where e: "wb_enqueue ?d (b, ms_wal s, ms_fs s) = (r, b', w', f')"
    by (metis prod_cases4)
  with l assms(1,2) have "r = Ret ()" "s1 = ?s0\<lparr>ms_worker := Some b', ms_wal := w', ms_fs := f'\<rparr>"
    by (auto simp: ms_log_def ms_write_behind_append_def)
  moreover from enqueue_step [OF assms(3) e [unfolded \<open>r = Ret ()\<close>]]
  have "pending b' = pending b @ [?d]" "w' = ms_wal s" "f' = ms_fs s" by simp_all
  ultimately show ?thesis using s' ms_notify_frame [OF n] by auto
qed

text \<open>Back pressure: in write-behind mode with a worker that no longer takes records (it has
  stopped, or is stuck on its own lock), the thousand-and-first pending record makes \<open>set\<close>
  wait without end inside \<open>Push\<close>, while it holds the exclusive lock of the store and after it
  has changed the value.\<close>

theorem ms_set_blocks_on_full_queue:
  assumes "ms_mode s = WriteBehind" and "ms_worker s = Some b"
    and "wb_queue b = q" and "\<not> bq_stopped q" and "bq_policy q = Block"
    and "bq_max q \<le> length (bq_items q)"
    and "ms_set a k v ttl t wt s = (r, s')"
  shows "r = Blocked \<and> ms_values s' (a, k) = Some v \<and> ms_worker s' = Some b"
proof -
  have "b\<lparr>wb_queue := q\<rparr> = b" using assms(3) by (metis worker.surjective worker.update_convs(3))
  then have "ms_log a k v wt (ms_set_entry a k v ttl t s) =
      (Blocked, (ms_set_entry a k v ttl t s)\<lparr>ms_worker := Some b\<rparr>)"
    using assms(1-6) by (simp add: ms_log_def ms_write_behind_append_def wb_enqueue_def zoom_def bq_push_def)
  then have "r = Blocked \<and> ms_worker s' = Some b"
    using assms(7) by (auto simp: ms_set_publish ms_publish_def bindP_def)
  with ms_find_set [OF assms(7), of a k] show ?thesis by (simp add: ms_values_def)
qed

lemma ex_behind_worker: "ms_worker (ex_store WriteBehind) = Some (wb_start 0 (wb_new 100))"
  by (simp add: ex_store_def ms_new_def)

theorem ms_write_behind_acknowledges_early_witness:
  "\<exists>s' b'. ms_set ''a'' ''k'' ''v'' None 5 5 (ex_store WriteBehind) = (Ret True, s') \<and>
     ms_fs s' = ex_fs \<and> ms_worker s' = Some b' \<and>
     pending b' = [\<lparr>d_actor = ''a'', d_key = ''k'', d_value = ''v''\<rparr>]"
proof -
  note p = ex_store_props [of WriteBehind]
  have inv: "wb_inv (wb_start 0 (wb_new 100))" "pending (wb_start 0 (wb_new 100)) = []"
    by (simp_all add: wb_start_def wb_inv_def pending_def wb_new_def)
  have "fst (ms_set ''a'' ''k'' ''v'' None 5 5 (ex_store WriteBehind)) = Ret True"
    by (simp add: ms_defs ex_store_def ms_new_def ms_entry_def ms_find_def meta_default_def Let_def
        prog_simps tp_submit_def tp_new_def bq_push_def ms_put_def wb_enqueue_def wb_start_def wb_new_def)
  then obtain s' where set: "ms_set ''a'' ''k'' ''v'' None 5 5 (ex_store WriteBehind) = (Ret True, s')"
    by (metis prod.collapse)
  from ms_write_behind_acknowledges_early [OF p(1) ex_behind_worker inv(1) set] inv(2) p set
  show ?thesis by auto
qed

theorem ms_set_blocks_on_full_queue_witness:
  "\<exists>s r s'. ms_set ''a'' ''k'' ''v'' None 5 5 s = (r, s') \<and> r = Blocked \<and>
     ms_values (s :: string mstore) (''a'', ''k'') = None \<and> ms_values s' (''a'', ''k'') = Some ''v''"
proof -
  define q where "q = (bq_new 1000 Block)\<lparr>bq_items :=
    replicate 1000 \<lparr>d_actor = ''a'', d_key = ''k'', d_value = ''x''\<rparr>, bq_size := 1000\<rparr>"
  define b where "b = (wb_new 100)\<lparr>wb_queue := q\<rparr>"
  let ?s = "(ex_store WriteBehind)\<lparr>ms_worker := Some b\<rparr>"
  obtain r s' where set: "ms_set ''a'' ''k'' ''v'' None 5 5 ?s = (r, s')" by (rule prod.exhaust)
  have q: "wb_queue b = q" "\<not> bq_stopped q" "bq_policy q = Block" "bq_max q \<le> length (bq_items q)"
    by (simp_all add: b_def q_def bq_new_def)
  have "ms_mode ?s = WriteBehind" "ms_worker ?s = Some b" by (simp_all add: ex_store_props)
  from ms_set_blocks_on_full_queue [OF this q set] set
  have "r = Blocked" "ms_values s' (''a'', ''k'') = Some ''v''" by blast+
  moreover have "ms_values ?s (''a'', ''k'') = None"
    by (simp add: ex_store_def ms_new_def ms_values_def ms_find_def)
  ultimately show ?thesis using set by blast
qed

section \<open>Notification\<close>

lemma run_job_eq:
  assumes "su_inv (ms_subs s)"
  shows "ms_run_job call (Notify a k v) s x =
    seqP (\<lambda>w. case wr_cb w of None \<Rightarrow> ret () | Some (b, c) \<Rightarrow> call c b k v) (subs_of (ms_subs s) a) x"
proof -
  have "(\<lambda>w. case wr_cb w of None \<Rightarrow> ret () | Some cb \<Rightarrow> (case cb of (b, c) \<Rightarrow> call c b k v)) =
      (\<lambda>w. case wr_cb w of None \<Rightarrow> ret () | Some (b, c) \<Rightarrow> call c b k v)"
    by (simp add: fun_eq_iff split: option.splits)
  with notify_step [OF assms, of a] show ?thesis by (simp add: ms_run_job_def)
qed

text \<open>A subscriber hears of every later write: after \<open>subscribe\<close> returns, a \<open>set\<close> of the same
  actor submits exactly one job to the pool, and running that job calls the new callback with
  actor, key and value first and then the older subscribers of the actor, newest first.\<close>

theorem ms_set_notifies:
  assumes "su_inv (ms_subs s)" and "next_sub_id (ms_subs s) a \<noteq> - 1"
    and "ms_mode s = WriteAhead" and "wal_rel (ms_wal s) (ms_fs s) sl" and "handler_total (ms_wal s)"
    and "tp_ready (ms_pool s)"
    and "ms_subscribe a cb s = (r0, s1)" and "ms_set a k v ttl t wt s1 = (r, s2)"
  shows "r0 = Ret (next_sub_id (ms_subs s) a) \<and> r = Ret True \<and>
    tp_accepted (ms_pool s2) = tp_accepted (ms_pool s) @ [Notify a k v] \<and>
    ms_run_job call (Notify a k v) s2 x =
      seqP (\<lambda>w. case wr_cb w of None \<Rightarrow> ret () | Some (b, c) \<Rightarrow> call c b k v)
        (\<lparr>wr_id = next_sub_id (ms_subs s) a, wr_cb = Some (a, cb)\<rparr> # subs_of (ms_subs s) a) x"
proof -
  from subscribe_step [OF assms(1,2), of "Some (a, cb)"] obtain u where
    u: "su_subscribe a (Some (a, cb)) (ms_subs s) = (Ret (next_sub_id (ms_subs s) a), u)" "su_inv u"
    "subs_of u = (subs_of (ms_subs s))(a :=
       \<lparr>wr_id = next_sub_id (ms_subs s) a, wr_cb = Some (a, cb)\<rparr> # subs_of (ms_subs s) a)" by blast
  with assms(7) have s1: "r0 = Ret (next_sub_id (ms_subs s) a)" "s1 = s\<lparr>ms_subs := u\<rparr>"
    by (simp_all add: ms_subscribe_def zoom_def)
  have "\<exists>s'. ms_set a k v ttl t wt s1 = (Ret True, s') \<and>
      tp_accepted (ms_pool s') = tp_accepted (ms_pool s1) @ [Notify a k v] \<and> ms_subs s' = ms_subs s1"
    by (rule ms_set_good) (use s1 assms(3-6) in simp_all)
  with assms(8) s1 have "r = Ret True" "ms_subs s2 = u"
    "tp_accepted (ms_pool s2) = tp_accepted (ms_pool s) @ [Notify a k v]" by auto
  with s1 u run_job_eq [of s2 call a k v x] show ?thesis by simp
qed

theorem ms_set_notifies_witness:
  "\<exists>r0 s1 r s2. ms_subscribe ''a'' ''cb'' (ex_store WriteAhead) = (r0, s1) \<and>
     ms_set ''a'' ''k'' ''v'' None 5 5 s1 = (r, s2) \<and> r = Ret True \<and>
     ms_run_job (\<lambda>c b k v log. (Ret (), log @ [(c, b, k, v)])) (Notify ''a'' ''k'' ''v'') s2 [] =
       (Ret (), [(''cb'', ''a'', ''k'', ''v'')])"
proof -
  note p = ex_store_props [of WriteAhead]
  obtain r0 s1 where sub: "ms_subscribe ''a'' ''cb'' (ex_store WriteAhead) = (r0, s1)"
    by (rule prod.exhaust)
  obtain r s2 where set: "ms_set ''a'' ''k'' ''v'' None 5 5 s1 = (r, s2)" by (rule prod.exhaust)
  have "su_inv (ms_subs (ex_store WriteAhead))" "next_sub_id (ms_subs (ex_store WriteAhead)) ''a'' \<noteq> - 1"
    "wal_rel (ms_wal (ex_store WriteAhead)) (ms_fs (ex_store WriteAhead)) ([], None)"
    "handler_total (ms_wal (ex_store WriteAhead))"
    unfolding p using ex_wal_props(2,3) by simp_all
  from ms_set_notifies [OF this(1,2) p(1) this(3,4) p(5) sub set,
      of "\<lambda>c b k v log. (Ret (), log @ [(c, b, k, v)])" "[]"] sub set
  show ?thesis by (simp add: p)
qed

section \<open>Expiry\<close>

text \<open>Every entry that has an expiry time is in the index that \<open>cleanup_expired\<close> walks.\<close>

definition ms_ttl_inv :: "'cb mstore \<Rightarrow> bool" where
  "ms_ttl_inv s \<longleftrightarrow> tsl_inv (ms_ttl s) \<and>
     (\<forall>a k e. ms_find a k s = Some e \<longrightarrow> m_expires e \<noteq> None \<longrightarrow> (a, k) \<in> set (contents (ms_ttl s)))"

lemma ms_entry_expires:
  "ms_ttl_inv s \<Longrightarrow> m_expires (ms_entry a k s) \<noteq> None \<Longrightarrow> (a, k) \<in> set (contents (ms_ttl s))"
  by (auto simp: ms_ttl_inv_def ms_entry_def meta_default_def split: option.splits)

lemma ms_ttl_put:
  assumes "ms_ttl_inv s" and "m_expires e \<noteq> None \<longrightarrow> (a, k) \<in> set (contents (ms_ttl s))"
  shows "ms_ttl_inv (ms_put a k e s)"
  using assms by (auto simp: ms_ttl_inv_def)

lemma ms_ttl_cong:
  assumes "ms_store s' = ms_store s" and "ms_ttl s' = ms_ttl s"
  shows "ms_ttl_inv s' = ms_ttl_inv s"
  by (simp add: ms_ttl_inv_def assms(2) ms_find_cong [OF assms(1)])

lemma ms_ttl_set_entry:
  assumes "ms_ttl_inv s"
  shows "ms_ttl_inv (ms_set_entry a k v ttl t s)"
proof (cases ttl)
  case None
  have "ms_ttl_inv (ms_put a k ((ms_entry a k s)\<lparr>m_value := v,
      m_version := m_version (ms_entry a k s) + 1, m_created := t, m_accessed := t\<rparr>) s)"
    by (rule ms_ttl_put [OF assms]) (use ms_entry_expires [OF assms] in simp)
  with None show ?thesis by (simp add: ms_set_entry_def Let_def)
next
  case (Some n)
  with assms show ?thesis
    by (auto simp: ms_ttl_inv_def ms_set_entry_def Let_def)
qed

text \<open>The expiry index is complete: on a store where every entry with an expiry time is in
  \<open>ttl_index_\<close>, every operation keeps it so, whatever its outcome; the empty store has the
  property.\<close>

theorem ms_ttl_index_complete:
  assumes "ms_ttl_inv s"
  shows "ms_ttl_inv (snd (ms_set a k v ttl t wt s)) \<and> ms_ttl_inv (snd (ms_get a k t t2 s)) \<and>
    ms_ttl_inv (snd (ms_del a k s)) \<and> ms_ttl_inv (snd (ms_set_if_version a k v n t wt s)) \<and>
    ms_ttl_inv (ms_new w f p m sz t0)"
proof (intro conjI)
  obtain r s' where set: "ms_set a k v ttl t wt s = (r, s')" by (rule prod.exhaust)
  with ms_set_store [OF set] ms_ttl_set_entry [OF assms] ms_ttl_cong
  show "ms_ttl_inv (snd (ms_set a k v ttl t wt s))" by (metis snd_conv)
  show "ms_ttl_inv (snd (ms_get a k t t2 s))"
    using assms by (auto simp: ms_get_def ms_ttl_inv_def split: option.splits)
  have "ms_ttl (snd (ms_del a k s)) = ms_ttl s" by (simp add: ms_del_def split: option.splits)
  then show "ms_ttl_inv (snd (ms_del a k s))"
    using assms by (auto simp: ms_ttl_inv_def ms_find_del split: if_splits)
  let ?e = "ms_entry a k s"
  have e: "m_expires ?e \<noteq> None \<longrightarrow> (a, k) \<in> set (contents (ms_ttl s))"
    using ms_entry_expires [OF assms] by blast
  have p: "ms_ttl_inv (ms_put a k ?e s)" using ms_ttl_put [OF assms e] .
  show "ms_ttl_inv (snd (ms_set_if_version a k v n t wt s))"
  proof (cases rule: ms_set_if_version_cases [of a k s n v t wt])
    case 1
    with p show ?thesis by simp
  next
    case 2
    let ?s1 = "ms_put a k (?e\<lparr>m_value := v, m_version := n + 1, m_accessed := t\<rparr>) (ms_put a k ?e s)"
    have "ms_ttl_inv ?s1" by (rule ms_ttl_put [OF p]) (use e in simp)
    moreover obtain x s2 where "ms_publish a k v wt ?s1 = (x, s2)" by (rule prod.exhaust)
    ultimately show ?thesis using 2 ms_publish_frame ms_ttl_cong by (metis snd_conv)
  qed
  show "ms_ttl_inv (ms_new w f p m sz t0)" by (simp add: ms_ttl_inv_def ms_new_def ms_find_def)
qed

theorem ms_ttl_index_complete_witness:
  "ms_ttl_inv (snd (ms_set ''a'' ''k'' ''v'' (Some 1) 0 0 (ex_store WriteAhead)))"
proof -
  have "ms_ttl_inv (ex_store WriteAhead)" by (simp add: ms_ttl_inv_def ex_store_def ms_new_def ms_find_def)
  from ms_ttl_index_complete [OF this] show ?thesis by blast
qed

definition fresh_in :: "(nat \<Rightarrow> int) \<Rightarrow> table \<Rightarrow> actor_id \<times> key \<Rightarrow> bool" where
  "fresh_in clock st = (\<lambda>(a, k). \<exists>e. Option.bind (st a) (\<lambda>m. m k) = Some e \<and>
     (\<forall>x. m_expires e = Some x \<longrightarrow> (\<exists>n. clock n \<le> x)))"

lemma first_hit_stale:
  "first_hit (ms_stale clock) xs (st, n) = (False, s') \<Longrightarrow>
     fst s' = st \<and> (\<forall>ak \<in> set xs. fresh_in clock st ak)"
proof (induction xs arbitrary: n)
  case (Cons ak xs)
  obtain a k where ak: "ak = (a, k)" by (cases ak)
  from Cons.prems ak obtain m e where e: "st a = Some m" "m k = Some e"
    by (auto simp: ms_stale_def split: option.splits)
  show ?case
  proof (cases "m_expires e")
    case None
    with Cons.prems ak e have "first_hit (ms_stale clock) xs (st, n) = (False, s')"
      by (simp add: ms_stale_def)
    with Cons.IH [OF this] ak e None show ?thesis by (simp add: fresh_in_def)
  next
    case (Some x)
    with Cons.prems ak e have x: "\<not> x < clock n" by (auto simp: ms_stale_def)
    with Some Cons.prems ak e have "first_hit (ms_stale clock) xs (st, Suc n) = (False, s')"
      by (simp add: ms_stale_def)
    with Cons.IH [OF this] ak e Some x show ?thesis by (auto simp: fresh_in_def not_less)
  qed
qed auto

lemma first_hit_fresh:
  assumes "\<forall>ak \<in> set xs. \<forall>i. fresh_in (\<lambda>_. clock i) st ak"
  shows "fst (first_hit (ms_stale clock) xs (st, n)) = False"
  using assms
proof (induction xs arbitrary: n)
  case (Cons ak xs)
  obtain a k where ak: "ak = (a, k)" by (cases ak)
  with Cons.prems obtain m e where e: "st a = Some m" "m k = Some e"
    by (auto simp: fresh_in_def bind_eq_Some_conv)
  have "\<not> x < clock i" if "m_expires e = Some x" for x i
    using Cons.prems that e ak by (auto simp: fresh_in_def not_less)
  with Cons e ak show ?case by (auto simp: ms_stale_def split: option.splits)
qed simp

text \<open>\<open>cleanup_expired\<close> never cleans up: as soon as one entry of the store has expired (then its
  key is in the index), it goes on through a list node it has just freed.\<close>

theorem ms_cleanup_uaf:
  assumes "ms_ttl_inv s" and "ms_find a k s = Some e" and "m_expires e = Some x" and "\<forall>i. x < clock i"
  shows "fst (ms_cleanup_expired clock s) = Undef Use_after_free"
proof -
  have idx: "(a, k) \<in> set (contents (ms_ttl s))" and inv: "tsl_inv (ms_ttl s)"
    using assms(1-3) by (auto simp: ms_ttl_inv_def)
  have stale: "\<not> fresh_in clock (ms_store s) (a, k)"
    using assms(2-4) by (auto simp: fresh_in_def ms_find_def not_le)
  obtain b st' where hit: "first_hit (ms_stale clock) (contents (ms_ttl s)) (ms_store s, 0) = (b, st')"
    by (rule prod.exhaust)
  then have b using first_hit_stale [of clock "contents (ms_ttl s)" "ms_store s" 0 st'] idx stale
    by (cases b) auto
  with hit have "first_hit (ms_stale clock) (contents (ms_ttl s)) (ms_store s, 0) = (True, st')" by simp
  from remove_if_uaf(1) [OF inv this]
  have "fst (tsl_remove_if (ms_stale clock) (ms_ttl s, ms_store s, 0)) = Undef Use_after_free" .
  moreover obtain r l st n where "tsl_remove_if (ms_stale clock) (ms_ttl s, ms_store s, 0) = (r, l, st, n)"
    by (metis prod_cases4)
  ultimately show ?thesis by (simp add: ms_cleanup_expired_def)
qed

lemma ms_cleanup_noop:
  assumes "tsl_inv (ms_ttl s)"
    and "\<forall>ak \<in> set (contents (ms_ttl s)). \<forall>i. fresh_in (\<lambda>_. clock i) (ms_store s) ak"
  shows "ms_cleanup_expired clock s = (Ret (), s)"
proof -
  obtain b st' where hit: "first_hit (ms_stale clock) (contents (ms_ttl s)) (ms_store s, 0) = (b, st')"
    by (rule prod.exhaust)
  with first_hit_fresh [OF assms(2), of 0]
  have ok: "first_hit (ms_stale clock) (contents (ms_ttl s)) (ms_store s, 0) = (False, st')" by simp
  then obtain n where "st' = (ms_store s, n)" using first_hit_stale [OF ok] by (cases st') simp
  with remove_if_ok [OF assms(1) ok] show ?thesis by (simp add: ms_cleanup_expired_def)
qed

theorem ms_cleanup_uaf_witness:
  "\<exists>r s. ms_set ''a'' ''k'' ''v'' (Some 1) 0 0 (ex_store WriteAhead) = (r, s) \<and>
     fst (ms_cleanup_expired (\<lambda>i. 2000000000 + int i) s) = Undef Use_after_free"
proof -
  obtain r s where set: "ms_set ''a'' ''k'' ''v'' (Some 1) 0 0 (ex_store WriteAhead) = (r, s)"
    by (rule prod.exhaust)
  have "ms_ttl_inv (ms_set_entry ''a'' ''k'' ''v'' (Some 1) 0 (ex_store WriteAhead))"
    by (rule ms_ttl_set_entry) (simp add: ms_ttl_inv_def ex_store_def ms_new_def ms_find_def)
  with ms_set_store [OF set] ms_ttl_cong have inv: "ms_ttl_inv s" by metis
  let ?e = "\<lparr>m_value = ''v'', m_version = m_version (ms_entry ''a'' ''k'' (ex_store WriteAhead)) + 1,
    m_created = 0, m_accessed = 0, m_expires = Some 1000000000\<rparr>"
  have "ms_find ''a'' ''k'' s = Some ?e" by (simp add: ms_find_set [OF set])
  from ms_cleanup_uaf [OF inv this, of 1000000000 "\<lambda>i. 2000000000 + int i"] set show ?thesis by auto
qed

end
