(* ===== verification/Actor_Lifecycle.thy ===== *)
theory Actor_Lifecycle
  imports Mem_Store
begin

text \<open>
  \<^verbatim>\<open>src/actor_lifecycle.h\<close> and \<^verbatim>\<open>src/actor_lifecycle.cpp\<close>: which actors are active, with
  hooks around spawning and termination. \<open>mutex_\<close> is not recursive; the model keeps its owner,
  and every operation takes the identifier of the thread that runs it: locking a mutex one
  owns is \<open>Relock\<close>, locking one that another thread owns is \<open>Blocked\<close>. The store is shared
  with other objects, so it is a second component of the state. Hooks are client code; they do
  not call back into the lifecycle.
\<close>

section \<open>State and locking\<close>

datatype hook = Pre_Spawn | Post_Spawn | Pre_Terminate | Post_Terminate

text \<open>
  \<open>lc_active\<close> is the unordered set as a list without repetitions; \<open>lc_has_store\<close> says whether
  \<open>store_\<close> is non-null; \<open>lc_calls\<close> records the calls of hooks.
\<close>

record lifecycle =
  lc_owner :: "nat option"
  lc_active :: "actor_id list"
  lc_has_store :: bool
  lc_hooks :: "hook \<Rightarrow> (actor_id \<Rightarrow> unit outcome) option"
  lc_calls :: "(hook \<times> actor_id) list"

type_synonym ('a, 'cb) lc_prog = "('a, lifecycle \<times> 'cb mstore) prog"

definition lc_new :: "bool \<Rightarrow> lifecycle" where
  "lc_new has_store =
     \<lparr>lc_owner = None, lc_active = [], lc_has_store = has_store, lc_hooks = (\<lambda>_. None), lc_calls = []\<rparr>"

text \<open>A \<open>lock_guard\<close> on \<open>mutex_\<close>: released when the block returns or throws.\<close>

definition lc_locked :: "nat \<Rightarrow> ('a, 'cb) lc_prog \<Rightarrow> ('a, 'cb) lc_prog" where
  "lc_locked t m = (\<lambda>(l, s).
     (case lc_owner l of
        Some u \<Rightarrow> (if u = t then Undef Relock else Blocked, l, s)
      | None \<Rightarrow> (case m (l\<lparr>lc_owner := Some t\<rparr>, s) of
          (r, l', s') \<Rightarrow> (r, (case r of Ret _ \<Rightarrow> l'\<lparr>lc_owner := None\<rparr> | Throw _ \<Rightarrow> l'\<lparr>lc_owner := None\<rparr>
                            | _ \<Rightarrow> l'), s'))))"

section \<open>Operations\<close>

text \<open>The regular expression \<open>^[a-zA-Z0-9_-]{1,64}$\<close>, matched against the whole string.\<close>

definition id_char :: "char \<Rightarrow> bool" where
  "id_char c \<longleftrightarrow> (let n = of_char c :: nat in 97 \<le> n \<and> n \<le> 122 \<or> 65 \<le> n \<and> n \<le> 90 \<or>
     48 \<le> n \<and> n \<le> 57 \<or> n = 95 \<or> n = 45)"

definition lc_validate :: "actor_id \<Rightarrow> bool" where
  "lc_validate a \<longleftrightarrow> 1 \<le> length a \<and> length a \<le> 64 \<and> list_all id_char a"

definition lc_execute_hook :: "hook \<Rightarrow> actor_id \<Rightarrow> (unit, 'cb) lc_prog" where
  "lc_execute_hook h a = (\<lambda>(l, s).
     (case lc_hooks l h of
        None \<Rightarrow> (Ret (), l, s)
      | Some f \<Rightarrow> (case f a of Throw _ \<Rightarrow> Ret () | r \<Rightarrow> r, l\<lparr>lc_calls := lc_calls l @ [(h, a)]\<rparr>, s)))"

definition lc_actor_exists :: "nat \<Rightarrow> actor_id \<Rightarrow> (bool, 'cb) lc_prog" where
  "lc_actor_exists t a = lc_locked t (gets (\<lambda>(l, s). a \<in> set (lc_active l)))"

definition lc_is_active :: "nat \<Rightarrow> actor_id \<Rightarrow> (bool, 'cb) lc_prog" where
  "lc_is_active t a = lc_locked t (gets (\<lambda>(l, s). a \<in> set (lc_active l)))"

definition lc_register_hook :: "nat \<Rightarrow> hook \<Rightarrow> (actor_id \<Rightarrow> unit outcome) option \<Rightarrow> (unit, 'cb) lc_prog" where
  "lc_register_hook t h f =
     lc_locked t (modify (\<lambda>(l, s). (l\<lparr>lc_hooks := (lc_hooks l)(h := f)\<rparr>, s)))"

definition lc_active_count :: "nat \<Rightarrow> (nat, 'cb) lc_prog" where
  "lc_active_count t = lc_locked t (gets (\<lambda>(l, s). length (lc_active l)))"

definition lc_active_actors :: "nat \<Rightarrow> (actor_id list, 'cb) lc_prog" where
  "lc_active_actors t = lc_locked t (gets (\<lambda>(l, s). lc_active l))"

definition lc_get_store :: "lifecycle \<Rightarrow> bool" where
  "lc_get_store l = lc_has_store l"

text \<open>The loop over \<open>initial_state\<close>; \<open>clock i\<close> gives the two clock readings of the \<open>i\<close>th call of \<open>set\<close>.\<close>

definition spawn_calls :: "actor_id \<Rightarrow> (nat \<Rightarrow> int \<times> u64) \<Rightarrow> (key \<times> val) list \<Rightarrow> set_call list" where
  "spawn_calls a clock init =
     map (\<lambda>(i, k, v). (a, k, v, None, fst (clock i), snd (clock i))) (List.enumerate 0 init)"

definition lc_init_state :: "actor_id \<Rightarrow> (nat \<Rightarrow> int \<times> u64) \<Rightarrow> (key \<times> val) list \<Rightarrow> (unit, 'cb) lc_prog" where
  "lc_init_state a clock init = (\<lambda>(l, s).
     (if lc_has_store l \<and> init \<noteq> []
      then (case seqP ms_set_call (spawn_calls a clock init) s of (r, s') \<Rightarrow> (r, l, s'))
      else (Ret (), l, s)))"

definition lc_spawn_body :: "actor_id \<Rightarrow> (nat \<Rightarrow> int \<times> u64) \<Rightarrow> (key \<times> val) list \<Rightarrow> (bool, 'cb) lc_prog" where
  "lc_spawn_body a clock init =
     bindP (lc_execute_hook Pre_Spawn a) (\<lambda>_.
       catchP
         (bindP (lc_init_state a clock init) (\<lambda>_.
          bindP (modify (\<lambda>(l, s). (l\<lparr>lc_active := List.insert a (lc_active l)\<rparr>, s))) (\<lambda>_.
          bindP (lc_execute_hook Post_Spawn a) (\<lambda>_. ret True))))
         (\<lambda>_. bindP (modify (\<lambda>(l, s). (l\<lparr>lc_active := removeAll a (lc_active l)\<rparr>, s))) (\<lambda>_. ret False)))"

definition lc_spawn :: "nat \<Rightarrow> actor_id \<Rightarrow> (nat \<Rightarrow> int \<times> u64) \<Rightarrow> (key \<times> val) list \<Rightarrow> (bool, 'cb) lc_prog" where
  "lc_spawn t a clock init =
     (if \<not> lc_validate a then ret False
      else lc_locked t (bindP (lc_actor_exists t a) (\<lambda>ex.
        if ex then ret False else lc_spawn_body a clock init)))"

text \<open>With \<open>force\<close> the code enters a block that holds only a comment.\<close>

definition lc_terminate_body :: "actor_id \<Rightarrow> bool \<Rightarrow> (bool, 'cb) lc_prog" where
  "lc_terminate_body a force =
     bindP (lc_execute_hook Pre_Terminate a) (\<lambda>_.
       catchP
         (bindP (gets (\<lambda>(l, s). force \<and> lc_has_store l)) (\<lambda>clear.
          bindP (if clear then ret () else ret ()) (\<lambda>_.
          bindP (modify (\<lambda>(l, s). (l\<lparr>lc_active := removeAll a (lc_active l)\<rparr>, s))) (\<lambda>_.
          bindP (lc_execute_hook Post_Terminate a) (\<lambda>_. ret True)))))
         (\<lambda>_. ret False))"

definition lc_terminate :: "nat \<Rightarrow> actor_id \<Rightarrow> bool \<Rightarrow> (bool, 'cb) lc_prog" where
  "lc_terminate t a force = lc_locked t
     (bindP (gets (\<lambda>(l, s). a \<in> set (lc_active l))) (\<lambda>found.
        if \<not> found then ret False else lc_terminate_body a force))"

lemmas lc_defs = lc_actor_exists_def lc_is_active_def lc_register_hook_def lc_active_count_def
  lc_active_actors_def lc_spawn_def lc_terminate_def

section \<open>Locks\<close>

lemma lc_locked_free:
  assumes "lc_owner l = None"
  shows "lc_locked t m (l, s) = (case m (l\<lparr>lc_owner := Some t\<rparr>, s) of
    (r, l', s') \<Rightarrow> (r, (case r of Ret _ \<Rightarrow> l'\<lparr>lc_owner := None\<rparr> | Throw _ \<Rightarrow> l'\<lparr>lc_owner := None\<rparr>
      | _ \<Rightarrow> l'), s'))"
  by (simp add: lc_locked_def assms)

lemma lc_locked_held [simp]:
  "lc_owner l = Some u \<Longrightarrow> lc_locked t m (l, s) = (if u = t then Undef Relock else Blocked, l, s)"
  by (simp add: lc_locked_def)

lemma spawn_relocks:
  assumes "lc_validate a" and "lc_owner l = None"
  shows "lc_spawn t a clock init (l, s) = (Undef Relock, l\<lparr>lc_owner := Some t\<rparr>, s)"
  using assms by (simp add: lc_spawn_def lc_locked_free lc_actor_exists_def bindP_def)



section \<open>What an actor system can reach\<close>

datatype lc_op =
    Op_Exists nat actor_id
  | Op_Is_Active nat actor_id
  | Op_Hook nat hook "(actor_id \<Rightarrow> unit outcome) option"
  | Op_Count nat
  | Op_Actors nat
  | Op_Spawn nat actor_id "nat \<Rightarrow> int \<times> u64" "(key \<times> val) list"
  | Op_Terminate nat actor_id bool

fun lc_exec :: "lc_op \<Rightarrow> lifecycle \<times> 'cb mstore \<Rightarrow> lifecycle \<times> 'cb mstore" where
  "lc_exec (Op_Exists t a) s = snd (lc_actor_exists t a s)"
| "lc_exec (Op_Is_Active t a) s = snd (lc_is_active t a s)"
| "lc_exec (Op_Hook t h f) s = snd (lc_register_hook t h f s)"
| "lc_exec (Op_Count t) s = snd (lc_active_count t s)"
| "lc_exec (Op_Actors t) s = snd (lc_active_actors t s)"
| "lc_exec (Op_Spawn t a clock init) s = snd (lc_spawn t a clock init s)"
| "lc_exec (Op_Terminate t a force) s = snd (lc_terminate t a force s)"

definition no_actors :: "lifecycle \<times> 'cb mstore \<Rightarrow> bool" where
  "no_actors ls \<longleftrightarrow> lc_active (fst ls) = []"

lemma lc_locked_none:
  assumes "no_actors ls" and "\<And>l s. lc_active l = [] \<Longrightarrow> no_actors (snd (m (l, s)))"
  shows "no_actors (snd (lc_locked t m ls))"
proof (cases ls)
  case (Pair l s)
  obtain r l' s' where m: "m (l\<lparr>lc_owner := Some t\<rparr>, s) = (r, l', s')" by (metis prod_cases3)
  with assms(2) [of "l\<lparr>lc_owner := Some t\<rparr>" s] assms(1) Pair have "lc_active l' = []"
    by (simp add: no_actors_def)
  with assms(1) Pair m show ?thesis
    by (auto simp: lc_locked_def no_actors_def split: option.splits outcome.splits)
qed

lemma lc_exec_none:
  assumes "no_actors ls"
  shows "no_actors (lc_exec c ls)"
proof (cases c)
  case (Op_Spawn t a clock init)
  show ?thesis
  proof (cases "lc_validate a \<and> lc_owner (fst ls) = None")
    case True
    with Op_Spawn assms spawn_relocks [of a "fst ls" t clock init "snd ls"] show ?thesis
      by (simp add: no_actors_def)
  next
    case False
    with Op_Spawn assms show ?thesis
      by (cases ls) (auto simp: lc_spawn_def ret_def no_actors_def lc_locked_def)
  qed
qed (simp_all add: lc_defs,
    (rule lc_locked_none [OF assms], simp add: gets_def modify_def bindP_def ret_def no_actors_def)+)

text \<open>No actor is ever active: whatever sequence of operations runs on a new lifecycle, from
  whatever threads, the set of active actors stays empty, so every \<open>ActorExists\<close> and every
  \<open>TerminateActor\<close> that returns at all returns false.\<close>

theorem lc_no_actor_ever_active:
  shows "lc_active (fst (fold lc_exec cs (lc_new b, s))) = [] \<and>
    fst (lc_actor_exists t a (fold lc_exec cs (lc_new b, s))) \<noteq> Ret True \<and>
    fst (lc_terminate t a f (fold lc_exec cs (lc_new b, s))) \<noteq> Ret True"
proof -
  have "no_actors ls \<Longrightarrow> no_actors (fold lc_exec cs ls)" for ls :: "lifecycle \<times> 'a mstore"
    by (induction cs arbitrary: ls) (simp_all add: lc_exec_none)
  then have "lc_active (fst (fold lc_exec cs (lc_new b, s))) = []"
    by (simp add: no_actors_def lc_new_def)
  then show ?thesis
    by (cases "fold lc_exec cs (lc_new b, s)")
      (auto simp: lc_actor_exists_def lc_terminate_def lc_locked_def gets_def bindP_def ret_def
        split: option.splits)
qed

section \<open>The bodies under the lock\<close>

lemma execute_hook_keeps:
  assumes "lc_execute_hook h a (l, s) = (r, l', s')"
  shows "lc_active l' = lc_active l \<and> lc_has_store l' = lc_has_store l \<and> s' = s"
  using assms by (auto simp: lc_execute_hook_def split: option.splits)

lemma spawn_calls_values:
  "map (\<lambda>c. (call_key c, call_value c)) (spawn_calls a clock init) = map (\<lambda>(k, v). ((a, k), v)) init"
  by (rule nth_equalityI) (simp_all add: spawn_calls_def nth_enumerate_eq split: prod.splits)

lemma init_state_values:
  assumes "lc_init_state a clock init (l, s) = (Ret (), l', s')"
  shows "l' = l \<and> ms_values s' = ms_values s ++
    (if lc_has_store l then map_of (rev (map (\<lambda>(k, v). ((a, k), v)) init)) else Map.empty)"
proof (cases "lc_has_store l \<and> init \<noteq> []")
  case True
  with assms have run: "seqP ms_set_call (spawn_calls a clock init) s = (Ret (), s')" and l: "l' = l"
    by (auto simp: lc_init_state_def split: prod.splits)
  from seqP_fold_snd [OF run] ms_kv.look_puts [of "spawn_calls a clock init" s] spawn_calls_values [of a clock init]
  have "ms_values s' = ms_values s ++ map_of (rev (map (\<lambda>(k, v). ((a, k), v)) init))" by metis
  with l True show ?thesis by simp
qed (use assms in \<open>auto simp: lc_init_state_def\<close>)

lemma init_state_lifecycle: "lc_init_state a clock init (l, s) = (r, l', s') \<Longrightarrow> l' = l"
  by (auto simp: lc_init_state_def split: if_splits prod.splits)

text \<open>What \<open>SpawnActor\<close> does once it holds the lock and knows that the actor is new: if it
  returns true the actor is active and, with a store, the store holds the initial state over
  what it had; if it returns false (a write failed) the actor is not active. Other actors keep
  their status, and hooks that throw change none of this.\<close>

theorem lc_spawn_body_correct:
  assumes "lc_spawn_body a clock init (l, s) = (Ret b, l', s')"
  shows "(b \<longrightarrow> set (lc_active l') = insert a (set (lc_active l)) \<and>
      ms_values s' = ms_values s ++
        (if lc_has_store l then map_of (rev (map (\<lambda>(k, v). ((a, k), v)) init)) else Map.empty)) \<and>
    (\<not> b \<longrightarrow> set (lc_active l') = set (lc_active l) - {a})"
proof -
  obtain r1 l1 s1 where h1: "lc_execute_hook Pre_Spawn a (l, s) = (r1, l1, s1)" by (metis prod_cases3)
  from execute_hook_keeps [OF h1] have k1: "lc_active l1 = lc_active l" "lc_has_store l1 = lc_has_store l" "s1 = s"
    by simp_all
  have r1: "r1 = Ret ()" using assms h1 by (cases r1) (auto simp: lc_spawn_body_def bindP_def)
  obtain r2 l2 s2 where i: "lc_init_state a clock init (l1, s1) = (r2, l2, s2)" by (metis prod_cases3)
  have l2: "l2 = l1" by (rule init_state_lifecycle [OF i])
  let ?l3 = "l1\<lparr>lc_active := List.insert a (lc_active l1)\<rparr>"
  obtain r4 l4 s4 where h4: "lc_execute_hook Post_Spawn a (?l3, s2) = (r4, l4, s4)" by (metis prod_cases3)
  from execute_hook_keeps [OF h4] have k4: "lc_active l4 = List.insert a (lc_active l1)" "s4 = s2" by simp_all
  let ?undo = "\<lambda>l'. l'\<lparr>lc_active := removeAll a (lc_active l')\<rparr>"
  have eq: "lc_spawn_body a clock init (l, s) = (case r2 of
      Ret _ \<Rightarrow> (case r4 of Ret _ \<Rightarrow> (Ret True, l4, s4) | Throw _ \<Rightarrow> (Ret False, ?undo l4, s4) | _ \<Rightarrow> (abort_of r4, l4, s4))
    | Throw _ \<Rightarrow> (Ret False, ?undo l1, s2) | _ \<Rightarrow> (abort_of r2, l1, s2))"
    using h1 r1 i l2 h4
    by (cases r2; cases r4) (simp_all add: lc_spawn_body_def bindP_def catchP_def modify_def ret_def)
  show ?thesis
  proof (cases r2)
    case (Ret u)
    then have vals: "ms_values s2 = ms_values s ++
        (if lc_has_store l then map_of (rev (map (\<lambda>(k, v). ((a, k), v)) init)) else Map.empty)"
      using init_state_values [of a clock init l1 s1 l2 s2] i k1 by simp
    from assms [unfolded eq] Ret have "b \<and> l' = l4 \<and> s' = s4 \<or> \<not> b \<and> l' = ?undo l4"
      by (auto split: outcome.splits)
    then show ?thesis using vals k1 k4 by auto
  qed (use assms [unfolded eq] k1 in auto)
qed

theorem lc_spawn_body_correct_witness:
  "\<exists>l' s'. lc_spawn_body ''a'' (\<lambda>i. (5, 5)) [(''k'', ''v'')] (lc_new True, ex_store WriteAhead) =
       (Ret True, l', s') \<and> set (lc_active l') = {''a''} \<and> ms_values s' = [(''a'', ''k'') \<mapsto> ''v'']"
proof -
  note p = ex_store_props [of WriteAhead]
  have wal: "wal_rel (ms_wal (ex_store WriteAhead)) (ms_fs (ex_store WriteAhead)) ([], None)"
    "handler_total (ms_wal (ex_store WriteAhead))" unfolding p by (rule ex_wal_props)+
  from ms_set_good [OF p(1) wal p(5), of "''a''" "''k''" "''v''" None 5 5] obtain s' where
    "ms_set ''a'' ''k'' ''v'' None 5 5 (ex_store WriteAhead) = (Ret True, s')" by blast
  then have "\<exists>l'. lc_spawn_body ''a'' (\<lambda>i. (5, 5)) [(''k'', ''v'')] (lc_new True, ex_store WriteAhead) =
      (Ret True, l', s')"
    by (simp add: lc_spawn_body_def lc_execute_hook_def lc_init_state_def lc_new_def spawn_calls_def
        bindP_def catchP_def modify_def ret_def)
  then obtain l' where run: "lc_spawn_body ''a'' (\<lambda>i. (5, 5)) [(''k'', ''v'')]
      (lc_new True, ex_store WriteAhead) = (Ret True, l', s')" by blast
  from lc_spawn_body_correct [OF run] run p(4) show ?thesis
    by (intro exI [of _ l'] exI [of _ s']) (simp add: lc_new_def)
qed

text \<open>\<open>TerminateActor\<close> of an active actor, when it returns, has removed exactly that actor
  from the active ones, has left the store as it was, and does the same with and without
  \<open>force\<close>: no key of the actor is ever cleared. It releases the lock.\<close>

theorem lc_terminate_correct:
  assumes "lc_owner l = None" and "a \<in> set (lc_active l)"
    and "lc_terminate t a force (l, s) = (Ret b, l', s')"
  shows "set (lc_active l') = set (lc_active l) - {a} \<and> s' = s \<and> lc_owner l' = None \<and>
    lc_terminate t a (\<not> force) (l, s) = (Ret b, l', s')"
proof -
  have same: "lc_terminate_body a (\<not> force) = lc_terminate_body a force"
    by (simp add: lc_terminate_body_def cong: if_cong)
  let ?l0 = "l\<lparr>lc_owner := Some t\<rparr>"
  obtain r1 l1 where run: "lc_terminate_body a force (?l0, s) = (r1, l1, s')"
    and r1: "r1 = Ret b" and l': "l' = l1\<lparr>lc_owner := None\<rparr>"
    using assms by (auto simp: lc_terminate_def lc_locked_free bindP_def gets_def
        split: prod.splits outcome.splits)
  obtain r2 l2 s2 where h: "lc_execute_hook Pre_Terminate a (?l0, s) = (r2, l2, s2)" by (metis prod_cases3)
  obtain r3 l3 s3 where h3: "lc_execute_hook Post_Terminate a
      (l2\<lparr>lc_active := removeAll a (lc_active l2)\<rparr>, s2) = (r3, l3, s3)" by (metis prod_cases3)
  have "lc_terminate_body a force (?l0, s) = (case r2 of
      Ret _ \<Rightarrow> (case r3 of Ret _ \<Rightarrow> (Ret True, l3, s3) | Throw _ \<Rightarrow> (Ret False, l3, s3) | _ \<Rightarrow> (abort_of r3, l3, s3))
    | _ \<Rightarrow> (abort_of r2, l2, s2))"
    using h h3 by (cases r2; cases r3) (simp_all add: lc_terminate_body_def bindP_def catchP_def modify_def ret_def)
  with run r1 have "l1 = l3 \<and> s' = s3" by (auto split: outcome.splits)
  with execute_hook_keeps [OF h] execute_hook_keeps [OF h3] l'
  have "set (lc_active l') = set (lc_active l) - {a}" "s' = s" by auto
  moreover have "lc_terminate t a (\<not> force) (l, s) = (Ret b, l', s')"
    using assms(3) unfolding lc_terminate_def same .
  ultimately show ?thesis using l' by simp
qed

theorem lc_terminate_correct_witness:
  "\<exists>l' s'. lc_terminate 1 ''a'' True ((lc_new True)\<lparr>lc_active := [''a'', ''b'']\<rparr>, ex_store WriteAhead) =
       (Ret True, l', s') \<and> set (lc_active l') = {''b''}"
proof -
  let ?l = "(lc_new True)\<lparr>lc_active := [''a'', ''b'']\<rparr>"
  have l: "lc_owner ?l = None" "''a'' \<in> set (lc_active ?l)" by (simp_all add: lc_new_def)
  have "fst (lc_terminate 1 ''a'' True (?l, ex_store WriteAhead)) = Ret True"
    by (simp add: lc_terminate_def lc_locked_free lc_new_def lc_terminate_body_def lc_execute_hook_def
        prog_simps)
  then obtain l' s' where run: "lc_terminate 1 ''a'' True (?l, ex_store WriteAhead) = (Ret True, l', s')"
    by (metis prod.collapse)
  from lc_terminate_correct [OF l run] run show ?thesis by (auto simp: lc_new_def)
qed

text \<open>An identifier that passes validation is safe in the log: it contains neither the
  separator nor a newline, so the line of an entry of that actor parses back to the actor's
  entry whenever key and value are clean too.\<close>

theorem lc_validate_clean:
  assumes "lc_validate a" and "clean_field k" and "newline \<notin> set v" and "v \<noteq> []"
  shows "wal_parse (wal_line \<lparr>e_seq = n, e_actor = a, e_key = k, e_value = v, e_ts = t\<rparr>) =
    Ret (Some \<lparr>e_seq = n, e_actor = a, e_key = k, e_value = v, e_ts = t\<rparr>)"
proof -
  have "\<not> id_char bar" "\<not> id_char newline" by (simp_all add: id_char_def bar_def newline_def)
  then have "clean_field a" using assms(1) by (auto simp: lc_validate_def clean_field_def list_all_iff)
  with assms(2-4) show ?thesis by (simp add: parse_line clean_entry_def read_back_def)
qed

theorem lc_validate_clean_witness:
  "wal_parse (wal_line \<lparr>e_seq = 1, e_actor = ''a_1'', e_key = ''k'', e_value = ''v'', e_ts = 2\<rparr>) =
    Ret (Some \<lparr>e_seq = 1, e_actor = ''a_1'', e_key = ''k'', e_value = ''v'', e_ts = 2\<rparr>)"
  by (rule lc_validate_clean)
    (simp_all add: lc_validate_def id_char_def clean_field_def bar_def newline_def)

end
