(* ===== verification/Scheduler.thy ===== *)
theory Scheduler
  imports Thread_Pool Threadsafe_List
begin

text \<open>
  \<^verbatim>\<open>src/scheduler.h\<close> and \<^verbatim>\<open>src/scheduler.cpp\<close>: the scheduler drains the work queues of the
  registered actors on a thread of the pool and submits timed tasks to the pool from a timer
  thread. Times are readings of the steady clock in nanoseconds, intervals are milliseconds.
  \<open>std::priority_queue::top\<close> is some task with the earliest deadline; which one, among equal
  deadlines, is unspecified, so the step relation allows each.
\<close>

section \<open>State\<close>

record 'f timed =
  tt_run_at :: int
  tt_fn :: 'f
  tt_interval :: int

text \<open>
  \<open>TimedTask::operator>\<close>, which \<open>std::greater\<close> uses: tasks are compared by their deadlines alone, which is a
  preorder.
\<close>

instantiation timed_ext :: (type, type) preorder
begin

definition less_eq_timed: "t \<le> u \<longleftrightarrow> tt_run_at t \<le> tt_run_at u"

definition less_timed: "t < u \<longleftrightarrow> tt_run_at t < tt_run_at u"

instance
  by standard (auto simp: less_eq_timed less_timed)

end

text \<open>The tasks that the scheduler gives to the pool: its own loop over the actors, and functions.\<close>

datatype 'f stask = Actor_Loop | Fn 'f

text \<open>\<open>sc_submitted\<close> records the calls of \<open>Submit\<close> by the timer thread.\<close>

record 'f sched =
  sc_queues :: "nat tslist"
  sc_pool :: "'f stask pool"
  sc_done :: bool
  sc_timers :: "'f timed list"
  sc_submitted :: "'f list"

definition sc_new :: "'f stask pool \<Rightarrow> unit outcome \<times> 'f sched" where
  "sc_new p = (case tp_submit Actor_Loop p of (r, p') \<Rightarrow>
     (r, \<lparr>sc_queues = tsl_new, sc_pool = p', sc_done = False, sc_timers = [], sc_submitted = []\<rparr>))"

section \<open>Actors\<close>

text \<open>A work queue is known by its address; \<open>Register\<close> and \<open>Deregister\<close> take the actor's queue.\<close>

definition sc_register :: "nat \<Rightarrow> 'f sched \<Rightarrow> 'f sched" where
  "sc_register q s = (if sc_done s then s else s\<lparr>sc_queues := tsl_push_front q (sc_queues s)\<rparr>)"

definition sc_deregister :: "nat \<Rightarrow> (unit, 'f sched) prog" where
  "sc_deregister q s = (case tsl_remove_if (\<lambda>p u. (p = q, u)) (sc_queues s, ()) of
     (r, l, _) \<Rightarrow> (r, s\<lparr>sc_queues := l\<rparr>))"

text \<open>
  The loop over one queue: pop with a timeout of 50 ms and run what comes, skipping null
  pointers, until a pop times out. The tasks act on the queues and on the rest of the program;
  they may push more work, so the loop is given fuel.
\<close>

type_synonym ('w, 's) world = "(nat \<Rightarrow> 'w option bqueue) \<times> 's"

fun sc_drain ::
  "nat \<Rightarrow> ('w \<Rightarrow> (unit, ('w, 's) world) prog) \<Rightarrow> nat \<Rightarrow> (unit, ('w, 's) world) prog" where
  "sc_drain 0 run p ws = (No_fuel, ws)"
| "sc_drain (Suc n) run p ws = (case bq_wait_pop 50 True (fst ws p) of
     (Ret (Some w), q) \<Rightarrow>
       (case (case w of None \<Rightarrow> ret () | Some f \<Rightarrow> run f) ((fst ws)(p := q), snd ws) of
          (Ret _, ws') \<Rightarrow> sc_drain n run p ws'
        | (r, ws') \<Rightarrow> (r, ws'))
   | (Ret None, q) \<Rightarrow> (Ret (), (fst ws)(p := q), snd ws)
   | (r, q) \<Rightarrow> (abort_of r, (fst ws)(p := q), snd ws))"

text \<open>One pass of \<open>ScheduleActors\<close> over the registered queues.\<close>

definition sc_pass ::
  "nat \<Rightarrow> ('w \<Rightarrow> (unit, ('w, 's) world) prog) \<Rightarrow> 'f sched \<Rightarrow> (unit, ('w, 's) world) prog" where
  "sc_pass n run s = tsl_for_each (sc_drain n run) (sc_queues s)"

section \<open>Timers\<close>

definition sc_schedule_at :: "int \<Rightarrow> 'f \<Rightarrow> 'f sched \<Rightarrow> 'f sched" where
  "sc_schedule_at run_at f s =
     s\<lparr>sc_timers := \<lparr>tt_run_at = run_at, tt_fn = f, tt_interval = 0\<rparr> # sc_timers s\<rparr>"

definition sc_schedule_every :: "int \<Rightarrow> int \<Rightarrow> 'f \<Rightarrow> 'f sched \<Rightarrow> 'f sched" where
  "sc_schedule_every interval now f s =
     s\<lparr>sc_timers := \<lparr>tt_run_at = now + interval * 1000000, tt_fn = f, tt_interval = interval\<rparr> # sc_timers s\<rparr>"

definition sc_due :: "int \<Rightarrow> 'f timed \<Rightarrow> 'f sched \<Rightarrow> bool" where
  "sc_due now t s \<longleftrightarrow> t \<in> set (sc_timers s) \<and> (\<forall>u \<in> set (sc_timers s). \<not> t > u) \<and> tt_run_at t \<le> now"

text \<open>
  What the timer thread does with a due task: pop it, submit its function and, if it is
  periodic, schedule the function again, through \<open>ScheduleAt\<close>.
\<close>

definition sc_fire :: "int \<Rightarrow> 'f timed \<Rightarrow> (unit, 'f sched) prog" where
  "sc_fire now t =
     bindP (modify (\<lambda>s. s\<lparr>sc_timers := remove1 t (sc_timers s), sc_submitted := sc_submitted s @ [tt_fn t]\<rparr>)) (\<lambda>_.
     bindP (zoom sc_pool (\<lambda>p s. s\<lparr>sc_pool := p\<rparr>) (tp_submit (Fn (tt_fn t)))) (\<lambda>_.
       if 0 < tt_interval t
       then modify (sc_schedule_at (now + tt_interval t * 1000000) (tt_fn t))
       else ret ()))"

inductive timer_step :: "int \<Rightarrow> 'f sched \<Rightarrow> 'f sched \<Rightarrow> bool" for now where
  fire: "\<not> sc_done s \<Longrightarrow> sc_due now t s \<Longrightarrow> sc_fire now t s = (Ret (), s') \<Longrightarrow> timer_step now s s'"

inductive_cases timer_stepE: "timer_step now s s'"

text \<open>\<open>Shutdown\<close> without its thread: the flag and, after the join, the stop of every queue.\<close>

definition sc_shutdown_flag :: "'f sched \<Rightarrow> bool \<times> 'f sched" where
  "sc_shutdown_flag s = (sc_done s, s\<lparr>sc_done := True\<rparr>)"

definition sc_stop_queues :: "'f sched \<Rightarrow> (unit, ('w, 's) world) prog" where
  "sc_stop_queues s =
     tsl_for_each (\<lambda>p. modify (\<lambda>ws. ((fst ws)(p := bq_stop (fst ws p)), snd ws))) (sc_queues s)"

text \<open>
  The destructor: \<open>Shutdown\<close>, which does nothing the second time, and then the members in reverse
  order. The pool's destructor joins the workers; \<open>done\<close> is set, so the loop over the actors ends.
  What is left is the list of work queues.
\<close>

definition sc_free_queues :: "'f sched \<Rightarrow> unit outcome" where
  "sc_free_queues s = tsl_destroy (sc_queues s)"

definition sc_dtor :: "'f sched \<Rightarrow> (unit, ('w, 's) world) prog" where
  "sc_dtor s = bindP (if fst (sc_shutdown_flag s) then ret () else sc_stop_queues s) (\<lambda>_ ws. (sc_free_queues s, ws))"

section \<open>Deadlines\<close>

definition due_tasks :: "int \<Rightarrow> 'f sched \<Rightarrow> 'f timed multiset" where
  "due_tasks now s = filter_mset (\<lambda>t. tt_run_at t \<le> now) (mset (sc_timers s))"

lemma fire_state:
  assumes "sc_fire now t s = (Ret (), s')"
  shows "sc_submitted s' = sc_submitted s @ [tt_fn t] \<and> sc_done s' = sc_done s \<and>
    sc_queues s' = sc_queues s \<and>
    sc_timers s' = (if 0 < tt_interval t
      then [\<lparr>tt_run_at = now + tt_interval t * 1000000, tt_fn = tt_fn t, tt_interval = 0\<rparr>] else []) @
      remove1 t (sc_timers s)"
  using assms
  by (auto simp: sc_fire_def bindP_modify bindP_eq_Ret zoom_def modify_def ret_def sc_schedule_at_def
      split: prod.splits if_splits)

lemma timer_step_due:
  assumes "timer_step now s s'"
  shows "\<exists>t. due_tasks now s = add_mset t (due_tasks now s') \<and> sc_submitted s' = sc_submitted s @ [tt_fn t] \<and>
    (\<forall>u \<in># due_tasks now s. tt_run_at t \<le> tt_run_at u)"
  using assms
proof cases
  case (fire t)
  then have t: "t \<in> set (sc_timers s)" "tt_run_at t \<le> now"
    "\<forall>u \<in> set (sc_timers s). tt_run_at t \<le> tt_run_at u" by (auto simp: sc_due_def less_timed not_less)
  then have "due_tasks now s = add_mset t (filter_mset (\<lambda>t. tt_run_at t \<le> now) (mset (remove1 t (sc_timers s))))"
    by (simp add: due_tasks_def)
  moreover have "due_tasks now s' = filter_mset (\<lambda>t. tt_run_at t \<le> now) (mset (remove1 t (sc_timers s)))"
    using fire_state [OF fire(3)] by (simp add: due_tasks_def)
  moreover have "\<forall>u \<in># due_tasks now s. tt_run_at t \<le> tt_run_at u" using t(3) by (simp add: due_tasks_def)
  ultimately show ?thesis using fire_state [OF fire(3)] by (intro exI [of _ t]) simp
qed

lemma timer_steps_sorted:
  assumes "(timer_step now)\<^sup>*\<^sup>* s s'"
  shows "\<exists>ts. sc_submitted s' = sc_submitted s @ map tt_fn ts \<and> due_tasks now s = mset ts + due_tasks now s' \<and>
    sorted (map tt_run_at ts) \<and> (\<forall>t \<in> set ts. \<forall>u \<in># due_tasks now s'. tt_run_at t \<le> tt_run_at u)"
  using assms
proof (induction rule: rtranclp_induct)
  case base
  show ?case by (intro exI [of _ "[]"]) simp
next
  case (step s1 s2)
  from step.IH obtain ts where ts: "sc_submitted s1 = sc_submitted s @ map tt_fn ts"
    "due_tasks now s = mset ts + due_tasks now s1" "sorted (map tt_run_at ts)"
    "\<forall>t \<in> set ts. \<forall>u \<in># due_tasks now s1. tt_run_at t \<le> tt_run_at u" by blast
  from timer_step_due [OF step.hyps(2)] obtain t where t: "due_tasks now s1 = add_mset t (due_tasks now s2)"
    "sc_submitted s2 = sc_submitted s1 @ [tt_fn t]" "\<forall>u \<in># due_tasks now s1. tt_run_at t \<le> tt_run_at u"
    by blast
  show ?case
    by (intro exI [of _ "ts @ [t]"]) (use ts t in \<open>auto simp: sorted_append\<close>)
qed

text \<open>C36: The timer thread respects deadlines: at any clock reading, whatever the order of equal
  deadlines, the tasks it submits are due, come in the order of their deadlines, each exactly
  once, and together with the due tasks that remain they are the tasks that were due before;
  none that remains has an earlier deadline.\<close>

theorem sc_timers_in_order:
  assumes "(timer_step now)\<^sup>*\<^sup>* s s'"
  shows "\<exists>ts. sc_submitted s' = sc_submitted s @ map tt_fn ts \<and>
    due_tasks now s = mset ts + due_tasks now s' \<and> sorted (map tt_run_at ts) \<and>
    (\<forall>t \<in> set ts. \<forall>u \<in># due_tasks now s'. tt_run_at t \<le> tt_run_at u)"
  using assms by (rule timer_steps_sorted)

lemma submit_space:
  assumes "\<not> tp_done p" and "0 < bq_space (tp_queue p)"
  shows "\<exists>p'. tp_submit t p = (Ret (), p') \<and> \<not> tp_done p' \<and>
    bq_space (tp_queue p') = bq_space (tp_queue p) - 1"
  using assms by (auto simp: tp_submit_def bq_space_def bq_push_def bq_enqueue_def split: if_splits)

lemma timer_progress:
  assumes "\<not> sc_done s" and "\<not> tp_done (sc_pool s)" and "0 < bq_space (tp_queue (sc_pool s))"
    and "due_tasks now s \<noteq> {#}"
  shows "\<exists>s'. timer_step now s s' \<and> \<not> sc_done s' \<and> \<not> tp_done (sc_pool s') \<and>
    bq_space (tp_queue (sc_pool s')) = bq_space (tp_queue (sc_pool s)) - 1"
proof -
  from assms(4) obtain x where "x \<in># due_tasks now s" by (auto simp: multiset_nonemptyE)
  then have x: "x \<in> set (sc_timers s)" "tt_run_at x \<le> now" by (auto simp: due_tasks_def)
  define t where "t = arg_min_on tt_run_at (set (sc_timers s))"
  have ne: "finite (set (sc_timers s))" "set (sc_timers s) \<noteq> {}" using x(1) by auto
  have tin: "t \<in> set (sc_timers s)" unfolding t_def by (rule arg_min_if_finite(1) [OF ne])
  have least: "\<forall>u \<in> set (sc_timers s). tt_run_at t \<le> tt_run_at u"
    unfolding t_def using arg_min_least [OF ne] by blast
  have due: "sc_due now t s" using tin least x by (auto simp: sc_due_def less_timed intro: order_trans)
  obtain p' where p': "tp_submit (Fn (tt_fn t)) (sc_pool s) = (Ret (), p')" "\<not> tp_done p'"
    "bq_space (tp_queue p') = bq_space (tp_queue (sc_pool s)) - 1"
    using submit_space [OF assms(2,3)] by blast
  obtain s' where fire: "sc_fire now t s = (Ret (), s')" and pool: "sc_pool s' = p'" "sc_done s' = sc_done s"
    using p'(1) by (cases "0 < tt_interval t")
      (auto simp: sc_fire_def bindP_modify bindP_def zoom_def modify_def ret_def sc_schedule_at_def)
  show ?thesis
    using timer_step.fire [OF assms(1) due fire] pool p' assms(1) by auto
qed

lemma timer_drains:
  assumes "\<not> sc_done s" and "\<not> tp_done (sc_pool s)"
    and "size (due_tasks now s) \<le> bq_space (tp_queue (sc_pool s))"
  shows "\<exists>s'. (timer_step now)\<^sup>*\<^sup>* s s' \<and> due_tasks now s' = {#}"
  using assms
proof (induction "size (due_tasks now s)" arbitrary: s)
  case 0
  then show ?case by (intro exI [of _ s]) simp
next
  case (Suc n)
  then have "due_tasks now s \<noteq> {#}" "0 < bq_space (tp_queue (sc_pool s))" by auto
  with timer_progress [OF Suc.prems(1,2)] obtain s1 where s1: "timer_step now s s1" "\<not> sc_done s1"
    "\<not> tp_done (sc_pool s1)" "bq_space (tp_queue (sc_pool s1)) = bq_space (tp_queue (sc_pool s)) - 1"
    by blast
  from timer_step_due [OF s1(1)] obtain t where "due_tasks now s = add_mset t (due_tasks now s1)" by blast
  then have "size (due_tasks now s) = Suc (size (due_tasks now s1))" by simp
  with Suc.hyps(2) Suc.prems(3) s1(4) have "n = size (due_tasks now s1)"
    "size (due_tasks now s1) \<le> bq_space (tp_queue (sc_pool s1))" by simp_all
  from Suc.hyps(1) [OF this(1) s1(2,3) this(2)] s1(1) show ?case
    by (meson converse_rtranclp_into_rtranclp)
qed

definition ex_sched :: "string sched" where
  "ex_sched = \<lparr>sc_queues = tsl_new, sc_pool = tp_new 1, sc_done = False,
     sc_timers = [\<lparr>tt_run_at = 5, tt_fn = ''late'', tt_interval = 0\<rparr>,
       \<lparr>tt_run_at = 3, tt_fn = ''early'', tt_interval = 0\<rparr>], sc_submitted = []\<rparr>"

theorem sc_timers_in_order_witness:
  "\<exists>s' ts. (timer_step 10)\<^sup>*\<^sup>* ex_sched s' \<and> sc_submitted s' = map tt_fn ts \<and>
     mset ts = mset (sc_timers ex_sched) \<and> sorted (map tt_run_at ts)"
proof -
  have due: "due_tasks 10 ex_sched = mset (sc_timers ex_sched)" by (simp add: due_tasks_def ex_sched_def)
  have "\<exists>s'. (timer_step 10)\<^sup>*\<^sup>* ex_sched s' \<and> due_tasks 10 s' = {#}"
    by (rule timer_drains) (simp_all add: due, simp_all add: ex_sched_def tp_new_def bq_space_def)
  then obtain s' where s': "(timer_step 10)\<^sup>*\<^sup>* ex_sched s'" "due_tasks 10 s' = {#}" by blast
  from sc_timers_in_order [OF s'(1)] s'(2) due obtain ts where
    "sc_submitted s' = sc_submitted ex_sched @ map tt_fn ts" "mset (sc_timers ex_sched) = mset ts"
    "sorted (map tt_run_at ts)" by auto
  with s'(1) show ?thesis
    by (intro exI [of _ s'] exI [of _ ts]) (simp add: ex_sched_def)
qed

text \<open>No due task is left behind: as long as the scheduler and the pool run and the pool's
  queue has room for the due tasks, the timer thread can submit all tasks that are due at a
  clock reading, and it does so in as many rounds as there are due tasks, because a round
  never makes a new task due.\<close>

theorem sc_timers_all_submitted:
  assumes "\<not> sc_done s" and "\<not> tp_done (sc_pool s)"
    and "size (due_tasks now s) \<le> bq_space (tp_queue (sc_pool s))"
  shows "(\<exists>s'. (timer_step now)\<^sup>*\<^sup>* s s' \<and> due_tasks now s' = {#}) \<and>
    (\<forall>s'. timer_step now s s' \<longrightarrow> size (due_tasks now s) = Suc (size (due_tasks now s')))"
  using timer_drains [OF assms] timer_step_due [of now s] by (metis size_add_mset)

theorem sc_timers_all_submitted_witness:
  "\<exists>s'. (timer_step 10)\<^sup>*\<^sup>* ex_sched s' \<and> due_tasks 10 s' = {#}"
  using sc_timers_all_submitted [of ex_sched 10]
  by (simp add: ex_sched_def due_tasks_def tp_new_def bq_space_def)

section \<open>Periodic tasks\<close>

datatype 'f sc_event = At int 'f | Every int int 'f | Fire int "'f timed"

fun sc_exec :: "'f sc_event \<Rightarrow> 'f sched \<Rightarrow> 'f sched" where
  "sc_exec (At when f) s = sc_schedule_at when f s"
| "sc_exec (Every interval now f) s = sc_schedule_every interval now f s"
| "sc_exec (Fire now t) s = (if \<not> sc_done s \<and> sc_due now t s then snd (sc_fire now t s) else s)"

text \<open>The submissions a scheduling call can cause, and those the pending tasks can.\<close>

fun planned :: "'f \<Rightarrow> 'f sc_event list \<Rightarrow> nat" where
  "planned f [] = 0"
| "planned f (At _ g # es) = (if g = f then 1 else 0) + planned f es"
| "planned f (Every i _ g # es) = (if g = f then (if 0 < i then 2 else 1) else 0) + planned f es"
| "planned f (Fire _ _ # es) = planned f es"

definition weight :: "'f \<Rightarrow> 'f timed \<Rightarrow> nat" where
  "weight f t = (if tt_fn t = f then (if 0 < tt_interval t then 2 else 1) else 0)"

definition used :: "'f \<Rightarrow> 'f sched \<Rightarrow> nat" where
  "used f s = count_list (sc_submitted s) f + sum_list (map (weight f) (sc_timers s))"

lemma sum_list_remove1:
  "t \<in> set ts \<Longrightarrow> sum_list (map (w :: 'b \<Rightarrow> nat) ts) = w t + sum_list (map w (remove1 t ts))"
  by (induction ts) auto

lemma used_exec: "used f (sc_exec e s) \<le> used f s + planned f [e]"
proof (cases e)
  case (Fire now t)
  show ?thesis
  proof (cases "\<not> sc_done s \<and> sc_due now t s")
    case True
    then have "t \<in> set (sc_timers s)" by (simp add: sc_due_def)
    from sum_list_remove1 [OF this, of "weight f"] have
      s: "sum_list (map (weight f) (sc_timers s)) = weight f t + sum_list (map (weight f) (remove1 t (sc_timers s)))" .
    obtain r p' where "tp_submit (Fn (tt_fn t)) (sc_pool s) = (r, p')" by (rule prod.exhaust)
    with True Fire s show ?thesis
      by (cases r) (auto simp: sc_fire_def bindP_modify bindP_def zoom_def modify_def ret_def used_def
          sc_schedule_at_def weight_def)
  qed (use Fire in auto)
qed (auto simp: used_def sc_schedule_at_def sc_schedule_every_def weight_def)

text \<open>A periodic task runs at most twice: in any interleaving of scheduling calls and firings,
  each \<open>ScheduleAt\<close> of a function accounts for at most one submission and each \<open>ScheduleEvery\<close>
  for at most two, because the second round is scheduled through \<open>ScheduleAt\<close>, which gives it
  the interval zero.\<close>

theorem sc_periodic_at_most_twice:
  "count_list (sc_submitted (fold sc_exec es (snd (sc_new p)))) f \<le> planned f es"
proof -
  have "used f (fold sc_exec es s) \<le> used f s + planned f es" for s
  proof (induction es arbitrary: s)
    case (Cons e es)
    have "planned f (e # es) = planned f [e] + planned f es" by (cases e) simp_all
    with Cons [of "sc_exec e s"] used_exec [of f e s] show ?case by simp
  qed simp
  then have "used f (fold sc_exec es (snd (sc_new p))) \<le> used f (snd (sc_new p)) + planned f es" .
  moreover have "used f (snd (sc_new p)) = 0" by (simp add: used_def sc_new_def split: prod.splits)
  ultimately show ?thesis unfolding used_def by linarith
qed

section \<open>Shutdown and the timer thread\<close>

text \<open>
  The timer thread holds \<open>timer_mutex\<close> at the test of \<open>done\<close> (\<open>TM_Top\<close>) and up to the wait
  (\<open>TM_Checked\<close>: it has seen \<open>done\<close> false); waiting releases the mutex, and it also runs
  without it while it submits a task. \<open>Shutdown\<close> sets the flag, locks and unlocks the mutex,
  notifies and joins. A wait also ends on its own (a deadline, a spurious wake-up).
\<close>

datatype timer_pc = TM_Top | TM_Checked | TM_Asleep | TM_Woken | TM_Submitting | TM_Exited
datatype shut_pc = SH_Start | SH_Flag | SH_Locked | SH_Passed | SH_Notified | SH_Joined

record shut_sys =
  ss_done :: bool
  ss_timer :: timer_pc
  ss_shut :: shut_pc

definition timer_holds :: "timer_pc \<Rightarrow> bool" where
  "timer_holds t \<longleftrightarrow> t = TM_Top \<or> t = TM_Checked"

inductive shut_step :: "shut_sys \<Rightarrow> shut_sys \<Rightarrow> bool" where
  test_exit: "ss_timer s = TM_Top \<Longrightarrow> ss_done s \<Longrightarrow> shut_step s (s\<lparr>ss_timer := TM_Exited\<rparr>)"
| test_go: "ss_timer s = TM_Top \<Longrightarrow> \<not> ss_done s \<Longrightarrow> shut_step s (s\<lparr>ss_timer := TM_Checked\<rparr>)"
| sleep: "ss_timer s = TM_Checked \<Longrightarrow> shut_step s (s\<lparr>ss_timer := TM_Asleep\<rparr>)"
| submit: "ss_timer s = TM_Checked \<Longrightarrow> shut_step s (s\<lparr>ss_timer := TM_Submitting\<rparr>)"
| wake: "ss_timer s = TM_Asleep \<Longrightarrow> shut_step s (s\<lparr>ss_timer := TM_Woken\<rparr>)"
| relock: "ss_timer s = TM_Woken \<or> ss_timer s = TM_Submitting \<Longrightarrow> ss_shut s \<noteq> SH_Locked \<Longrightarrow>
    shut_step s (s\<lparr>ss_timer := TM_Top\<rparr>)"
| flag: "ss_shut s = SH_Start \<Longrightarrow> shut_step s (s\<lparr>ss_done := True, ss_shut := SH_Flag\<rparr>)"
| lock: "ss_shut s = SH_Flag \<Longrightarrow> \<not> timer_holds (ss_timer s) \<Longrightarrow> shut_step s (s\<lparr>ss_shut := SH_Locked\<rparr>)"
| unlock: "ss_shut s = SH_Locked \<Longrightarrow> shut_step s (s\<lparr>ss_shut := SH_Passed\<rparr>)"
| notify: "ss_shut s = SH_Passed \<Longrightarrow> shut_step s (s\<lparr>ss_shut := SH_Notified,
    ss_timer := if ss_timer s = TM_Asleep then TM_Woken else ss_timer s\<rparr>)"
| join: "ss_shut s = SH_Notified \<Longrightarrow> ss_timer s = TM_Exited \<Longrightarrow> shut_step s (s\<lparr>ss_shut := SH_Joined\<rparr>)"

inductive_cases shut_stepE: "shut_step s t"

definition shut_init :: shut_sys where
  "shut_init = \<lparr>ss_done = False, ss_timer = TM_Top, ss_shut = SH_Start\<rparr>"

definition shut_inv :: "shut_sys \<Rightarrow> bool" where
  "shut_inv s \<longleftrightarrow> (ss_done s \<longleftrightarrow> ss_shut s \<noteq> SH_Start) \<and>
     (ss_shut s \<in> {SH_Locked, SH_Passed, SH_Notified, SH_Joined} \<longrightarrow> ss_timer s \<noteq> TM_Checked) \<and>
     (ss_shut s = SH_Locked \<longrightarrow> \<not> timer_holds (ss_timer s)) \<and>
     (ss_shut s \<in> {SH_Notified, SH_Joined} \<longrightarrow> ss_timer s \<noteq> TM_Asleep) \<and>
     (ss_shut s = SH_Joined \<longrightarrow> ss_timer s = TM_Exited)"

lemma shut_step_inv: "shut_step s t \<Longrightarrow> shut_inv s \<Longrightarrow> shut_inv t"
  by (erule shut_stepE) (auto simp: shut_inv_def timer_holds_def)

lemma shut_reach_inv: "shut_step\<^sup>*\<^sup>* shut_init s \<Longrightarrow> shut_inv s"
proof (induction rule: rtranclp_induct)
  case base
  show ?case by (simp add: shut_init_def shut_inv_def)
next
  case (step t u)
  then show ?case by (blast intro: shut_step_inv)
qed

text \<open>The steps left to the timer thread once \<open>Shutdown\<close> has notified.\<close>

definition timer_rank :: "timer_pc \<Rightarrow> nat" where
  "timer_rank t = (case t of TM_Woken \<Rightarrow> 2 | TM_Submitting \<Rightarrow> 2 | TM_Top \<Rightarrow> 1 | _ \<Rightarrow> 0)"

text \<open>\<open>Shutdown\<close> never waits for a sleeping timer thread: by locking \<open>timer_mutex\<close> between
  setting the flag and notifying, it excludes that the thread has tested the flag before and
  goes to sleep after; once it has notified, the thread is awake, every further step takes it
  closer to its exit, and a step exists until the join succeeds.\<close>

theorem sc_shutdown_no_lost_wakeup:
  assumes "shut_step\<^sup>*\<^sup>* shut_init s" and "ss_shut s = SH_Notified"
  shows "ss_timer s \<notin> {TM_Asleep, TM_Checked} \<and> (\<exists>t. shut_step s t) \<and>
    (\<forall>t. shut_step s t \<longrightarrow> ss_shut t = SH_Joined \<or> timer_rank (ss_timer t) < timer_rank (ss_timer s))"
proof (intro conjI)
  have inv: "shut_inv s" by (rule shut_reach_inv [OF assms(1)])
  with assms(2) show live: "ss_timer s \<notin> {TM_Asleep, TM_Checked}" by (simp add: shut_inv_def)
  have flag: "ss_done s" using inv assms(2) by (simp add: shut_inv_def)
  show "\<exists>t. shut_step s t"
    using shut_step.relock [of s] shut_step.test_exit [of s] shut_step.join [of s] live flag assms(2)
    by (cases "ss_timer s") auto
  show "\<forall>t. shut_step s t \<longrightarrow> ss_shut t = SH_Joined \<or> timer_rank (ss_timer t) < timer_rank (ss_timer s)"
    using live flag assms(2) by (auto elim!: shut_stepE simp: timer_rank_def)
qed

theorem sc_shutdown_no_lost_wakeup_witness:
  "\<exists>s. shut_step\<^sup>*\<^sup>* shut_init s \<and> ss_shut s = SH_Notified \<and> (\<exists>t. shut_step s t)"
proof -
  let ?s = "\<lambda>d t p. \<lparr>ss_done = d, ss_timer = t, ss_shut = p\<rparr>"
  have "shut_step (?s False TM_Top SH_Start) (?s False TM_Checked SH_Start)"
    using shut_step.test_go [of "?s False TM_Top SH_Start"] by simp
  moreover have "shut_step (?s False TM_Checked SH_Start) (?s True TM_Checked SH_Flag)"
    using shut_step.flag [of "?s False TM_Checked SH_Start"] by simp
  moreover have "shut_step (?s True TM_Checked SH_Flag) (?s True TM_Asleep SH_Flag)"
    using shut_step.sleep [of "?s True TM_Checked SH_Flag"] by simp
  moreover have "shut_step (?s True TM_Asleep SH_Flag) (?s True TM_Asleep SH_Locked)"
    using shut_step.lock [of "?s True TM_Asleep SH_Flag"] by (simp add: timer_holds_def)
  moreover have "shut_step (?s True TM_Asleep SH_Locked) (?s True TM_Asleep SH_Passed)"
    using shut_step.unlock [of "?s True TM_Asleep SH_Locked"] by simp
  moreover have "shut_step (?s True TM_Asleep SH_Passed) (?s True TM_Woken SH_Notified)"
    using shut_step.notify [of "?s True TM_Asleep SH_Passed"] by simp
  ultimately have "shut_step\<^sup>*\<^sup>* shut_init (?s True TM_Woken SH_Notified)"
    unfolding shut_init_def by (meson converse_rtranclp_into_rtranclp rtranclp.rtrancl_refl)
  from sc_shutdown_no_lost_wakeup [OF this] this show ?thesis by fastforce
qed

section \<open>Draining the queues of the actors\<close>

text \<open>The scheduler's view of a work queue: pushes by the actor, pops with a timeout.\<close>

interpretation work: fifo bq_items "\<lambda>q. bq_inv q \<and> \<not> bq_stopped q" bq_space bq_push "bq_wait_pop 50 True"
proof unfold_locales
  fix q :: "'a bqueue" and v
  assume "bq_inv q \<and> \<not> bq_stopped q" "0 < bq_space q"
  moreover from this obtain q' where "bq_push v q = (Ret (), q')" "bq_inv q'" "bq_items q' = bq_items q @ [v]"
    "bq_space q' = bq_space q - 1" using bq.put_space [of q v] by blast
  ultimately show "\<exists>q'. bq_push v q = (Ret (), q') \<and> (bq_inv q' \<and> \<not> bq_stopped q') \<and>
      bq_items q' = bq_items q @ [v] \<and> bq_space q' = bq_space q - 1"
    by (auto simp: bq_push_space bq_enqueue_def)
next
  fix q :: "'a bqueue"
  show "bq_inv q \<and> \<not> bq_stopped q \<Longrightarrow> bq_items q = [] \<Longrightarrow> bq_wait_pop 50 True q = (Ret None, q)"
    by (simp add: bq_wait_pop_def)
next
  fix q :: "'a bqueue" and x xs
  assume "bq_inv q \<and> \<not> bq_stopped q" "bq_items q = x # xs"
  then show "\<exists>q'. bq_wait_pop 50 True q = (Ret (Some x), q') \<and> (bq_inv q' \<and> \<not> bq_stopped q') \<and> bq_items q' = xs"
    using bq_wait_pop_inv [of q 50 True] by (auto simp: bq_wait_pop_def bq_pop_def)
qed

text \<open>Tasks that only touch the rest of the program, through \<open>f\<close>, and return.\<close>

definition local_task :: "('w \<Rightarrow> (unit, ('w, 's) world) prog) \<Rightarrow> ('w \<Rightarrow> 's \<Rightarrow> 's) \<Rightarrow> bool" where
  "local_task run f \<longleftrightarrow> (\<forall>w qs x. run w (qs, x) = (Ret (), qs, f w x))"

fun run_items :: "('w \<Rightarrow> 's \<Rightarrow> 's) \<Rightarrow> 'w option list \<Rightarrow> 's \<Rightarrow> 's" where
  "run_items f [] x = x"
| "run_items f (None # ws) x = run_items f ws x"
| "run_items f (Some w # ws) x = run_items f ws (f w x)"

lemma run_items_append: "run_items f (ws @ vs) x = run_items f vs (run_items f ws x)"
  by (induction f ws x rule: run_items.induct) simp_all

lemma drain_queue:
  assumes "local_task run f" and "bq_inv (qs p)" and "\<not> bq_stopped (qs p)"
    and "length (bq_items (qs p)) < n"
  shows "\<exists>q. sc_drain n run p (qs, x) = (Ret (), qs(p := q), run_items f (bq_items (qs p)) x) \<and>
    bq_inv q \<and> \<not> bq_stopped q \<and> bq_items q = []"
  using assms
proof (induction "bq_items (qs p)" arbitrary: qs x n)
  case Nil
  then obtain m where n: "n = Suc m" by (cases n) auto
  have "bq_wait_pop 50 True (qs p) = (Ret None, qs p)"
    using work.get_empty [of "qs p"] Nil by simp
  with n Nil show ?case by (intro exI [of _ "qs p"]) auto
next
  case (Cons w ws)
  then obtain m where n: "n = Suc m" by (cases n) auto
  from work.get_Cons [of "qs p" w ws] Cons obtain q where
    q: "bq_wait_pop 50 True (qs p) = (Ret (Some w), q)" "bq_inv q" "\<not> bq_stopped q" "bq_items q = ws"
    by auto
  let ?x = "run_items f [w] x"
  have step: "sc_drain n run p (qs, x) = sc_drain m run p (qs(p := q), ?x)"
    using Cons.prems(1) n q(1) by (cases w) (simp_all add: local_task_def ret_def)
  from Cons.hyps(1) [of "qs(p := q)" m ?x] Cons.prems n q Cons.hyps(2) [symmetric] obtain q' where
    q': "sc_drain m run p (qs(p := q), ?x) = (Ret (), qs(p := q'), run_items f ws ?x)"
    "bq_inv q'" "\<not> bq_stopped q'" "bq_items q' = []" by auto
  have "run_items f ws ?x = run_items f (w # ws) x" using run_items_append [of f "[w]" ws x] by simp
  with step q' Cons.hyps(2) [symmetric] show ?case by (intro exI [of _ q']) simp
qed

lemma pass_queues:
  assumes "local_task run f" and "distinct ps"
    and "\<forall>p \<in> set ps. bq_inv (qs p) \<and> \<not> bq_stopped (qs p) \<and> length (bq_items (qs p)) < n"
  shows "\<exists>qs'. seqP (sc_drain n run) ps (qs, x) =
      (Ret (), qs', run_items f (concat (map (\<lambda>p. bq_items (qs p)) ps)) x) \<and>
    (\<forall>p \<in> set ps. bq_items (qs' p) = []) \<and> (\<forall>p. p \<notin> set ps \<longrightarrow> qs' p = qs p)"
  using assms
proof (induction ps arbitrary: qs x)
  case (Cons p ps)
  then obtain q where q: "sc_drain n run p (qs, x) = (Ret (), qs(p := q), run_items f (bq_items (qs p)) x)"
    "bq_items q = []" using drain_queue [OF Cons.prems(1), of qs p n x] by auto
  let ?qs = "qs(p := q)" and ?x = "run_items f (bq_items (qs p)) x"
  have same: "map (\<lambda>r. bq_items (?qs r)) ps = map (\<lambda>r. bq_items (qs r)) ps" using Cons.prems(2) by auto
  have "\<forall>r \<in> set ps. bq_inv (?qs r) \<and> \<not> bq_stopped (?qs r) \<and> length (bq_items (?qs r)) < n"
    using Cons.prems(2,3) by auto
  from Cons.IH [OF Cons.prems(1) _ this, of ?x] Cons.prems(2) obtain qs' where
    qs': "seqP (sc_drain n run) ps (?qs, ?x) =
      (Ret (), qs', run_items f (concat (map (\<lambda>r. bq_items (?qs r)) ps)) ?x)"
    "\<forall>r \<in> set ps. bq_items (qs' r) = []" "\<forall>r. r \<notin> set ps \<longrightarrow> qs' r = ?qs r"
    by (meson distinct.simps(2))
  have "seqP (sc_drain n run) (p # ps) (qs, x) =
      (Ret (), qs', run_items f (concat (map (\<lambda>r. bq_items (qs r)) (p # ps))) x)"
    using q(1) qs'(1) unfolding same by (simp add: run_items_append)
  moreover have "bq_items (qs' p) = []" using qs'(3) q(2) Cons.prems(2) by simp
  ultimately show ?case using qs'(2,3) by (intro exI [of _ qs']) auto
qed simp

text \<open>One pass over the actors: when the tasks return and push no further work, a pass runs
  every task of every registered queue, queues in the order of the list (the newest
  registration first), tasks of a queue in the order in which they were pushed, skips null
  pointers, leaves all these queues empty and touches no other queue. Fuel above the length
  of each queue is enough.\<close>

theorem sc_pass_runs_everything:
  assumes "tsl_inv (sc_queues s)" and "distinct (contents (sc_queues s))" and "local_task run f"
    and "\<forall>p \<in> set (contents (sc_queues s)). bq_inv (qs p) \<and> \<not> bq_stopped (qs p) \<and>
      length (bq_items (qs p)) < n"
  shows "\<exists>qs'. sc_pass n run s (qs, x) = (Ret (), qs',
      run_items f (concat (map (\<lambda>p. bq_items (qs p)) (contents (sc_queues s)))) x) \<and>
    (\<forall>p \<in> set (contents (sc_queues s)). bq_items (qs' p) = []) \<and>
    (\<forall>p. p \<notin> set (contents (sc_queues s)) \<longrightarrow> qs' p = qs p)"
  using pass_queues [OF assms(3,2,4)] by (simp add: sc_pass_def for_each_contents [OF assms(1)])

theorem sc_pass_runs_everything_witness:
  "\<exists>qs'. sc_pass 3 (\<lambda>w ws. (Ret (), fst ws, snd ws @ [w]))
      (sc_register 7 (sc_register 4 (ex_sched\<lparr>sc_timers := []\<rparr>)))
      ((\<lambda>p. if p = 4 then \<lparr>bq_max = 9, bq_size = 2, bq_policy = Block, bq_items = [Some ''a'', Some ''b''], bq_stopped = False\<rparr>
        else \<lparr>bq_max = 9, bq_size = 1, bq_policy = Block, bq_items = [Some ''c''], bq_stopped = False\<rparr>), []) =
    (Ret (), qs', [''c'', ''a'', ''b''])"
proof -
  let ?qs = "\<lambda>p :: nat. if p = 4 then \<lparr>bq_max = 9, bq_size = 2, bq_policy = Block, bq_items = [Some ''a'', Some ''b''], bq_stopped = False\<rparr>
    else \<lparr>bq_max = 9, bq_size = 1, bq_policy = Block, bq_items = [Some ''c''], bq_stopped = False\<rparr>"
  let ?s = "sc_register 7 (sc_register 4 (ex_sched\<lparr>sc_timers := []\<rparr>))"
  have q: "tsl_inv (sc_queues ?s)" "contents (sc_queues ?s) = [7, 4]"
    by (simp_all add: sc_register_def ex_sched_def)
  have "distinct (contents (sc_queues ?s))" by (simp add: q)
  moreover have "local_task (\<lambda>w ws. (Ret (), fst ws, snd ws @ [w])) (\<lambda>w x. x @ [w])"
    by (simp add: local_task_def)
  moreover have "\<forall>p \<in> set (contents (sc_queues ?s)). bq_inv (?qs p) \<and> \<not> bq_stopped (?qs p) \<and>
      length (bq_items (?qs p)) < 3" by (simp add: q bq_inv_def)
  ultimately have "\<exists>qs'. sc_pass 3 (\<lambda>w ws. (Ret (), fst ws, snd ws @ [w])) ?s (?qs, []) = (Ret (), qs',
      run_items (\<lambda>w x. x @ [w]) (concat (map (\<lambda>p. bq_items (?qs p)) (contents (sc_queues ?s)))) [])"
    using sc_pass_runs_everything [OF q(1), of "\<lambda>w ws. (Ret (), fst ws, snd ws @ [w])" "\<lambda>w x. x @ [w]" ?qs 3 "[]"]
    by blast
  then show ?thesis by (simp add: q)
qed

lemma deregister_registered:
  assumes "tsl_inv (sc_queues s)" and "q \<in> set (contents (sc_queues s))"
  shows "fst (sc_deregister q s) = Undef Use_after_free"
proof -
  let ?p = "\<lambda>p (u :: unit). (p = q, u)"
  have "first_hit ?p (contents (sc_queues s)) () = (True, ())"
    using assms(2) by (simp add: first_hit_pure)
  from remove_if_uaf(1) [OF assms(1) this]
  have "fst (tsl_remove_if ?p (sc_queues s, ())) = Undef Use_after_free" .
  moreover obtain r l u where "tsl_remove_if ?p (sc_queues s, ()) = (r, l, u)" by (metis prod_cases3)
  ultimately show ?thesis by (simp add: sc_deregister_def)
qed

lemma deregister_absent:
  assumes "tsl_inv (sc_queues s)" and "q \<notin> set (contents (sc_queues s))"
  shows "sc_deregister q s = (Ret (), s)"
proof -
  have "first_hit (\<lambda>p (u :: unit). (p = q, u)) (contents (sc_queues s)) () = (False, ())"
    using assms(2) by (simp add: first_hit_pure)
  from remove_if_ok [OF assms(1) this] show ?thesis by (simp add: sc_deregister_def)
qed

text \<open>\<open>Deregister\<close> of a registered actor is undefined behaviour: the list's \<open>remove_if\<close>
  reads the node it has just freed. For an actor that is not registered it changes nothing.\<close>

theorem sc_deregister_uaf:
  assumes "tsl_inv (sc_queues s)" and "\<not> sc_done s"
  shows "fst (sc_deregister q (sc_register q s)) = Undef Use_after_free \<and>
    (q \<notin> set (contents (sc_queues s)) \<longrightarrow> sc_deregister q s = (Ret (), s))"
  using deregister_registered [of "sc_register q s" q] deregister_absent [OF assms(1)] assms
  by (simp add: sc_register_def)

theorem sc_deregister_uaf_witness:
  "fst (sc_deregister 7 (sc_register 7 ex_sched)) = Undef Use_after_free"
  using sc_deregister_uaf [of ex_sched 7] by (simp add: ex_sched_def)

text \<open>A task that throws ends the scheduling of all actors: nothing between the task and the
  pool's worker catches the exception, so the pass stops there, the queues after it in the list
  are not visited, and the loop of \<open>ScheduleActors\<close> is left.\<close>

theorem sc_pass_stops_at_exception:
  assumes "tsl_inv (sc_queues s)" and "contents (sc_queues s) = p # ps" and "p \<notin> set ps"
    and "bq_inv (qs p)" and "\<not> bq_stopped (qs p)" and "bq_items (qs p) = Some w # ws"
    and "\<And>qs x. run w (qs, x) = (Throw e, qs, x)"
    and "sc_pass (Suc n) run s (qs, x) = (r, qs', x')"
  shows "r = Throw e \<and> x' = x \<and> (\<forall>u \<in> set ps. qs' u = qs u)"
proof -
  from work.get_Cons [of "qs p" "Some w" ws] assms(4-6) obtain q where
    "bq_wait_pop 50 True (qs p) = (Ret (Some (Some w)), q)" by blast
  then have "sc_drain (Suc n) run p (qs, x) = (Throw e, qs(p := q), x)" by (simp add: assms(7))
  with assms(8) have "r = Throw e \<and> x' = x \<and> qs' = qs(p := q)"
    by (simp add: sc_pass_def for_each_contents [OF assms(1)] assms(2))
  with assms(3) show ?thesis by auto
qed

theorem sc_pass_stops_at_exception_witness:
  "\<exists>qs' x'. sc_pass (Suc 0) (\<lambda>w ws. (Throw (User_exn w), ws))
      (sc_register 7 (sc_register 4 ex_sched))
      (\<lambda>p. \<lparr>bq_max = 9, bq_size = 1, bq_policy = Block, bq_items = [Some ''boom''], bq_stopped = False\<rparr>, ()) =
    (Throw (User_exn ''boom''), qs', x') \<and> bq_items (qs' 4) = [Some ''boom'']"
proof -
  let ?qs = "\<lambda>p :: nat. \<lparr>bq_max = 9, bq_size = 1, bq_policy = Block, bq_items = [Some ''boom''], bq_stopped = False\<rparr>"
  let ?s = "sc_register 7 (sc_register 4 ex_sched)"
  let ?run = "\<lambda>w ws. (Throw (User_exn w), ws)"
  have q: "tsl_inv (sc_queues ?s)" "contents (sc_queues ?s) = [7, 4]"
    by (simp_all add: sc_register_def ex_sched_def)
  obtain r qs' x' where run: "sc_pass (Suc 0) ?run ?s (?qs, ()) = (r, qs', x')" by (metis prod_cases3)
  from sc_pass_stops_at_exception [OF q _ _ _ _ _ run, of "''boom''" "[]" "User_exn ''boom''"] run
  show ?thesis by (intro exI [of _ qs'] exI [of _ x']) (simp add: bq_inv_def)
qed

text \<open>Destroying a scheduler stops the queue of every registered actor, unless \<open>Shutdown\<close> did so before,
  and then reads freed memory if any actor is registered, in the destructor of the list. Since
  \<open>Deregister\<close> does the same, a scheduler with which an actor was ever registered has no safe end.\<close>

lemma stop_queues_run:
  assumes "tsl_inv (sc_queues s)"
  shows "sc_stop_queues s (qs, x) = (Ret (), \<lambda>p. if p \<in> set (contents (sc_queues s)) then bq_stop (qs p) else qs p, x)"
proof -
  have "seqP (\<lambda>p. modify (\<lambda>ws. ((fst ws)(p := bq_stop (fst ws p)), snd ws))) ps (qs, x) =
      (Ret (), \<lambda>p. if p \<in> set ps then bq_stop (qs p) else qs p, x)" for ps
    by (induction ps arbitrary: qs) (auto simp: modify_def fun_eq_iff bq_stop_def)
  then show ?thesis by (simp add: sc_stop_queues_def for_each_contents [OF assms])
qed

theorem sc_dtor_uaf:
  assumes "tsl_inv (sc_queues s)" and "sc_dtor s (qs, x) = (r, qs', x')"
  shows "r = (if contents (sc_queues s) = [] then Ret () else Undef Use_after_free) \<and> x' = x \<and>
    (\<not> sc_done s \<longrightarrow> (\<forall>p \<in> set (contents (sc_queues s)). bq_stopped (qs' p)))"
  using assms(2) stop_queues_run [OF assms(1), of qs x] destroy_outcome [OF assms(1)]
  by (auto simp: sc_dtor_def sc_free_queues_def sc_shutdown_flag_def bindP_def ret_def bq_stop_def split: if_splits)

theorem sc_dtor_uaf_witness:
  "\<exists>qs'. sc_dtor (sc_register 7 ex_sched) (\<lambda>_. bq_default :: string option bqueue, ()) = (Undef Use_after_free, qs', ()) \<and>
     bq_stopped (qs' 7)"
proof -
  let ?s = "sc_register 7 ex_sched"
  have s: "tsl_inv (sc_queues ?s)" "contents (sc_queues ?s) = [7]" "\<not> sc_done ?s"
    by (simp_all add: sc_register_def ex_sched_def)
  obtain r qs' x' where "sc_dtor ?s (\<lambda>_. bq_default :: string option bqueue, ()) = (r, qs', x')" by (metis prod_cases3)
  with sc_dtor_uaf [OF s(1) this] s(2,3) show ?thesis by auto
qed

end
