(* ===== verification/Actor.thy ===== *)
theory Actor
  imports Actor_Lifecycle Scheduler
begin

text \<open>
  \<^verbatim>\<open>src/abstract_actor.h\<close>, \<^verbatim>\<open>src/actor_system.h\<close> and \<^verbatim>\<open>src/actor_system.cpp\<close>: actors with a
  message queue and a processing thread, and the registry of actors. The pure virtual methods
  of an actor are client code, the fields of \<open>behaviour\<close>, acting on the client's state \<open>'u\<close>.
  The errors given to \<open>HandleError\<close>, whose body is empty, are recorded in \<open>ac_errors\<close>.
  \<open>Tell\<close> and \<open>Ask\<close> test the result of \<open>Push\<close>, which is \<open>void\<close>, so the header does not
  compile as it stands; the model takes the tested value as an argument \<open>accepted\<close>.
\<close>

section \<open>State\<close>

record ('m, 'r, 'u) behaviour =
  on_message :: "'m \<Rightarrow> (unit, 'u) prog"
  on_ask :: "'m \<Rightarrow> ('r, 'u) prog"
  load_state :: "(bool, 'u) prog"
  init_default :: "(unit, 'u) prog"
  serialize :: "(string, 'u) prog"

text \<open>The closures that \<open>Tell\<close> and \<open>Ask\<close> enqueue; an \<open>Ask\<close> knows its promise by a number.\<close>

datatype 'm task = Tell_Task 'm | Ask_Task 'm nat

datatype 'r promise = Unset | Value 'r | Error cpp_exn

record ('m, 'r) actor =
  ac_id :: actor_id
  ac_lc :: lifecycle
  ac_has_store :: bool
  ac_queue :: "'m task option bqueue"
  ac_init :: bool
  ac_proc :: bool
  ac_thread :: bool
  ac_persist :: bool
  ac_promises :: "nat \<Rightarrow> 'r promise"
  ac_errors :: "(string \<times> cpp_exn option) list"

type_synonym ('a, 'm, 'r, 'u, 'cb) ac_prog = "('a, ('m, 'r) actor \<times> 'u \<times> 'cb mstore) prog"

text \<open>The capacity is a \<open>size_t\<close> that the queue's constructor takes as a \<open>uint32_t\<close>.\<close>

definition ac_new :: "actor_id \<Rightarrow> bool \<Rightarrow> u64 \<Rightarrow> ('m, 'r) actor" where
  "ac_new i has_store capacity =
     \<lparr>ac_id = i, ac_lc = lc_new has_store, ac_has_store = has_store, ac_queue = bq_new (ucast capacity) Block,
      ac_init = False, ac_proc = False, ac_thread = False, ac_persist = True,
      ac_promises = (\<lambda>_. Unset), ac_errors = []\<rparr>"

definition ac_default_capacity :: u64 where
  "ac_default_capacity = 1000"

section \<open>Operations\<close>

definition on_actor :: "('a, ('m, 'r) actor) prog \<Rightarrow> ('a, 'm, 'r, 'u, 'cb) ac_prog" where
  "on_actor = zoom fst (\<lambda>a (_, us). (a, us))"

definition on_user :: "('a, 'u) prog \<Rightarrow> ('a, 'm, 'r, 'u, 'cb) ac_prog" where
  "on_user = zoom (\<lambda>(a, u, s). u) (\<lambda>u (a, _, s). (a, u, s))"

definition on_lifecycle :: "('a, 'cb) lc_prog \<Rightarrow> ('a, 'm, 'r, 'u, 'cb) ac_prog" where
  "on_lifecycle = zoom (\<lambda>(a, u, s). (ac_lc a, s)) (\<lambda>(l, s) (a, u, _). (a\<lparr>ac_lc := l\<rparr>, u, s))"

definition ac_handle_error :: "string \<Rightarrow> cpp_exn option \<Rightarrow> (unit, 'm, 'r, 'u, 'cb) ac_prog" where
  "ac_handle_error msg e = on_actor (modify (\<lambda>a. a\<lparr>ac_errors := ac_errors a @ [(msg, e)]\<rparr>))"

definition ac_start_processing :: "(unit, 'm, 'r, 'u, 'cb) ac_prog" where
  "ac_start_processing = on_actor (modify (\<lambda>a. a\<lparr>ac_proc := True, ac_thread := True\<rparr>))"

definition ac_initialize :: "('m, 'r, 'u) behaviour \<Rightarrow> nat \<Rightarrow> (bool, 'm, 'r, 'u, 'cb) ac_prog" where
  "ac_initialize B t = (\<lambda>(a, us).
     (if ac_init a then (Ret True, a, us)
      else catchP
        (bindP (on_lifecycle (lc_actor_exists t (ac_id a))) (\<lambda>ex.
         bindP (if ex then ret True else on_lifecycle (lc_spawn t (ac_id a) (\<lambda>_. (0, 0)) [])) (\<lambda>ok.
         bindP (if ok then ret () else throwP (Runtime_error ''Failed to spawn actor in lifecycle'')) (\<lambda>_.
         bindP (if ac_has_store a then on_user (load_state B) else ret False) (\<lambda>loaded.
         bindP (if loaded then ret () else on_user (init_default B)) (\<lambda>_.
         bindP ac_start_processing (\<lambda>_. ret True)))))))
        (\<lambda>e. bindP (on_actor (modify (\<lambda>a. a\<lparr>ac_init := False\<rparr>))) (\<lambda>_.
             bindP (ac_handle_error ''Initialization failed: '' (Some e)) (\<lambda>_. ret False)))
        (a\<lparr>ac_init := True\<rparr>, us)))"

text \<open>\<open>Stop\<close>; the join waits for the iteration the thread is in, which is the caller's business.\<close>

definition ac_stop :: "nat \<Rightarrow> (unit, 'm, 'r, 'u, 'cb) ac_prog" where
  "ac_stop t = (\<lambda>(a, us).
     (if ac_init a
      then bindP (on_lifecycle (lc_terminate t (ac_id a) False)) (\<lambda>_. ret ())
        (a\<lparr>ac_init := False, ac_proc := False, ac_queue := bq_stop (ac_queue a), ac_thread := False\<rparr>, us)
      else (Ret (), a, us)))"

definition ac_dtor :: "nat \<Rightarrow> (unit, 'm, 'r, 'u, 'cb) ac_prog" where
  "ac_dtor t = ac_stop t"

text \<open>The observers: the identifier, the queue's size and the two flags.\<close>

definition ac_observe :: "('m, 'r) actor \<Rightarrow> actor_id \<times> u32 \<times> bool \<times> bool" where
  "ac_observe a = (ac_id a, bq_get_size (ac_queue a), ac_init a, ac_proc a)"

definition ac_push :: "'m task \<Rightarrow> (unit, 'm, 'r, 'u, 'cb) ac_prog" where
  "ac_push tk = on_actor (zoom ac_queue (\<lambda>q a. a\<lparr>ac_queue := q\<rparr>) (bq_push (Some tk)))"

definition ac_tell :: "bool \<Rightarrow> 'm \<Rightarrow> (unit, 'm, 'r, 'u, 'cb) ac_prog" where
  "ac_tell accepted m = (\<lambda>(a, us).
     (if \<not> ac_init a then ac_handle_error (''Actor not initialized: '' @ ac_id a) None (a, us)
      else catchP
        (bindP (ac_push (Tell_Task m)) (\<lambda>_.
           if accepted then ret () else ac_handle_error (''Queue full for actor: '' @ ac_id a) None))
        (\<lambda>e. ac_handle_error ''Failed to enqueue message: '' (Some e)) (a, us)))"

text \<open>Setting a promise twice throws \<open>std::future_error\<close>.\<close>

definition set_promise :: "nat \<Rightarrow> 'r promise \<Rightarrow> (unit, ('m, 'r) actor) prog" where
  "set_promise i p a = (case ac_promises a i of
     Unset \<Rightarrow> (Ret (), a\<lparr>ac_promises := (ac_promises a)(i := p)\<rparr>)
   | _ \<Rightarrow> (Throw (Runtime_error ''Promise already satisfied''), a))"

definition ac_ask :: "bool \<Rightarrow> 'm \<Rightarrow> nat \<Rightarrow> (nat, 'm, 'r, 'u, 'cb) ac_prog" where
  "ac_ask accepted m i = (\<lambda>(a, us).
     (if \<not> ac_init a then (Throw (Runtime_error (''Actor not initialized: '' @ ac_id a)), a, us)
      else bindP (on_actor (modify (\<lambda>a. a\<lparr>ac_promises := (ac_promises a)(i := Unset)\<rparr>))) (\<lambda>_.
           bindP (ac_push (Ask_Task m i)) (\<lambda>_.
           bindP (if accepted then ret ()
                  else on_actor (set_promise i (Error (Runtime_error (''Queue full for actor: '' @ ac_id a))))) (\<lambda>_.
           ret i))) (a, us)))"

text \<open>\<open>PersistState\<close> serialises the state and throws the result away: the write is commented out.\<close>

definition ac_persist_state :: "('m, 'r, 'u) behaviour \<Rightarrow> (bool, 'm, 'r, 'u, 'cb) ac_prog" where
  "ac_persist_state B = (\<lambda>(a, us).
     (if \<not> ac_has_store a then (Ret False, a, us)
      else catchP (bindP (on_user (serialize B)) (\<lambda>_. ret True))
        (\<lambda>e. bindP (ac_handle_error ''State persistence failed: '' (Some e)) (\<lambda>_. ret False)) (a, us)))"

definition ac_auto_persist :: "('m, 'r, 'u) behaviour \<Rightarrow> (unit, 'm, 'r, 'u, 'cb) ac_prog" where
  "ac_auto_persist B = bindP (gets (\<lambda>(a, us). ac_persist a)) (\<lambda>p.
     if p then bindP (ac_persist_state B) (\<lambda>_. ret ()) else ret ())"

fun ac_run_task :: "('m, 'r, 'u) behaviour \<Rightarrow> 'm task \<Rightarrow> (unit, 'm, 'r, 'u, 'cb) ac_prog" where
  "ac_run_task B (Tell_Task m) =
     catchP (bindP (on_user (on_message B m)) (\<lambda>_. ac_auto_persist B))
       (\<lambda>e. ac_handle_error ''Message processing failed: '' (Some e))"
| "ac_run_task B (Ask_Task m i) =
     catchP (bindP (on_user (on_ask B m)) (\<lambda>r.
             bindP (on_actor (set_promise i (Value r))) (\<lambda>_. ac_auto_persist B)))
       (\<lambda>e. bindP (on_actor (set_promise i (Error e))) (\<lambda>_.
            bindP (gets (\<lambda>(a, us). ac_id a)) (\<lambda>j.
            ac_handle_error (''Ask processing failed for actor: '' @ j) None)))"

text \<open>One iteration of \<open>ProcessMessages\<close>; a pop that times out ends it without a task.\<close>

definition ac_process :: "('m, 'r, 'u) behaviour \<Rightarrow> (unit, 'm, 'r, 'u, 'cb) ac_prog" where
  "ac_process B =
     catchP
       (bindP (on_actor (zoom ac_queue (\<lambda>q a. a\<lparr>ac_queue := q\<rparr>) (bq_wait_pop 100 True))) (\<lambda>popped.
          case popped of
            None \<Rightarrow> ret ()
          | Some None \<Rightarrow> (\<lambda>s. (Undef Null_deref, s))
          | Some (Some tk) \<Rightarrow> ac_run_task B tk))
       (\<lambda>e. ac_handle_error ''Message processing thread error: '' (Some e))"

lemmas ac_lift_defs = on_actor_def on_user_def on_lifecycle_def

section \<open>The actor system\<close>

text \<open>
  \<open>as_objects\<close> are the actor objects by address, which is also the address of their queue for
  the scheduler; \<open>as_names\<close> is \<open>registered_actors_\<close>.
\<close>

record ('m, 'r, 'f) actor_system =
  as_names :: "actor_id \<rightharpoonup> nat"
  as_objects :: "nat \<Rightarrow> ('m, 'r) actor"
  as_lc :: lifecycle
  as_sched :: "'f sched"

type_synonym ('a, 'm, 'r, 'f, 'u, 'cb) as_prog =
  "('a, ('m, 'r, 'f) actor_system \<times> 'u \<times> 'cb mstore) prog"

definition on_object :: "nat \<Rightarrow> ('a, 'm, 'r, 'u, 'cb) ac_prog \<Rightarrow> ('a, 'm, 'r, 'f, 'u, 'cb) as_prog" where
  "on_object p = zoom (\<lambda>(y, us). (as_objects y p, us))
     (\<lambda>(a, us) (y, _). (y\<lparr>as_objects := (as_objects y)(p := a)\<rparr>, us))"

definition as_register :: "('m, 'r, 'u) behaviour \<Rightarrow> nat \<Rightarrow> nat option \<Rightarrow> (bool, 'm, 'r, 'f, 'u, 'cb) as_prog" where
  "as_register B t actor = (\<lambda>(y, us).
     (case actor of
        None \<Rightarrow> (Ret False, y, us)
      | Some p \<Rightarrow>
          (if as_names y (ac_id (as_objects y p)) \<noteq> None then (Ret False, y, us)
           else bindP (on_object p (ac_initialize B t)) (\<lambda>ok.
             if \<not> ok then ret False
             else bindP (modify (\<lambda>(y, us). (y\<lparr>as_sched := sc_register p (as_sched y),
                    as_names := (as_names y)(ac_id (as_objects y p) \<mapsto> p)\<rparr>, us))) (\<lambda>_. ret True)) (y, us))))"

definition as_deregister :: "nat \<Rightarrow> actor_id \<Rightarrow> (bool, 'm, 'r, 'f, 'u, 'cb) as_prog" where
  "as_deregister t i = (\<lambda>(y, us).
     (case as_names y i of
        None \<Rightarrow> (Ret False, y, us)
      | Some p \<Rightarrow>
          bindP (on_object p (ac_stop t)) (\<lambda>_.
          bindP (zoom (as_sched \<circ> fst) (\<lambda>c (y, us). (y\<lparr>as_sched := c\<rparr>, us)) (sc_deregister p)) (\<lambda>_.
          bindP (modify (\<lambda>(y, us). (y\<lparr>as_names := (as_names y)(i := None)\<rparr>, us))) (\<lambda>_.
            zoom (\<lambda>(y, u, s). (as_lc y, s)) (\<lambda>(l, s) (y, u, _). (y\<lparr>as_lc := l\<rparr>, u, s))
              (lc_terminate t i False)))) (y, us)))"

definition as_get_actor :: "actor_id \<Rightarrow> ('m, 'r, 'f) actor_system \<Rightarrow> nat option" where
  "as_get_actor i y = as_names y i"

text \<open>
  \<open>Shutdown\<close>, with the registered addresses in the iteration order of the map: the first
  shutdown of the scheduler also stops the queues that are registered with it.
\<close>

definition as_stop_scheduler :: "(unit, 'm, 'r, 'f, 'u, 'cb) as_prog" where
  "as_stop_scheduler = (\<lambda>(y, us).
     (case sc_shutdown_flag (as_sched y) of (was, c) \<Rightarrow>
        (if was then ret () else
           tsl_for_each (\<lambda>p. on_object p (on_actor (modify (\<lambda>a. a\<lparr>ac_queue := bq_stop (ac_queue a)\<rparr>))))
             (sc_queues c)) (y\<lparr>as_sched := c\<rparr>, us)))"

definition as_shutdown :: "nat \<Rightarrow> nat list \<Rightarrow> (unit, 'm, 'r, 'f, 'u, 'cb) as_prog" where
  "as_shutdown t order =
     bindP (seqP (\<lambda>p. on_object p (ac_stop t)) order) (\<lambda>_.
     bindP as_stop_scheduler (\<lambda>_.
     modify (\<lambda>(y, us). (y\<lparr>as_names := Map.empty\<rparr>, us))))"

text \<open>The destructor: \<open>Shutdown\<close>, and then the members, of which the scheduler is the first to be
  created and the last to be destroyed; its own \<open>Shutdown\<close> finds that it is done.\<close>

definition as_dtor :: "nat \<Rightarrow> nat list \<Rightarrow> (unit, 'm, 'r, 'f, 'u, 'cb) as_prog" where
  "as_dtor t order = bindP (as_shutdown t order) (\<lambda>_ (y, us). (sc_free_queues (as_sched y), y, us))"

definition as_registered_count :: "('m, 'r, 'f) actor_system \<Rightarrow> nat" where
  "as_registered_count y = card (dom (as_names y))"

definition as_get_lifecycle :: "('m, 'r, 'f) actor_system \<Rightarrow> lifecycle" where
  "as_get_lifecycle y = as_lc y"

definition as_new :: "bool \<Rightarrow> (nat \<Rightarrow> ('m, 'r) actor) \<Rightarrow> 'f sched \<Rightarrow> ('m, 'r, 'f) actor_system" where
  "as_new has_store objs c =
     \<lparr>as_names = Map.empty, as_objects = objs, as_lc = lc_new has_store, as_sched = c\<rparr>"

section \<open>Starting an actor\<close>

lemma initialize_valid:
  assumes "lc_owner (ac_lc a) = None" and "ac_id a \<notin> set (lc_active (ac_lc a))"
    and "\<not> ac_init a" and "lc_validate (ac_id a)"
  shows "ac_initialize B t (a, u, s) =
    (Undef Relock, a\<lparr>ac_init := True, ac_lc := (ac_lc a)\<lparr>lc_owner := Some t\<rparr>\<rparr>, u, s)"
proof -
  have free: "(ac_lc a)\<lparr>lc_owner := None\<rparr> = ac_lc a" using assms(1) by (cases "ac_lc a") simp
  have ex: "lc_actor_exists t (ac_id a) (ac_lc a, s) = (Ret False, ac_lc a, s)"
    using assms(1,2) free by (simp add: lc_actor_exists_def lc_locked_free gets_def)
  show ?thesis
    using assms(3) ex spawn_relocks [OF assms(4,1), of t "\<lambda>_. (0, 0)" "[]" s]
    by (simp add: ac_initialize_def on_lifecycle_def zoom_def bindP_def catchP_def)
qed

lemma initialize_invalid:
  assumes "lc_owner (ac_lc a) = None" and "ac_id a \<notin> set (lc_active (ac_lc a))"
    and "\<not> ac_init a" and "\<not> lc_validate (ac_id a)"
  shows "ac_initialize B t (a, u, s) = (Ret False, a\<lparr>ac_errors := ac_errors a @
    [(''Initialization failed: '', Some (Runtime_error ''Failed to spawn actor in lifecycle''))]\<rparr>, u, s)"
proof -
  have free: "(ac_lc a)\<lparr>lc_owner := None\<rparr> = ac_lc a" using assms(1) by (cases "ac_lc a") simp
  have ex: "lc_actor_exists t (ac_id a) (ac_lc a, s) = (Ret False, ac_lc a, s)"
    using assms(1,2) free by (simp add: lc_actor_exists_def lc_locked_free gets_def)
  have "a\<lparr>ac_init := False\<rparr> = a" using assms(3) by (cases a) simp
  then show ?thesis
    using assms(3,4) ex
    by (cases a) (simp add: ac_initialize_def ac_handle_error_def on_actor_def on_lifecycle_def zoom_def
        bindP_def catchP_def lc_spawn_def ret_def throwP_def modify_def)
qed

text \<open>No actor ever starts: \<open>Initialize\<close> of an actor that is not active yet ends, for a valid
  identifier, with the thread stuck in \<open>SpawnActor\<close>, after the actor has been marked as
  initialised and before any state was loaded or the processing thread started; for an invalid
  identifier it reports the error, returns false and leaves the actor uninitialised.\<close>

theorem ac_initialize_never_starts:
  assumes "lc_owner (ac_lc a) = None" and "ac_id a \<notin> set (lc_active (ac_lc a))" and "\<not> ac_init a"
    and "ac_initialize B t (a, u, s) = (r, a', u', s')"
  shows "u' = u \<and> s' = s \<and> ac_proc a' = ac_proc a \<and> ac_thread a' = ac_thread a \<and>
    (if lc_validate (ac_id a) then r = Undef Relock \<and> ac_init a'
     else r = Ret False \<and> \<not> ac_init a' \<and> length (ac_errors a') = Suc (length (ac_errors a)))"
  using initialize_valid [OF assms(1-3), of B t u s]
    initialize_invalid [OF assms(1-3), of B t u s] assms(3,4)
  by (auto split: if_splits)

definition ex_behaviour :: "(string, string, string list) behaviour" where
  "ex_behaviour = \<lparr>on_message = (\<lambda>m log. (Ret (), log @ [m])), on_ask = (\<lambda>m log. (Ret m, log)),
     load_state = ret False, init_default = ret (), serialize = ret []\<rparr>"

theorem ac_initialize_never_starts_witness:
  "\<exists>r a' u' s'. ac_initialize ex_behaviour 1 (ac_new ''a'' True 10 :: (string, string) actor, [], ex_store WriteAhead) =
     (r, a', u', s') \<and> r = Undef Relock \<and> ac_init a' \<and> \<not> ac_thread a'"
proof -
  let ?a = "ac_new ''a'' True 10 :: (string, string) actor"
  obtain r a' u' s' where run: "ac_initialize ex_behaviour 1 (?a, [], ex_store WriteAhead) = (r, a', u', s')"
    by (metis prod_cases4)
  have "lc_validate (ac_id ?a)" by (simp add: ac_new_def lc_validate_def id_char_def)
  moreover have "lc_owner (ac_lc ?a) = None" "ac_id ?a \<notin> set (lc_active (ac_lc ?a))" "\<not> ac_init ?a"
    "\<not> ac_thread ?a" by (simp_all add: ac_new_def lc_new_def)
  ultimately have "r = Undef Relock \<and> ac_init a' \<and> \<not> ac_thread a'"
    using ac_initialize_never_starts [OF _ _ _ run] by simp
  with run show ?thesis by blast
qed

text \<open>The failed start looks like a success to the rest of the program: after it, another
  thread's \<open>Initialize\<close> returns true and \<open>Tell\<close> accepts messages into a queue that no
  processing thread reads.\<close>

theorem ac_half_started:
  assumes "lc_owner (ac_lc a) = None" and "ac_id a \<notin> set (lc_active (ac_lc a))" and "\<not> ac_init a"
    and "lc_validate (ac_id a)" and "\<not> ac_thread a"
    and "\<not> bq_stopped (ac_queue a)" and "length (bq_items (ac_queue a)) < bq_max (ac_queue a)"
    and "ac_initialize B t (a, u, s) = (r, a1, u1, s1)"
    and "ac_initialize B t2 (a1, u1, s1) = (r2, a2, u2, s2)"
    and "ac_tell True m (a2, u2, s2) = (r3, a3, u3, s3)"
  shows "r2 = Ret True \<and> r3 = Ret () \<and>
    bq_items (ac_queue a3) = bq_items (ac_queue a) @ [Some (Tell_Task m)] \<and> \<not> ac_thread a3"
proof -
  have a1: "a1 = a\<lparr>ac_init := True, ac_lc := (ac_lc a)\<lparr>lc_owner := Some t\<rparr>\<rparr>"
    using initialize_valid [OF assms(1-4), of B t u s] assms(8) by simp
  with assms(9) have a2: "r2 = Ret True" "a2 = a1" by (simp_all add: ac_initialize_def)
  from assms(10) a1 a2 assms(5-7) show ?thesis
    by (auto simp: ac_tell_def ac_push_def on_actor_def zoom_def bindP_def catchP_def ret_def
        bq_push_def bq_enqueue_def)
qed

theorem ac_half_started_witness:
  "\<exists>r a1 u1 s1 r2 a2 u2 s2 r3 a3 u3 s3.
     ac_initialize ex_behaviour 1 (ac_new ''a'' True 10 :: (string, string) actor, [], ex_store WriteAhead) = (r, a1, u1, s1) \<and>
     ac_initialize ex_behaviour 2 (a1, u1, s1) = (r2, a2, u2, s2) \<and> r2 = Ret True \<and>
     ac_tell True ''hi'' (a2, u2, s2) = (r3, a3, u3, s3) \<and>
     bq_items (ac_queue a3) = [Some (Tell_Task ''hi'')] \<and> \<not> ac_thread a3"
proof -
  let ?a = "ac_new ''a'' True 10 :: (string, string) actor"
  obtain r a1 u1 s1 where 1: "ac_initialize ex_behaviour 1 (?a, [], ex_store WriteAhead) = (r, a1, u1, s1)"
    by (metis prod_cases4)
  obtain r2 a2 u2 s2 where 2: "ac_initialize ex_behaviour 2 (a1, u1, s1) = (r2, a2, u2, s2)"
    by (metis prod_cases4)
  obtain r3 a3 u3 s3 where 3: "ac_tell True ''hi'' (a2, u2, s2) = (r3, a3, u3, s3)" by (metis prod_cases4)
  have q: "bq_items (ac_queue ?a) = []" by (simp add: ac_new_def)
  have "lc_owner (ac_lc ?a) = None" "ac_id ?a \<notin> set (lc_active (ac_lc ?a))" "\<not> ac_init ?a"
    "lc_validate (ac_id ?a)" "\<not> ac_thread ?a" "\<not> bq_stopped (ac_queue ?a)"
    "length (bq_items (ac_queue ?a)) < bq_max (ac_queue ?a)"
    by (simp_all add: ac_new_def lc_new_def lc_validate_def id_char_def)
  from ac_half_started [OF this 1 2 3] q have "r2 = Ret True" "bq_items (ac_queue a3) = [Some (Tell_Task ''hi'')]"
    "\<not> ac_thread a3" by simp_all
  with 1 2 3 show ?thesis by blast
qed

section \<open>Processing messages\<close>

lemma handle_error_Ret:
  "ac_handle_error msg e (a, us) = (Ret (), a\<lparr>ac_errors := ac_errors a @ [(msg, e)]\<rparr>, us)"
  by (simp add: ac_handle_error_def on_actor_def zoom_def modify_def)

lemma auto_persist_keeps:
  assumes "ac_auto_persist B (a, u, s) = (r, a', u', s')"
  shows "ac_promises a' = ac_promises a \<and> ac_queue a' = ac_queue a \<and> (\<forall>e. r \<noteq> Throw e) \<and>
    ac_persist a' = ac_persist a \<and> ac_has_store a' = ac_has_store a"
proof -
  obtain x u2 where ser: "serialize B u = (x, u2)" by (rule prod.exhaust)
  then show ?thesis using assms
    by (cases x) (auto simp: ac_auto_persist_def gets_def ac_persist_state_def on_user_def zoom_def
        bindP_def catchP_def ret_def handle_error_Ret split: if_splits)
qed

text \<open>Every \<open>Ask\<close> that is processed is answered: running the task of an \<open>Ask\<close> whose promise
  is unset sets that promise, and no other, to the result of the actor's method or to the
  exception it threw; a failure to persist afterwards does not disturb the answer.\<close>

theorem ac_ask_answered:
  assumes "ac_promises a i = Unset" and "ac_run_task B (Ask_Task m i) (a, u, s) = (Ret (), a', u', s')"
  shows "(case fst (on_ask B m u) of
      Ret r \<Rightarrow> ac_promises a' = (ac_promises a)(i := Value r)
    | Throw e \<Rightarrow> ac_promises a' = (ac_promises a)(i := Error e)
    | _ \<Rightarrow> False)"
proof -
  obtain x u2 where ask: "on_ask B m u = (x, u2)" by (rule prod.exhaust)
  show ?thesis
  proof (cases x)
    case (Ret r)
    let ?a = "a\<lparr>ac_promises := (ac_promises a)(i := Value r)\<rparr>"
    obtain y a2 u3 s2 where p: "ac_auto_persist B (?a, u2, s) = (y, a2, u3, s2)" by (metis prod_cases4)
    have "ac_run_task B (Ask_Task m i) (a, u, s) = (y, a2, u3, s2)"
      using ask Ret p auto_persist_keeps [OF p] assms(1)
      by (cases y) (simp_all add: on_user_def on_actor_def zoom_def bindP_def catchP_def set_promise_def)
    with assms(2) ask Ret auto_persist_keeps [OF p] show ?thesis by simp
  next
    case (Throw e)
    with ask assms show ?thesis
      by (auto simp: on_user_def on_actor_def zoom_def bindP_def catchP_def set_promise_def gets_def
          handle_error_Ret)
  qed (use ask assms in \<open>auto simp: on_user_def zoom_def bindP_def catchP_def\<close>)
qed

theorem ac_ask_answered_witness:
  "\<exists>a' u' s'. ac_run_task ex_behaviour (Ask_Task ''q'' 3) (ac_new ''a'' True 10, [], ex_store WriteAhead) =
     (Ret (), a', u', s') \<and> ac_promises a' 3 = Value ''q'' \<and> ac_promises a' 4 = Unset"
proof -
  let ?a = "ac_new ''a'' True 10 :: (string, string) actor"
  have un: "ac_promises ?a = (\<lambda>_. Unset)" by (simp add: ac_new_def)
  have "\<exists>a'. ac_run_task ex_behaviour (Ask_Task ''q'' 3) (?a, [], ex_store WriteAhead) =
      (Ret (), a', [], ex_store WriteAhead)"
    by (simp add: ex_behaviour_def on_user_def on_actor_def zoom_def bindP_def catchP_def set_promise_def
        un ac_auto_persist_def gets_def ac_persist_state_def ret_def ac_new_def)
  then obtain a' where run: "ac_run_task ex_behaviour (Ask_Task ''q'' 3) (?a, [], ex_store WriteAhead) =
      (Ret (), a', [], ex_store WriteAhead)" by blast
  have "ac_promises ?a 3 = Unset" by (simp add: un)
  from ac_ask_answered [OF this run] run show ?thesis by (simp add: ex_behaviour_def un)
qed

text \<open>The processing thread survives the exceptions of the actor's methods: whatever they
  throw, no iteration of the loop throws.\<close>

theorem ac_process_never_throws:
  "fst (ac_process B (a, u, s)) \<noteq> Throw e"
proof -
  have h: "fst (catchP m (\<lambda>e. ac_handle_error msg (Some e)) z) \<noteq> Throw x"
    for m :: "(unit, 'a, 'b, 'c, 'd) ac_prog" and msg z x
  proof -
    obtain r a' us where "m z = (r, a', us)" by (metis prod_cases3)
    then show ?thesis by (cases r) (simp_all add: catchP_def handle_error_Ret)
  qed
  show ?thesis unfolding ac_process_def by (rule h)
qed

lemma process_tell:
  assumes "bq_inv (ac_queue a)" and "\<not> bq_stopped (ac_queue a)"
    and "bq_items (ac_queue a) = Some (Tell_Task m) # ts" and "on_message B m u = (Ret (), u2)"
    and "\<not> ac_persist a"
  shows "\<exists>q. ac_process B (a, u, s) = (Ret (), a\<lparr>ac_queue := q\<rparr>, u2, s) \<and> bq_inv q \<and>
    \<not> bq_stopped q \<and> bq_items q = ts"
proof -
  let ?q = "(ac_queue a)\<lparr>bq_items := ts, bq_size := bq_size (ac_queue a) - 1\<rparr>"
  have pop: "bq_wait_pop 100 True (ac_queue a) = (Ret (Some (Some (Tell_Task m))), ?q)"
    using assms(2,3) by (simp add: bq_wait_pop_def bq_pop_def)
  moreover have "bq_inv ?q" using bq_wait_pop_inv [OF assms(1), of 100 True] pop by simp
  ultimately show ?thesis using assms(2,4,5)
    by (intro exI [of _ ?q]) (simp add: ac_process_def on_actor_def on_user_def zoom_def bindP_def
        catchP_def ac_auto_persist_def gets_def ret_def)
qed

lemma process_in_order:
  assumes "bq_inv (ac_queue a)" and "\<not> bq_stopped (ac_queue a)" and "\<not> ac_persist a"
    and "bq_items (ac_queue a) = map (\<lambda>m. Some (Tell_Task m)) ms"
    and "\<And>m u. on_message B m u = (Ret (), f m u)"
  shows "\<exists>a'. seqP (\<lambda>_. ac_process B) ms (a, u, s) = (Ret (), a', fold f ms u, s) \<and>
    bq_items (ac_queue a') = []"
  using assms(1-4)
proof (induction ms arbitrary: a u)
  case (Cons m ms)
  from process_tell [OF Cons.prems(1,2) _ assms(5) Cons.prems(3), of m "map (\<lambda>m. Some (Tell_Task m)) ms" u s]
    Cons.prems(4) obtain q where
    q: "ac_process B (a, u, s) = (Ret (), a\<lparr>ac_queue := q\<rparr>, f m u, s)" "bq_inv q" "\<not> bq_stopped q"
    "bq_items q = map (\<lambda>m. Some (Tell_Task m)) ms" by auto
  from Cons.IH [of "a\<lparr>ac_queue := q\<rparr>" "f m u"] q Cons.prems(3) show ?case by simp
qed simp



text \<open>The queue capacity is a \<open>size_t\<close> cut to 32 bits: with a capacity that is a multiple of
  \<open>2 ^ 32\<close> the queue has no room at all, and every \<open>Tell\<close> to the running actor waits forever.\<close>

theorem ac_capacity_truncated:
  assumes "unat c mod 2 ^ 32 = 0" and "a = (ac_new i b c)\<lparr>ac_init := True\<rparr>"
  shows "bq_max (ac_queue a) = 0 \<and> fst (ac_tell acc m (a, u, s)) = Blocked"
proof -
  have "unat (ucast c :: u32) = unat c mod 2 ^ 32" by (simp add: unsigned_ucast_eq take_bit_eq_mod)
  then have "bq_max (ac_queue a) = 0" using assms by (simp add: ac_new_def)
  then show ?thesis using assms(2)
    by (simp add: ac_tell_def ac_push_def on_actor_def zoom_def bindP_def catchP_def bq_push_def ac_new_def)
qed

theorem ac_capacity_truncated_witness:
  "fst (ac_tell True ''m'' ((ac_new ''a'' True 4294967296 :: (string, string) actor)\<lparr>ac_init := True\<rparr>,
     [], ex_store WriteAhead)) = Blocked"
proof -
  have "unat (4294967296 :: u64) mod 2 ^ 32 = 0" by simp
  from ac_capacity_truncated [OF this refl] show ?thesis by (rule conjunct2)
qed

section \<open>The registry\<close>

text \<open>\<open>Deregister\<close> never succeeds: the system terminates the actor in its own lifecycle, in
  which no actor is ever active (the actors spawn in theirs), so the call returns false for an
  unknown actor and does not return true for any; for an actor registered with the scheduler
  it does not return at all, because the scheduler's list runs into freed memory, and the
  entry is still in the registry.\<close>

theorem as_deregister_never_true:
  assumes "lc_active (as_lc y) = []" and "as_deregister t i (y, u, s) = (r, y', u', s')"
    and "tsl_inv (sc_queues (as_sched y))"
  shows "r \<noteq> Ret True \<and> (as_names y i = None \<longrightarrow> r = Ret False \<and> y' = y) \<and>
    (\<forall>p. as_names y i = Some p \<and> p \<in> set (contents (sc_queues (as_sched y))) \<longrightarrow>
       \<not> returns r \<and> as_names y' = as_names y)"
proof (cases "as_names y i")
  case None
  with assms(2) show ?thesis by (auto simp: as_deregister_def)
next
  case (Some p)
  obtain r1 y1 u1 s1 where st: "on_object p (ac_stop t) (y, u, s) = (r1, y1, u1, s1)" by (metis prod_cases4)
  then have y1: "as_lc y1 = as_lc y" "as_names y1 = as_names y" "as_sched y1 = as_sched y"
    by (auto simp: on_object_def zoom_def split: prod.splits)
  obtain r2 c where de: "sc_deregister p (as_sched y) = (r2, c)" by (rule prod.exhaust)
  obtain r3 l s3 where te: "lc_terminate t i False (as_lc y, s1) = (r3, l, s3)" by (metis prod_cases3)
  have r3: "r3 \<noteq> Ret True"
    using te assms(1) by (auto simp: lc_terminate_def lc_locked_def gets_def bindP_def ret_def
        split: option.splits if_splits)
  have eq: "as_deregister t i (y, u, s) = (case r1 of
      Ret _ \<Rightarrow> (case r2 of
          Ret _ \<Rightarrow> (r3, y1\<lparr>as_sched := c, as_names := (as_names y)(i := None), as_lc := l\<rparr>, u1, s3)
        | _ \<Rightarrow> (abort_of r2, y1\<lparr>as_sched := c\<rparr>, u1, s1))
    | _ \<Rightarrow> (abort_of r1, y1, u1, s1))"
    using Some st de te y1
    by (cases r1; cases r2) (simp_all add: as_deregister_def bindP_def zoom_def modify_def)
  have "r \<noteq> Ret True" using assms(2) [unfolded eq] r3 by (auto split: outcome.splits)
  moreover have "\<not> returns r \<and> as_names y' = as_names y" if "p \<in> set (contents (sc_queues (as_sched y)))"
  proof -
    from deregister_registered [OF assms(3) that] de have "r2 = Undef Use_after_free" by simp
    with assms(2) [unfolded eq] y1 show ?thesis by (auto split: outcome.splits simp: returns_iff)
  qed
  ultimately show ?thesis using Some by simp
qed

theorem as_deregister_never_true_witness:
  "fst (as_deregister 1 ''a'' (as_new True (\<lambda>_. ac_new ''a'' True 10 :: (string, string) actor) ex_sched,
     [] :: string list, ex_store WriteAhead)) = Ret False"
proof -
  let ?y = "as_new True (\<lambda>_. ac_new ''a'' True 10 :: (string, string) actor) ex_sched"
  obtain r y' u' s' where run: "as_deregister 1 ''a'' (?y, [] :: string list, ex_store WriteAhead) = (r, y', u', s')"
    by (metis prod_cases4)
  have "lc_active (as_lc ?y) = []" "as_names ?y ''a'' = None" "tsl_inv (sc_queues (as_sched ?y))"
    by (simp_all add: as_new_def lc_new_def ex_sched_def)
  with as_deregister_never_true [OF _ run] run show ?thesis by simp
qed

section \<open>The end of the system\<close>

lemma on_object_sched:
  "on_object p m (y, us) = (r, y', us') \<Longrightarrow> as_sched y' = as_sched y \<and> as_names y' = as_names y \<and> as_lc y' = as_lc y"
  by (auto simp: on_object_def zoom_def split: prod.splits)

lemma seq_objects_sched:
  assumes "seqP (\<lambda>p. on_object p (m p)) ps (y, us) = (r, y', us')"
  shows "as_sched y' = as_sched y"
  using seqP_invariant [OF assms, of "\<lambda>(z, _). as_sched z = as_sched y"] on_object_sched by fastforce

text \<open>\<open>Shutdown\<close> of the system keeps the list of work queues, whatever the actors do.\<close>

lemma shutdown_queues:
  assumes "tsl_inv (sc_queues (as_sched y))" and "as_shutdown t order (y, us) = (Ret (), y', us')"
  shows "sc_queues (as_sched y') = sc_queues (as_sched y) \<and> sc_done (as_sched y') \<and> as_names y' = Map.empty"
proof -
  from assms(2) obtain y1 us1 y2 us2 where
    a: "seqP (\<lambda>p. on_object p (ac_stop t)) order (y, us) = (Ret (), y1, us1)"
    and b: "as_stop_scheduler (y1, us1) = (Ret (), y2, us2)" and c: "y' = y2\<lparr>as_names := Map.empty\<rparr>"
    by (auto simp: as_shutdown_def bindP_eq_Ret modify_def)
  have y1: "as_sched y1 = as_sched y" by (rule seq_objects_sched [OF a])
  let ?c = "(as_sched y1)\<lparr>sc_done := True\<rparr>"
  have inv: "tsl_inv (sc_queues (as_sched y1))" using assms(1) y1 by simp
  have "as_sched y2 = ?c"
  proof (cases "sc_done (as_sched y1)")
    case True
    with b show ?thesis by (auto simp: as_stop_scheduler_def sc_shutdown_flag_def ret_def)
  next
    case False
    have "seqP (\<lambda>p. on_object p (on_actor (modify (\<lambda>a. a\<lparr>ac_queue := bq_stop (ac_queue a)\<rparr>))))
        (contents (sc_queues (as_sched y1))) (y1\<lparr>as_sched := ?c\<rparr>, us1) = (Ret (), y2, us2)"
      using b False by (simp add: as_stop_scheduler_def sc_shutdown_flag_def for_each_contents [OF inv])
    from seq_objects_sched [OF this] show ?thesis by simp
  qed
  with y1 c show ?thesis by simp
qed

lemma stop_object:
  "on_object p (on_actor (modify g)) (y, us) = (Ret (), y\<lparr>as_objects := (as_objects y)(p := g (as_objects y p))\<rparr>, us)"
  by (simp add: on_object_def on_actor_def zoom_def modify_def split: prod.splits)

lemma stop_scheduler_returns:
  assumes "tsl_inv (sc_queues (as_sched y))"
  shows "\<exists>y'. as_stop_scheduler (y, us) = (Ret (), y', us)"
proof -
  have seq: "\<exists>z'. seqP (\<lambda>p. on_object p (on_actor (modify g))) ps (z, us) = (Ret (), z', us)"
    for ps g and z :: "('m, 'r, 'f) actor_system"
    by (induction ps arbitrary: z) (simp_all add: stop_object)
  let ?c = "(as_sched y)\<lparr>sc_done := True\<rparr>"
  have "tsl_inv (sc_queues ?c)" using assms by simp
  note each = for_each_contents [OF this]
  show ?thesis using seq [of "\<lambda>a. a\<lparr>ac_queue := bq_stop (ac_queue a)\<rparr>" "contents (sc_queues ?c)" "y\<lparr>as_sched := ?c\<rparr>"]
    unfolding each [symmetric] by (simp add: as_stop_scheduler_def sc_shutdown_flag_def ret_def)
qed

text \<open>An actor system with which an actor is still registered cannot be destroyed: \<open>Shutdown\<close> stops the
  actors and clears the registry, but it leaves the scheduler's list of work queues as it is, and the
  destructor of the list reads freed memory unless the list is empty.\<close>

theorem as_dtor_uaf:
  assumes "tsl_inv (sc_queues (as_sched y))" and "as_shutdown t order (y, us) = (Ret (), y', us')"
  shows "as_dtor t order (y, us) =
    (if contents (sc_queues (as_sched y)) = [] then Ret () else Undef Use_after_free, y', us') \<and>
    as_names y' = Map.empty"
  using shutdown_queues [OF assms] destroy_outcome [OF assms(1)] assms(2)
  by (simp add: as_dtor_def bindP_def sc_free_queues_def)

theorem as_dtor_uaf_witness:
  "fst (as_dtor 1 [] ((as_new True (\<lambda>_. ac_new ''a'' True 10 :: (string, string) actor) (sc_register 7 ex_sched))
     \<lparr>as_names := [''a'' \<mapsto> 7]\<rparr>, [] :: string list, ex_store WriteAhead)) = Undef Use_after_free"
proof -
  let ?y = "(as_new True (\<lambda>_. ac_new ''a'' True 10 :: (string, string) actor) (sc_register 7 ex_sched))
     \<lparr>as_names := [''a'' \<mapsto> 7]\<rparr>"
  have c: "tsl_inv (sc_queues (as_sched ?y))" "contents (sc_queues (as_sched ?y)) = [7]" "\<not> sc_done (as_sched ?y)"
    by (simp_all add: as_new_def sc_register_def ex_sched_def)
  have "\<exists>y' us'. as_shutdown 1 [] (?y, [] :: string list, ex_store WriteAhead) = (Ret (), y', us')"
    using stop_scheduler_returns [OF c(1), of "([] :: string list, ex_store WriteAhead)"]
    by (auto simp: as_shutdown_def bindP_def modify_def)
  then obtain y' us' where "as_shutdown 1 [] (?y, [] :: string list, ex_store WriteAhead) = (Ret (), y', us')" by blast
  from as_dtor_uaf [OF c(1) this] c(2) show ?thesis by simp
qed

end
