(* ===== verification/System_Locking.thy ===== *)
theory System_Locking
  imports Threadsafe_Queue
begin

text \<open>
  The mutex of \<open>ActorSystem\<close> against the processing thread of an actor (\<^verbatim>\<open>src/actor_system.h\<close>,
  \<^verbatim>\<open>src/actor_system.cpp\<close>, \<^verbatim>\<open>src/abstract_actor.h\<close>). \<open>Shutdown\<close> and \<open>Deregister\<close> hold the mutex while they
  call \<open>Stop\<close>, which joins that thread; a message handler that calls the system, for
  \<open>GetActor\<close> say, takes the same mutex. One actor is registered and its handler gets to the system or does
  not, depending on the message: \<open>True\<close> in the queue is a message whose handler calls the system.
\<close>

section \<open>The two threads\<close>

text \<open>\<open>Shutdown\<close>: before the lock, holding it, after \<open>queue_.Stop()\<close> (at the join), after the join, returned.\<close>

datatype stopper = St_Start | St_Locked | St_Joining | St_Joined | St_Done

text \<open>
  \<open>ProcessMessages\<close>: at the test of \<open>is_processing_\<close>, in \<open>WaitAndPop\<close>, in a handler, at the mutex of the
  system, holding it, and at its end.
\<close>

datatype handler = H_Test | H_Pop | H_Task bool | H_Wants | H_Holds | H_Exit

record actor_and_system =
  ay_mutex :: bool
  ay_stopper :: stopper
  ay_handler :: handler
  ay_proc :: bool
  ay_queue :: "bool bqueue"

definition ay_init :: "bool bqueue \<Rightarrow> actor_and_system" where
  "ay_init q = \<lparr>ay_mutex = False, ay_stopper = St_Start, ay_handler = H_Test, ay_proc = True, ay_queue = q\<rparr>"

inductive ay_step :: "actor_and_system \<Rightarrow> actor_and_system \<Rightarrow> bool" where
  lock: "ay_stopper s = St_Start \<Longrightarrow> \<not> ay_mutex s \<Longrightarrow> ay_step s (s\<lparr>ay_stopper := St_Locked, ay_mutex := True\<rparr>)"
| stop: "ay_stopper s = St_Locked \<Longrightarrow>
    ay_step s (s\<lparr>ay_stopper := St_Joining, ay_proc := False, ay_queue := bq_stop (ay_queue s)\<rparr>)"
| join: "ay_stopper s = St_Joining \<Longrightarrow> ay_handler s = H_Exit \<Longrightarrow> ay_step s (s\<lparr>ay_stopper := St_Joined\<rparr>)"
| unlock: "ay_stopper s = St_Joined \<Longrightarrow> ay_step s (s\<lparr>ay_stopper := St_Done, ay_mutex := False\<rparr>)"
| test: "ay_handler s = H_Test \<Longrightarrow> ay_step s (s\<lparr>ay_handler := (if ay_proc s then H_Pop else H_Exit)\<rparr>)"
| pop: "ay_handler s = H_Pop \<Longrightarrow> bq_wait_pop 100 True (ay_queue s) = (Ret (Some c), q) \<Longrightarrow>
    ay_step s (s\<lparr>ay_handler := H_Task c, ay_queue := q\<rparr>)"
| timeout: "ay_handler s = H_Pop \<Longrightarrow> bq_wait_pop 100 True (ay_queue s) = (Ret None, q) \<Longrightarrow>
    ay_step s (s\<lparr>ay_handler := H_Test, ay_queue := q\<rparr>)"
| task: "ay_handler s = H_Task c \<Longrightarrow> ay_step s (s\<lparr>ay_handler := (if c then H_Wants else H_Test)\<rparr>)"
| enter: "ay_handler s = H_Wants \<Longrightarrow> \<not> ay_mutex s \<Longrightarrow> ay_step s (s\<lparr>ay_handler := H_Holds, ay_mutex := True\<rparr>)"
| leave: "ay_handler s = H_Holds \<Longrightarrow> ay_step s (s\<lparr>ay_handler := H_Test, ay_mutex := False\<rparr>)"

inductive_cases ay_stepE: "ay_step s t"

section \<open>Who holds the mutex\<close>

definition ay_inv :: "actor_and_system \<Rightarrow> bool" where
  "ay_inv s \<longleftrightarrow> (ay_mutex s \<longleftrightarrow> ay_stopper s \<in> {St_Locked, St_Joining, St_Joined} \<or> ay_handler s = H_Holds) \<and>
     \<not> (ay_stopper s \<in> {St_Locked, St_Joining, St_Joined} \<and> ay_handler s = H_Holds) \<and>
     (ay_stopper s \<in> {St_Joined, St_Done} \<longrightarrow> ay_handler s = H_Exit) \<and>
     (ay_proc s \<longleftrightarrow> ay_stopper s \<in> {St_Start, St_Locked}) \<and> (ay_handler s = H_Exit \<longrightarrow> \<not> ay_proc s)"

lemma ay_step_inv: "ay_step s t \<Longrightarrow> ay_inv s \<Longrightarrow> ay_inv t"
  by (induction rule: ay_step.induct) (auto simp: ay_inv_def)

lemma ay_reach_inv:
  assumes "ay_step\<^sup>*\<^sup>* (ay_init q) s"
  shows "ay_inv s"
  using assms
proof (induction rule: rtranclp_induct)
  case base
  show ?case by (simp add: ay_inv_def ay_init_def)
qed (rule ay_step_inv)

lemma wait_pop_empty: "bq_items q = [] \<Longrightarrow> bq_wait_pop 100 True q = (Ret None, q)"
  by (simp add: bq_wait_pop_def)

lemma wait_pop_Cons: "bq_items q = c # cs \<Longrightarrow>
    bq_wait_pop 100 True q = (Ret (Some c), q\<lparr>bq_items := cs, bq_size := bq_size q - 1\<rparr>)"
  by (simp add: bq_wait_pop_def bq_pop_def)

text \<open>A handler that cannot go on has ended, or waits for the mutex.\<close>

lemma handler_stuck:
  assumes "\<And>t. \<not> ay_step s t"
  shows "ay_handler s = H_Exit \<or> ay_handler s = H_Wants \<and> ay_mutex s"
proof (cases "ay_handler s")
  case H_Pop
  show ?thesis
  proof (cases "bq_items (ay_queue s)")
    case Nil
    from ay_step.timeout [OF H_Pop wait_pop_empty [OF Nil]] assms show ?thesis by blast
  next
    case (Cons c cs)
    from ay_step.pop [OF H_Pop wait_pop_Cons [OF Cons]] assms show ?thesis by blast
  qed
next
  case H_Test
  from ay_step.test [OF H_Test] assms show ?thesis by blast
next
  case (H_Task c)
  from ay_step.task [OF H_Task] assms show ?thesis by blast
next
  case H_Wants
  then show ?thesis using ay_step.enter [OF H_Wants] assms by blast
next
  case H_Holds
  from ay_step.leave [OF H_Holds] assms show ?thesis by blast
qed simp

lemma ay_stuck:
  assumes "ay_inv s" "\<And>t. \<not> ay_step s t" "ay_stopper s \<noteq> St_Done"
  shows "ay_stopper s = St_Joining \<and> ay_handler s = H_Wants"
proof (cases "ay_stopper s")
  case St_Start
  then show ?thesis using assms(1) handler_stuck [OF assms(2)] ay_step.lock [OF St_Start] assms(2)
    by (auto simp: ay_inv_def)
next
  case St_Locked
  from ay_step.stop [OF St_Locked] assms(2) show ?thesis by blast
next
  case St_Joining
  then show ?thesis using handler_stuck [OF assms(2)] ay_step.join [OF St_Joining] assms(2) by blast
next
  case St_Joined
  from ay_step.unlock [OF St_Joined] assms(2) show ?thesis by blast
qed (use assms(3) in simp)

section \<open>Deadlock\<close>

text \<open>Handlers that stay away from the system.\<close>

definition quiet :: "actor_and_system \<Rightarrow> bool" where
  "quiet s \<longleftrightarrow> True \<notin> set (bq_items (ay_queue s)) \<and> ay_handler s \<notin> {H_Task True, H_Wants, H_Holds}"

lemma stays_quiet_step: "ay_step s t \<Longrightarrow> quiet s \<Longrightarrow> quiet t"
  by (induction rule: ay_step.induct)
    (auto simp: quiet_def bq_stop_def bq_wait_pop_def bq_pop_def split: if_splits list.splits)

lemma stays_quiet: "ay_step\<^sup>*\<^sup>* s t \<Longrightarrow> quiet s \<Longrightarrow> quiet t"
  by (induction rule: rtranclp_induct) (auto intro: stays_quiet_step)

lemma reach_wants:
  assumes "bq_items q = replicate n False @ True # cs"
  shows "\<exists>q'. ay_step\<^sup>*\<^sup>* (ay_init q) ((ay_init q')\<lparr>ay_handler := H_Wants\<rparr>)"
  using assms
proof (induction n arbitrary: q)
  case 0
  let ?q = "q\<lparr>bq_items := cs, bq_size := bq_size q - 1\<rparr>"
  have "ay_step (ay_init q) ((ay_init q)\<lparr>ay_handler := H_Pop\<rparr>)"
    using ay_step.test [of "ay_init q"] by (simp add: ay_init_def)
  moreover have "ay_step ((ay_init q)\<lparr>ay_handler := H_Pop\<rparr>) ((ay_init ?q)\<lparr>ay_handler := H_Task True\<rparr>)"
    using ay_step.pop [OF _ wait_pop_Cons, of "(ay_init q)\<lparr>ay_handler := H_Pop\<rparr>" True cs] 0 by (simp add: ay_init_def)
  moreover have "ay_step ((ay_init ?q)\<lparr>ay_handler := H_Task True\<rparr>) ((ay_init ?q)\<lparr>ay_handler := H_Wants\<rparr>)"
    using ay_step.task [of "(ay_init ?q)\<lparr>ay_handler := H_Task True\<rparr>" True] by (simp add: ay_init_def)
  ultimately show ?case by (intro exI [of _ ?q]) (auto intro: converse_rtranclp_into_rtranclp)
next
  case (Suc n)
  let ?q = "q\<lparr>bq_items := replicate n False @ True # cs, bq_size := bq_size q - 1\<rparr>"
  have "ay_step (ay_init q) ((ay_init q)\<lparr>ay_handler := H_Pop\<rparr>)"
    using ay_step.test [of "ay_init q"] by (simp add: ay_init_def)
  moreover have "ay_step ((ay_init q)\<lparr>ay_handler := H_Pop\<rparr>) ((ay_init ?q)\<lparr>ay_handler := H_Task False\<rparr>)"
    using ay_step.pop [OF _ wait_pop_Cons, of "(ay_init q)\<lparr>ay_handler := H_Pop\<rparr>" False "replicate n False @ True # cs"] Suc.prems
    by (simp add: ay_init_def)
  moreover have "ay_step ((ay_init ?q)\<lparr>ay_handler := H_Task False\<rparr>) (ay_init ?q)"
    using ay_step.task [of "(ay_init ?q)\<lparr>ay_handler := H_Task False\<rparr>" False] by (simp add: ay_init_def)
  moreover obtain q' where "ay_step\<^sup>*\<^sup>* (ay_init ?q) ((ay_init q')\<lparr>ay_handler := H_Wants\<rparr>)"
    using Suc.IH [of ?q] by auto
  ultimately show ?case by (intro exI [of _ q']) (auto intro: converse_rtranclp_into_rtranclp)
qed

lemma wants_deadlock:
  "\<exists>s. ay_step\<^sup>*\<^sup>* ((ay_init q)\<lparr>ay_handler := H_Wants\<rparr>) s \<and> ay_stopper s \<noteq> St_Done \<and> (\<forall>t. \<not> ay_step s t)"
proof -
  let ?a = "(ay_init q)\<lparr>ay_handler := H_Wants\<rparr>"
  let ?b = "?a\<lparr>ay_stopper := St_Locked, ay_mutex := True\<rparr>"
  let ?c = "?b\<lparr>ay_stopper := St_Joining, ay_proc := False, ay_queue := bq_stop q\<rparr>"
  have "ay_step ?a ?b" by (rule ay_step.lock) (simp_all add: ay_init_def)
  moreover have "ay_step ?b ?c" using ay_step.stop [of ?b] by (simp add: ay_init_def)
  moreover have "\<not> ay_step ?c t" for t by (auto elim!: ay_stepE simp: ay_init_def)
  ultimately show ?thesis by (intro exI [of _ ?c]) (auto intro: converse_rtranclp_into_rtranclp)
qed

lemma first_True: "True \<in> set bs \<Longrightarrow> \<exists>n cs. bs = replicate n False @ True # cs"
proof (induction bs)
  case (Cons b bs)
  show ?case
  proof (cases b)
    case True
    then show ?thesis by (intro exI [of _ 0]) simp
  next
    case False
    with Cons obtain n cs where "bs = replicate n False @ True # cs" by auto
    with False show ?thesis by (intro exI [of _ "Suc n"] exI [of _ cs]) simp
  qed
qed simp

text \<open>C30: \<open>Shutdown\<close> and \<open>Deregister\<close> can deadlock with an actor exactly when a handler of one of the messages in its
  queue calls the system: a run from the given queue can get stuck before the call has returned if and
  only if there is such a message. Then the call holds the mutex of the system and waits for the
  processing thread, which waits for the mutex.\<close>

theorem shutdown_deadlock_iff:
  "(\<exists>s. ay_step\<^sup>*\<^sup>* (ay_init q) s \<and> ay_stopper s \<noteq> St_Done \<and> \<not> (\<exists>t. ay_step s t)) \<longleftrightarrow> True \<in> set (bq_items q)"
proof
  assume "True \<in> set (bq_items q)"
  then obtain n cs where "bq_items q = replicate n False @ True # cs" using first_True by blast
  from reach_wants [OF this] obtain q' where "ay_step\<^sup>*\<^sup>* (ay_init q) ((ay_init q')\<lparr>ay_handler := H_Wants\<rparr>)" by blast
  with wants_deadlock [of q'] show "\<exists>s. ay_step\<^sup>*\<^sup>* (ay_init q) s \<and> ay_stopper s \<noteq> St_Done \<and> \<not> (\<exists>t. ay_step s t)"
    by (meson rtranclp_trans)
next
  assume "\<exists>s. ay_step\<^sup>*\<^sup>* (ay_init q) s \<and> ay_stopper s \<noteq> St_Done \<and> \<not> (\<exists>t. ay_step s t)"
  then obtain s where s: "ay_step\<^sup>*\<^sup>* (ay_init q) s" "ay_stopper s \<noteq> St_Done" "\<And>t. \<not> ay_step s t" by blast
  have "ay_handler s = H_Wants" using ay_stuck [OF ay_reach_inv [OF s(1)] s(3,2)] by blast
  then have "\<not> quiet s" by (simp add: quiet_def)
  then have "\<not> quiet (ay_init q)" using stays_quiet [OF s(1)] by blast
  then show "True \<in> set (bq_items q)" by (simp add: quiet_def ay_init_def)
qed

end
