(* ===== verification/Actor_Lifetime.thy ===== *)
theory Actor_Lifetime
  imports Threadsafe_Queue
begin

text \<open>
  Who owns an actor (\<^verbatim>\<open>src/abstract_actor.h\<close>), and which threads run its tasks. Every closure that
  \<open>Tell\<close> or \<open>Ask\<close> puts into the queue captures \<open>self = shared_from_this()\<close>, so the actor is owned by
  its clients, by the tasks in its own queue and by the tasks that are running; whoever gives up
  the last of these references runs the destructor. Tasks are run by the actor's processing thread
  and, once its queue is registered, by the pass of \<open>Scheduler::ScheduleActors\<close> (\<^verbatim>\<open>src/scheduler.cpp\<close>),
  which pops from the same queue. What a task does is left out, except that it may send messages
  to its own actor.
\<close>

section \<open>State\<close>

text \<open>Where the processing thread is: not started, in \<open>WaitAndPop\<close>, running a task, or at its end.\<close>

datatype 'm worker = Absent | Waiting | Running 'm | Exited

text \<open>\<open>Self_join\<close>: the destructor, on the processing thread, joins that thread, which throws out of a
  destructor and ends the program.\<close>

datatype fate = Alive | Destroyed | Self_join

record 'm shared_actor =
  sa_owners :: nat
  sa_queue :: "'m bqueue"
  sa_init :: bool
  sa_proc :: bool
  sa_thread :: "'m worker"
  sa_registered :: bool
  sa_sched :: "'m option"
  sa_joining :: bool
  sa_told :: "'m list"
  sa_started :: "'m list"
  sa_fate :: fate

definition sa_new :: "u32 \<Rightarrow> bool \<Rightarrow> 'm shared_actor" where
  "sa_new capacity registered = \<lparr>sa_owners = 1, sa_queue = bq_new capacity Block, sa_init = False, sa_proc = False,
     sa_thread = Absent, sa_registered = registered, sa_sched = None, sa_joining = False,
     sa_told = [], sa_started = [], sa_fate = Alive\<rparr>"

fun running :: "'m worker \<Rightarrow> bool" where
  "running (Running _) = True"
| "running _ = False"

definition sa_refs :: "'m shared_actor \<Rightarrow> nat" where
  "sa_refs s = sa_owners s + length (bq_items (sa_queue s)) + (if running (sa_thread s) then 1 else 0) +
     (case sa_sched s of None \<Rightarrow> 0 | Some _ \<Rightarrow> 1)"

section \<open>Operations\<close>

text \<open>\<open>Stop\<close> up to the join.\<close>

definition sa_stop :: "'m shared_actor \<Rightarrow> 'm shared_actor" where
  "sa_stop s = (if sa_init s then s\<lparr>sa_init := False, sa_proc := False, sa_queue := bq_stop (sa_queue s)\<rparr> else s)"

text \<open>
  The destructor, when the last reference has gone: \<open>Stop\<close>, whose join, on another thread, waits for
  the processing thread to leave \<open>WaitAndPop\<close> and its loop.
\<close>

definition sa_dtor :: "bool \<Rightarrow> 'm shared_actor \<Rightarrow> 'm shared_actor" where
  "sa_dtor own s = (let s' = sa_stop s in
     if sa_init s \<and> own then s'\<lparr>sa_fate := Self_join\<rparr> else s'\<lparr>sa_thread := Exited, sa_fate := Destroyed\<rparr>)"

definition sa_release :: "bool \<Rightarrow> 'm shared_actor \<Rightarrow> 'm shared_actor" where
  "sa_release own s = (if sa_refs s = 0 then sa_dtor own s else s)"

definition sa_start :: "'m shared_actor \<Rightarrow> 'm shared_actor" where
  "sa_start s = s\<lparr>sa_init := True, sa_proc := True, sa_thread := Waiting\<rparr>"

definition sa_tell :: "'m \<Rightarrow> (unit, 'm shared_actor) prog" where
  "sa_tell m s = (if sa_init s then (case bq_push m (sa_queue s) of (r, q) \<Rightarrow> (r, s\<lparr>sa_queue := q,
     sa_told := sa_told s @ bq_appends (EPush m) (sa_queue s)\<rparr>)) else (Ret (), s))"

text \<open>The loop of \<open>ProcessMessages\<close>: after a task or a timeout the thread looks at \<open>is_processing_\<close>.\<close>

definition sa_again :: "'m shared_actor \<Rightarrow> 'm worker" where
  "sa_again s = (if sa_proc s then Waiting else Exited)"

definition sa_pop :: "int \<Rightarrow> ('m option, 'm shared_actor) prog" where
  "sa_pop timeout s = (case bq_wait_pop timeout True (sa_queue s) of (r, q) \<Rightarrow>
     (r, s\<lparr>sa_queue := q, sa_started := sa_started s @ (case r of Ret (Some m) \<Rightarrow> [m] | _ \<Rightarrow> [])\<rparr>))"

text \<open>The end of an iteration: the closure is destroyed, and with it its reference to the actor.\<close>

definition sa_finish :: "'m shared_actor \<Rightarrow> 'm shared_actor" where
  "sa_finish s = sa_release True (s\<lparr>sa_thread := sa_again s\<rparr>)"

definition sa_sched_finish :: "'m shared_actor \<Rightarrow> 'm shared_actor" where
  "sa_sched_finish s = sa_release False (s\<lparr>sa_sched := None\<rparr>)"

definition sa_drop :: "'m shared_actor \<Rightarrow> 'm shared_actor" where
  "sa_drop s = sa_release False (s\<lparr>sa_owners := sa_owners s - 1\<rparr>)"

text \<open>
  The threads. An owner inside \<open>Stop\<close> keeps its reference until the join is over, and nobody starts the actor
  again before that. A \<open>Tell\<close> that finds the queue full waits and is taken when there is room.
  The two threads take the timeouts of their own calls of \<open>WaitAndPop\<close>. The reference of an actor system to a registered
  actor is one of its owners; a pass of the scheduler after the actor's end, which would follow a dangling
  pointer, is not a step.
\<close>

inductive sa_step :: "'m shared_actor \<Rightarrow> 'm shared_actor \<Rightarrow> bool" where
  share: "sa_fate s = Alive \<Longrightarrow> 0 < sa_owners s \<Longrightarrow> sa_step s (s\<lparr>sa_owners := Suc (sa_owners s)\<rparr>)"
| drop: "sa_fate s = Alive \<Longrightarrow> 0 < sa_owners s \<Longrightarrow> sa_joining s \<longrightarrow> 1 < sa_owners s \<Longrightarrow> sa_step s (sa_drop s)"
| start: "sa_fate s = Alive \<Longrightarrow> 0 < sa_owners s \<Longrightarrow> \<not> sa_init s \<Longrightarrow> \<not> sa_joining s \<Longrightarrow>
    sa_thread s = Absent \<or> sa_thread s = Exited \<Longrightarrow> sa_step s (sa_start s)"
| tell: "sa_fate s = Alive \<Longrightarrow> 0 < sa_owners s \<or> running (sa_thread s) \<or> sa_sched s \<noteq> None \<Longrightarrow>
    sa_tell m s = (Ret (), s') \<Longrightarrow> sa_step s s'"
| take: "sa_fate s = Alive \<Longrightarrow> sa_thread s = Waiting \<Longrightarrow> sa_pop 100 s = (Ret (Some m), s') \<Longrightarrow>
    sa_step s (s'\<lparr>sa_thread := Running m\<rparr>)"
| timeout: "sa_fate s = Alive \<Longrightarrow> sa_thread s = Waiting \<Longrightarrow> sa_pop 100 s = (Ret None, s') \<Longrightarrow>
    sa_step s (s'\<lparr>sa_thread := sa_again s\<rparr>)"
| finish: "sa_fate s = Alive \<Longrightarrow> sa_thread s = Running m \<Longrightarrow> sa_step s (sa_finish s)"
| sched_take: "sa_fate s = Alive \<Longrightarrow> sa_registered s \<Longrightarrow> sa_sched s = None \<Longrightarrow>
    sa_pop 50 s = (Ret (Some m), s') \<Longrightarrow> sa_step s (s'\<lparr>sa_sched := Some m\<rparr>)"
| sched_finish: "sa_fate s = Alive \<Longrightarrow> sa_sched s = Some m \<Longrightarrow> sa_step s (sa_sched_finish s)"
| stop: "sa_fate s = Alive \<Longrightarrow> 0 < sa_owners s \<Longrightarrow> sa_init s \<Longrightarrow> sa_step s ((sa_stop s)\<lparr>sa_joining := True\<rparr>)"
| joined: "sa_fate s = Alive \<Longrightarrow> sa_joining s \<Longrightarrow> sa_thread s = Exited \<Longrightarrow> sa_step s (s\<lparr>sa_joining := False\<rparr>)"

inductive_cases sa_stepE: "sa_step s t"

lemmas sa_defs = sa_stop_def sa_dtor_def sa_release_def sa_start_def sa_tell_def sa_again_def sa_pop_def
  sa_finish_def sa_sched_finish_def sa_drop_def Let_def

section \<open>What one operation does\<close>

lemma sa_tell_Ret:
  assumes "sa_tell m s = (Ret (), t)" "bq_policy (sa_queue s) = Block"
  obtains "t = s"
  | q where "t = s\<lparr>sa_queue := q, sa_told := sa_told s @ [m]\<rparr>" "bq_items q = bq_items (sa_queue s) @ [m]"
      "bq_policy q = Block" "bq_stopped q = bq_stopped (sa_queue s)"
  using assms by (auto simp: sa_tell_def bq_push_def bq_enqueue_def split: if_splits)

lemma sa_pop_Some:
  assumes "sa_pop d s = (Ret (Some m), t)"
  obtains q where "t = s\<lparr>sa_queue := q, sa_started := sa_started s @ [m]\<rparr>" "bq_items (sa_queue s) = m # bq_items q"
      "bq_policy q = bq_policy (sa_queue s)" "bq_stopped q = bq_stopped (sa_queue s)"
proof -
  let ?q = "sa_queue s"
  from assms obtain xs where "bq_items ?q = m # xs"
    and "t = s\<lparr>sa_queue := ?q\<lparr>bq_items := xs, bq_size := bq_size ?q - 1\<rparr>, sa_started := sa_started s @ [m]\<rparr>"
    by (auto simp: sa_pop_def bq_wait_pop_def bq_pop_def split: if_splits list.splits)
  then show thesis by (intro that [of "?q\<lparr>bq_items := xs, bq_size := bq_size ?q - 1\<rparr>"]) simp_all
qed

lemma sa_pop_None: "sa_pop d s = (Ret None, t) \<Longrightarrow> t = s \<and> bq_items (sa_queue s) = []"
  by (auto simp: sa_pop_def bq_wait_pop_def bq_pop_def split: if_splits list.splits)

section \<open>The destructor runs exactly when nobody refers to the actor\<close>

definition sa_ok :: "'m shared_actor \<Rightarrow> bool" where
  "sa_ok s \<longleftrightarrow> bq_policy (sa_queue s) = Block \<and> sa_started s @ bq_items (sa_queue s) = sa_told s \<and>
     (sa_fate s = Alive \<longleftrightarrow> 0 < sa_refs s) \<and> (sa_sched s \<noteq> None \<longrightarrow> sa_registered s) \<and>
     (sa_fate s = Alive \<longrightarrow> (sa_proc s \<longleftrightarrow> sa_init s) \<and>
        (sa_init s \<longrightarrow> sa_thread s = Waiting \<or> running (sa_thread s)) \<and>
        (sa_joining s \<longrightarrow> \<not> sa_init s \<and> 0 < sa_owners s) \<and>
        (\<not> sa_init s \<and> \<not> sa_joining s \<longrightarrow> sa_thread s = Absent \<or> sa_thread s = Exited)) \<and>
     (sa_fate s = Destroyed \<longrightarrow> sa_thread s = Exited \<and> \<not> sa_init s)"

lemma sa_new_ok: "sa_ok (sa_new c r)"
  by (simp add: sa_ok_def sa_new_def sa_refs_def)

lemma running_sa_again [simp]: "\<not> running (sa_again s)" "sa_again s \<noteq> Running m" "sa_again s \<noteq> Absent"
  by (simp_all add: sa_again_def)

lemma sa_release_ok:
  assumes "bq_policy (sa_queue s) = Block" "sa_started s @ bq_items (sa_queue s) = sa_told s" "sa_fate s = Alive"
    and "sa_sched s \<noteq> None \<longrightarrow> sa_registered s" "sa_proc s \<longleftrightarrow> sa_init s"
    and "sa_init s \<longrightarrow> sa_thread s = Waiting \<or> running (sa_thread s)"
    and "sa_joining s \<longrightarrow> \<not> sa_init s \<and> 0 < sa_owners s"
    and "\<not> sa_init s \<and> \<not> sa_joining s \<longrightarrow> sa_thread s = Absent \<or> sa_thread s = Exited"
  shows "sa_ok (sa_release own s)"
  using assms by (auto simp: sa_release_def sa_dtor_def sa_stop_def sa_ok_def sa_refs_def Let_def bq_stop_def)

lemma sa_step_ok:
  assumes "sa_step s t" "sa_ok s"
  shows "sa_ok t"
  using assms(1)
proof cases
  case drop
  show ?thesis unfolding drop(1) sa_drop_def using assms(2) drop
    by (intro sa_release_ok) (auto simp: sa_ok_def)
next
  case (tell m)
  have pol: "bq_policy (sa_queue s) = Block" using assms(2) by (simp add: sa_ok_def)
  from tell(3) pol show ?thesis
  proof (cases rule: sa_tell_Ret)
    case 1
    then show ?thesis using assms(2) by simp
  next
    case (2 q)
    then show ?thesis using assms(2) tell(1) by (auto simp: sa_ok_def sa_refs_def)
  qed
next
  case (take m s')
  from take(4) show ?thesis
    by (rule sa_pop_Some) (use take assms(2) in \<open>auto simp: sa_ok_def sa_refs_def\<close>)
next
  case (timeout s')
  then show ?thesis using assms(2)
    by (auto simp: sa_ok_def sa_refs_def sa_again_def dest!: sa_pop_None)
next
  case (finish m)
  show ?thesis unfolding finish(1) sa_finish_def using assms(2) finish
    by (intro sa_release_ok) (auto simp: sa_ok_def sa_again_def)
next
  case (sched_take m s')
  from sched_take(5) show ?thesis
    by (rule sa_pop_Some) (use sched_take assms(2) in \<open>auto simp: sa_ok_def sa_refs_def\<close>)
next
  case (sched_finish m)
  show ?thesis unfolding sched_finish(1) sa_sched_finish_def using assms(2) sched_finish
    by (intro sa_release_ok) (auto simp: sa_ok_def)
qed (use assms(2) in \<open>auto simp: sa_ok_def sa_refs_def sa_start_def sa_stop_def bq_stop_def\<close>)

lemma sa_reach_ok: "sa_step\<^sup>*\<^sup>* s t \<Longrightarrow> sa_ok s \<Longrightarrow> sa_ok t"
  by (induction rule: rtranclp_induct) (auto intro: sa_step_ok)

lemma sa_release_registered [simp]: "sa_registered (sa_release own s) = sa_registered s"
  by (simp add: sa_release_def sa_dtor_def sa_stop_def Let_def)

lemma sa_tell_registered: "sa_tell m s = (r, t) \<Longrightarrow> sa_registered t = sa_registered s"
  by (auto simp: sa_tell_def split: if_splits prod.splits)

lemma sa_pop_registered: "sa_pop d s = (r, t) \<Longrightarrow> sa_registered t = sa_registered s"
  by (auto simp: sa_pop_def split: prod.splits)

lemma sa_registered_const: "sa_step s t \<Longrightarrow> sa_registered t = sa_registered s"
  by (induction rule: sa_step.induct)
    (auto simp: sa_drop_def sa_start_def sa_finish_def sa_sched_finish_def sa_stop_def
      dest: sa_tell_registered sa_pop_registered)

lemma sa_no_refs:
  "sa_refs s = 0 \<longleftrightarrow> sa_owners s = 0 \<and> bq_items (sa_queue s) = [] \<and> \<not> running (sa_thread s) \<and> sa_sched s = None"
  by (simp add: sa_refs_def split: option.split)

lemma sa_ok_ownership:
  assumes "sa_ok s"
  shows "sa_fate s = Alive \<longleftrightarrow> 0 < sa_refs s" "sa_started s @ bq_items (sa_queue s) = sa_told s"
    and "sa_fate s \<noteq> Alive \<longrightarrow> sa_started s = sa_told s \<and> \<not> running (sa_thread s) \<and> sa_sched s = None"
proof -
  show alive: "sa_fate s = Alive \<longleftrightarrow> 0 < sa_refs s" and told: "sa_started s @ bq_items (sa_queue s) = sa_told s"
    using assms by (simp_all add: sa_ok_def)
  show "sa_fate s \<noteq> Alive \<longrightarrow> sa_started s = sa_told s \<and> \<not> running (sa_thread s) \<and> sa_sched s = None"
  proof
    assume "sa_fate s \<noteq> Alive"
    with alive have "sa_refs s = 0" by simp
    with told show "sa_started s = sa_told s \<and> \<not> running (sa_thread s) \<and> sa_sched s = None"
      by (simp add: sa_no_refs)
  qed
qed

text \<open>C8: An actor lives exactly as long as an owner, a queued task or a task being run refers to it, and
  in every reachable state the tasks started so far, on either of the threads that pop from its queue,
  followed by the tasks still queued are the messages told to it, in that order. So the destructor
  never runs under a task of the actor, and an actor that has been destroyed has started every
  message its queue accepted.\<close>

theorem actor_ownership:
  assumes "sa_step\<^sup>*\<^sup>* (sa_new capacity registered) s"
  shows "(sa_fate s = Alive \<longleftrightarrow> 0 < sa_refs s) \<and> sa_started s @ bq_items (sa_queue s) = sa_told s \<and>
    (sa_fate s \<noteq> Alive \<longrightarrow> sa_started s = sa_told s \<and> \<not> running (sa_thread s) \<and> sa_sched s = None)"
  by (intro conjI sa_ok_ownership sa_reach_ok [OF assms sa_new_ok])

section \<open>Without Stop the actor ends on its own thread\<close>

definition orphan :: "'m shared_actor \<Rightarrow> bool" where
  "orphan s \<longleftrightarrow> sa_owners s = 0 \<and> sa_init s \<and> sa_proc s \<and> \<not> sa_joining s \<and> \<not> sa_registered s \<and> sa_sched s = None \<and>
     sa_fate s = Alive \<and> (sa_thread s = Waiting \<or> running (sa_thread s)) \<and> 0 < sa_refs s \<and> bq_policy (sa_queue s) = Block"

lemma orphan_step:
  assumes "sa_step s t" "orphan s"
  shows "orphan t \<or> sa_fate t = Self_join"
  using assms(1)
proof cases
  case (tell m)
  have pol: "bq_policy (sa_queue s) = Block" using assms(2) by (simp add: orphan_def)
  from tell(3) pol show ?thesis
    by (cases rule: sa_tell_Ret) (use assms(2) in \<open>auto simp: orphan_def sa_refs_def\<close>)
next
  case (take m s')
  from take(4) show ?thesis
    by (rule sa_pop_Some) (use take assms(2) in \<open>auto simp: orphan_def sa_refs_def\<close>)
next
  case (timeout s')
  then show ?thesis using assms(2) sa_pop_None [OF timeout(4)]
    by (auto simp: orphan_def sa_again_def sa_refs_def)
next
  case (finish m)
  then show ?thesis using assms(2)
    by (auto simp: orphan_def sa_finish_def sa_release_def sa_dtor_def sa_stop_def sa_again_def sa_refs_def Let_def)
qed (use assms(2) in \<open>simp_all add: orphan_def\<close>)

lemma dead_stays:
  assumes "sa_step s t" "sa_fate s \<noteq> Alive"
  shows False
  using assms by (auto elim: sa_stepE)

lemma orphan_reach: "sa_step\<^sup>*\<^sup>* s t \<Longrightarrow> orphan s \<Longrightarrow> orphan t \<or> sa_fate t = Self_join"
  by (induction rule: rtranclp_induct) (auto dest: orphan_step dead_stays)

text \<open>The last task of an orphan releases the last reference on the processing thread.\<close>

lemma orphan_finish:
  assumes "orphan s" "sa_thread s = Running m"
  shows "sa_step s (sa_finish s)"
    and "bq_items (sa_queue s) = [] \<Longrightarrow> sa_fate (sa_finish s) = Self_join"
    and "bq_items (sa_queue s) \<noteq> [] \<Longrightarrow> sa_finish s = s\<lparr>sa_thread := Waiting\<rparr>"
proof -
  show "sa_step s (sa_finish s)" using assms by (intro sa_step.finish) (simp_all add: orphan_def)
  show "sa_fate (sa_finish s) = Self_join" if "bq_items (sa_queue s) = []"
    using assms that by (simp add: orphan_def sa_finish_def sa_release_def sa_dtor_def sa_again_def sa_refs_def)
  show "sa_finish s = s\<lparr>sa_thread := Waiting\<rparr>" if "bq_items (sa_queue s) \<noteq> []"
    using assms that by (simp add: orphan_def sa_finish_def sa_release_def sa_again_def sa_refs_def)
qed

lemma sa_pop_Cons:
  "bq_items (sa_queue s) = m # xs \<Longrightarrow> sa_pop d s = (Ret (Some m), s\<lparr>sa_queue := (sa_queue s)\<lparr>bq_items := xs,
     bq_size := bq_size (sa_queue s) - 1\<rparr>, sa_started := sa_started s @ [m]\<rparr>)"
  by (simp add: sa_pop_def bq_wait_pop_def bq_pop_def)

lemma orphan_running_ends:
  assumes "\<And>u. orphan u \<Longrightarrow> sa_thread u = Waiting \<Longrightarrow> bq_items (sa_queue u) = bq_items (sa_queue s) \<Longrightarrow>
      \<exists>t. sa_step\<^sup>*\<^sup>* u t \<and> sa_fate t = Self_join"
    and "orphan s" "sa_thread s = Running m"
  shows "\<exists>t. sa_step\<^sup>*\<^sup>* s t \<and> sa_fate t = Self_join"
proof (cases "bq_items (sa_queue s) = []")
  case True
  then show ?thesis using orphan_finish [OF assms(2,3)] by blast
next
  case False
  have "orphan (sa_finish s)" using assms(2,3) False
    by (simp add: orphan_finish(3) [OF assms(2,3)] orphan_def sa_refs_def)
  then show ?thesis using assms(1) [of "sa_finish s"] orphan_finish [OF assms(2,3)] False
    by (auto intro: converse_rtranclp_into_rtranclp)
qed

lemma orphan_ends: "orphan s \<Longrightarrow> \<exists>t. sa_step\<^sup>*\<^sup>* s t \<and> sa_fate t = Self_join"
proof (induction "length (bq_items (sa_queue s))" arbitrary: s rule: less_induct)
  case less
  have waiting: "\<exists>t. sa_step\<^sup>*\<^sup>* u t \<and> sa_fate t = Self_join"
    if u: "orphan u" "sa_thread u = Waiting" "bq_items (sa_queue u) = bq_items (sa_queue s)" for u
  proof -
    have "bq_items (sa_queue u) \<noteq> []" using u(1,2) by (auto simp: orphan_def sa_refs_def)
    then obtain m xs where it: "bq_items (sa_queue u) = m # xs" by (meson neq_Nil_conv)
    let ?v = "u\<lparr>sa_queue := (sa_queue u)\<lparr>bq_items := xs, bq_size := bq_size (sa_queue u) - 1\<rparr>,
      sa_started := sa_started u @ [m], sa_thread := Running m\<rparr>"
    have "sa_step u ?v"
      using sa_step.take [OF _ u(2) sa_pop_Cons [OF it]] u(1) by (simp add: orphan_def)
    moreover have v: "orphan ?v" "sa_thread ?v = Running m" using u by (simp_all add: orphan_def sa_refs_def)
    moreover have "\<exists>t. sa_step\<^sup>*\<^sup>* ?v t \<and> sa_fate t = Self_join"
    proof (rule orphan_running_ends [OF _ v])
      fix w :: "'a shared_actor"
      assume w: "orphan w" "bq_items (sa_queue w) = bq_items (sa_queue ?v)"
      then have "length (bq_items (sa_queue w)) < length (bq_items (sa_queue s))"
        by (simp add: u(3) [symmetric] it)
      then show "\<exists>t. sa_step\<^sup>*\<^sup>* w t \<and> sa_fate t = Self_join" using less.hyps w(1) by blast
    qed
    ultimately show ?thesis by (auto intro: converse_rtranclp_into_rtranclp)
  qed
  show ?case
  proof (cases "sa_thread s")
    case (Running m)
    then show ?thesis using orphan_running_ends [OF waiting less.prems] by blast
  qed (use less.prems waiting [of s] in \<open>auto simp: orphan_def\<close>)
qed

text \<open>The state of an actor that was started and told \<open>ms\<close>, before its thread takes a message.\<close>

definition sa_after :: "u32 \<Rightarrow> bool \<Rightarrow> 'm list \<Rightarrow> 'm shared_actor" where
  "sa_after c r ms = \<lparr>sa_owners = 1, sa_queue = \<lparr>bq_max = unat c, bq_size = of_nat (length ms), bq_policy = Block,
     bq_items = ms, bq_stopped = False\<rparr>, sa_init = True, sa_proc = True, sa_thread = Waiting,
     sa_registered = r, sa_sched = None, sa_joining = False, sa_told = ms, sa_started = [], sa_fate = Alive\<rparr>"

lemma sa_after_reach: "length ms \<le> unat c \<Longrightarrow> sa_step\<^sup>*\<^sup>* (sa_new c r) (sa_after c r ms)"
proof (induction ms rule: rev_induct)
  case Nil
  have "sa_step (sa_new c r) (sa_start (sa_new c r :: 'a shared_actor))"
    by (rule sa_step.start) (simp_all add: sa_new_def)
  then show ?case by (simp add: sa_start_def sa_new_def sa_after_def bq_new_def r_into_rtranclp)
next
  case (snoc m ms)
  have "sa_step (sa_after c r ms) (sa_after c r (ms @ [m]))"
    by (rule sa_step.tell [where m = m]) (use snoc.prems in
      \<open>simp_all add: sa_after_def sa_tell_def bq_push_def bq_enqueue_def add.commute\<close>)
  then show ?case using snoc by (auto intro: rtranclp.rtrancl_into_rtrancl)
qed



theorem actor_ownership_witness:
  "sa_fate (sa_after 1000 True ''ab'' :: char shared_actor) = Alive \<and> 0 < sa_refs (sa_after 1000 True ''ab'')"
  using actor_ownership [OF sa_after_reach [of "''ab''" 1000 True]] by (simp add: sa_after_def sa_refs_def)

section \<open>With Stop first\<close>

text \<open>The owners that call \<open>Stop\<close> before the last of them lets go.\<close>

definition careful_step :: "'m shared_actor \<Rightarrow> 'm shared_actor \<Rightarrow> bool" where
  "careful_step s t \<longleftrightarrow> sa_step s t \<and> (sa_owners t = 0 \<longrightarrow> \<not> sa_init s)"

definition stopped_first :: "'m shared_actor \<Rightarrow> bool" where
  "stopped_first s \<longleftrightarrow> sa_fate s \<noteq> Self_join \<and> (sa_owners s = 0 \<longrightarrow> \<not> sa_init s)"

lemma sa_release_stopped:
  "\<not> sa_init s \<or> 0 < sa_owners s \<Longrightarrow> sa_fate s = Alive \<Longrightarrow> stopped_first (sa_release own s)"
  by (auto simp: stopped_first_def sa_release_def sa_dtor_def sa_stop_def sa_refs_def Let_def)

lemma sa_drop_owners [simp]: "sa_owners (sa_drop s) = sa_owners s - 1"
  by (simp add: sa_drop_def sa_release_def sa_dtor_def sa_stop_def Let_def)

lemma careful_step_stopped:
  assumes "careful_step s t" "stopped_first s" "sa_ok s"
  shows "stopped_first t"
proof -
  have st: "sa_step s t" and c: "sa_owners t = 0 \<longrightarrow> \<not> sa_init s" using assms(1) by (simp_all add: careful_step_def)
  have pol: "bq_policy (sa_queue s) = Block" using assms(3) by (simp add: sa_ok_def)
  from st show ?thesis
  proof cases
    case drop
    have "\<not> sa_init s \<or> 1 < sa_owners s" using c drop by auto
    then show ?thesis unfolding drop(1) sa_drop_def using drop by (intro sa_release_stopped) auto
  next
    case (tell m)
    from tell(3) pol show ?thesis
      by (cases rule: sa_tell_Ret) (use assms(2) in \<open>auto simp: stopped_first_def\<close>)
  next
    case (take m s')
    from take(4) show ?thesis by (rule sa_pop_Some) (use take assms(2) in \<open>auto simp: stopped_first_def\<close>)
  next
    case (timeout s')
    then show ?thesis using assms(2) sa_pop_None [OF timeout(4)] by (auto simp: stopped_first_def)
  next
    case (finish m)
    show ?thesis unfolding finish(1) sa_finish_def using assms(2) finish
      by (intro sa_release_stopped) (auto simp: stopped_first_def)
  next
    case (sched_take m s')
    from sched_take(5) show ?thesis
      by (rule sa_pop_Some) (use sched_take assms(2) in \<open>auto simp: stopped_first_def\<close>)
  next
    case (sched_finish m)
    show ?thesis unfolding sched_finish(1) sa_sched_finish_def using assms(2) sched_finish
      by (intro sa_release_stopped) (auto simp: stopped_first_def)
  qed (use assms(2) in \<open>auto simp: stopped_first_def sa_start_def sa_stop_def\<close>)
qed

text \<open>C32: If the owners see to it that the actor has been stopped when the last of them lets go, no run
  ends with the destructor joining its own thread.\<close>

theorem stopping_first_is_safe:
  assumes "careful_step\<^sup>*\<^sup>* (sa_new capacity registered) s"
  shows "sa_fate s \<noteq> Self_join"
proof -
  have "stopped_first s \<and> sa_ok s" using assms
  proof (induction rule: rtranclp_induct)
    case base
    then show ?case by (simp add: sa_new_ok) (simp add: stopped_first_def sa_new_def)
  next
    case (step t u)
    then show ?case using careful_step_stopped sa_step_ok by (auto simp: careful_step_def)
  qed
  then show ?thesis by (simp add: stopped_first_def)
qed

theorem stopping_first_is_safe_witness:
  "sa_fate (sa_start (sa_new 8 True) :: nat shared_actor) \<noteq> Self_join"
proof -
  have "sa_step (sa_new 8 True) (sa_start (sa_new 8 True) :: nat shared_actor)"
    by (rule sa_step.start) (simp_all add: sa_new_def)
  then have "careful_step\<^sup>*\<^sup>* (sa_new 8 True) (sa_start (sa_new 8 True) :: nat shared_actor)"
    by (intro r_into_rtranclp) (simp add: careful_step_def sa_new_def)
  then show ?thesis by (rule stopping_first_is_safe)
qed

lemma abandoned_stuck:
  assumes "sa_ok s" "sa_fate s = Alive" "\<not> sa_init s" "sa_owners s = 0" "\<not> sa_registered s"
  shows "bq_items (sa_queue s) \<noteq> [] \<and> \<not> sa_step s t"
proof
  have s: "sa_sched s = None" "\<not> sa_joining s" "\<not> running (sa_thread s)" "sa_thread s \<noteq> Waiting" "0 < sa_refs s"
    using assms by (auto simp: sa_ok_def)
  then show "bq_items (sa_queue s) \<noteq> []" using assms(4) by (auto simp: sa_refs_def)
  show "\<not> sa_step s t"
  proof
    assume "sa_step s t"
    then show False by cases (use assms s in \<open>auto simp: sa_ok_def\<close>)
  qed
qed

text \<open>C33: Stopping does not empty the queue. Once all owners of a stopped actor that no scheduler serves have
  gone and it has not been destroyed, tasks are left in its queue, each holding a reference to the
  actor that holds the queue, and nothing happens any more: the actor and its tasks are never freed.\<close>

theorem stopped_actor_leaks:
  assumes "sa_step\<^sup>*\<^sup>* (sa_new capacity False) s"
    and "sa_fate s = Alive" "\<not> sa_init s" "sa_owners s = 0" "sa_step\<^sup>*\<^sup>* s t"
  shows "t = s \<and> bq_items (sa_queue t) \<noteq> []"
proof -
  have "\<not> sa_registered s" using assms(1)
    by (induction rule: rtranclp_induct) (simp_all add: sa_new_def sa_registered_const)
  then have stuck: "bq_items (sa_queue s) \<noteq> [] \<and> \<not> sa_step s u" for u
    using abandoned_stuck [OF sa_reach_ok [OF assms(1) sa_new_ok]] assms(2-4) by blast
  from assms(5) have "t = s" by (cases rule: converse_rtranclpE) (use stuck in auto)
  then show ?thesis using stuck by simp
qed

text \<open>A run to such a state: two messages, \<open>Stop\<close> while the first is being handled, and the last owner goes.\<close>

definition sa_abandoned :: "'m \<Rightarrow> 'm \<Rightarrow> 'm shared_actor" where
  "sa_abandoned m m' = \<lparr>sa_owners = 0, sa_queue = \<lparr>bq_max = 1000, bq_size = 1, bq_policy = Block,
     bq_items = [m'], bq_stopped = True\<rparr>, sa_init = False, sa_proc = False, sa_thread = Exited,
     sa_registered = False, sa_sched = None, sa_joining = False, sa_told = [m, m'], sa_started = [m], sa_fate = Alive\<rparr>"

lemma sa_stepI: "sa_step\<^sup>*\<^sup>* s t \<Longrightarrow> sa_step t u \<Longrightarrow> sa_step\<^sup>*\<^sup>* s u"
  by (rule rtranclp.rtrancl_into_rtrancl)

lemma sa_abandoned_reach: "sa_step\<^sup>*\<^sup>* (sa_new 1000 False) (sa_abandoned m m')"
proof -
  let ?a = "sa_after 1000 False [m, m']"
  let ?q = "\<lparr>bq_max = 1000, bq_size = 1, bq_policy = Block, bq_items = [m'], bq_stopped = False\<rparr>"
  let ?b = "?a\<lparr>sa_queue := ?q, sa_started := [m], sa_thread := Running m\<rparr>"
  let ?c = "?b\<lparr>sa_init := False, sa_proc := False, sa_queue := ?q\<lparr>bq_stopped := True\<rparr>, sa_joining := True\<rparr>"
  let ?d = "?c\<lparr>sa_thread := Exited\<rparr>"
  have "sa_step ?a ?b"
    using sa_step.take [OF _ _ sa_pop_Cons, of ?a m "[m']"] by (simp add: sa_after_def)
  moreover have "sa_step ?b ?c"
    using sa_step.stop [of ?b] by (simp add: sa_after_def sa_stop_def bq_stop_def)
  moreover have "sa_step ?c ?d"
    using sa_step.finish [of ?c m]
    by (simp add: sa_after_def sa_finish_def sa_release_def sa_refs_def sa_again_def)
  moreover have "sa_step ?d (?d\<lparr>sa_joining := False\<rparr>)"
    by (rule sa_step.joined) (simp_all add: sa_after_def)
  moreover have "sa_step (?d\<lparr>sa_joining := False\<rparr>) (sa_abandoned m m')"
    using sa_step.drop [of "?d\<lparr>sa_joining := False\<rparr>"]
    by (simp add: sa_after_def sa_abandoned_def sa_drop_def sa_release_def sa_refs_def)
  ultimately show ?thesis
    using sa_after_reach [of "[m, m']" 1000 False] by (auto intro: sa_stepI)
qed

theorem stopped_actor_leaks_witness:
  "sa_step\<^sup>*\<^sup>* (sa_new 1000 False) (sa_abandoned ''hi'' ''you'') \<and>
   {t. sa_step\<^sup>*\<^sup>* (sa_abandoned ''hi'' ''you'') t} = {sa_abandoned ''hi'' ''you''}"
proof -
  have s: "sa_fate (sa_abandoned ''hi'' ''you'') = Alive" "\<not> sa_init (sa_abandoned ''hi'' ''you'')"
      "sa_owners (sa_abandoned ''hi'' ''you'') = 0"
    by (simp_all add: sa_abandoned_def)
  have "t = sa_abandoned ''hi'' ''you''" if "sa_step\<^sup>*\<^sup>* (sa_abandoned ''hi'' ''you'') t" for t
    using stopped_actor_leaks [OF sa_abandoned_reach s that] by (rule conjunct1)
  then show ?thesis using sa_abandoned_reach [of "''hi''" "''you''"] by auto
qed

section \<open>Two threads run the tasks of one actor\<close>

text \<open>For any two messages told to a registered actor there is a run in which its processing thread
  handles the first while the scheduler's thread handles the second, and, with one message, a run
  in which \<open>Stop\<close> has returned, the processing thread having ended, while the scheduler's thread
  still handles it. So neither does an actor handle one message at a time nor is it idle once stopped.\<close>

theorem tasks_overlap:
  "(\<exists>s. sa_step\<^sup>*\<^sup>* (sa_new 1000 True) s \<and> sa_thread s = Running m \<and> sa_sched s = Some m') \<and>
   (\<exists>s. sa_step\<^sup>*\<^sup>* (sa_new 1000 True) s \<and> sa_thread s = Exited \<and> \<not> sa_joining s \<and> \<not> sa_init s \<and> sa_sched s = Some m)"
proof
  let ?a = "sa_after 1000 True [m, m']"
  let ?q = "\<lparr>bq_max = 1000, bq_size = 1, bq_policy = Block, bq_items = [m'], bq_stopped = False\<rparr>"
  let ?b = "?a\<lparr>sa_queue := ?q, sa_started := [m], sa_thread := Running m\<rparr>"
  let ?c = "?b\<lparr>sa_queue := ?q\<lparr>bq_items := [], bq_size := 0\<rparr>, sa_started := [m, m'], sa_sched := Some m'\<rparr>"
  have "sa_step ?a ?b"
    using sa_step.take [OF _ _ sa_pop_Cons, of ?a m "[m']"] by (simp add: sa_after_def)
  moreover have "sa_step ?b ?c"
    using sa_step.sched_take [OF _ _ _ sa_pop_Cons, of ?b m' "[]"] by (simp add: sa_after_def)
  ultimately have "sa_step\<^sup>*\<^sup>* (sa_new 1000 True) ?c"
    using sa_after_reach [of "[m, m']" 1000 True] by (auto intro: sa_stepI)
  then show "\<exists>s. sa_step\<^sup>*\<^sup>* (sa_new 1000 True) s \<and> sa_thread s = Running m \<and> sa_sched s = Some m'"
    by (intro exI [of _ ?c] conjI) simp_all
next
  let ?a = "sa_after 1000 True [m]"
  let ?q = "\<lparr>bq_max = 1000, bq_size = 0, bq_policy = Block, bq_items = [], bq_stopped = False\<rparr>"
  let ?b = "?a\<lparr>sa_queue := ?q, sa_started := [m], sa_sched := Some m\<rparr>"
  let ?c = "?b\<lparr>sa_init := False, sa_proc := False, sa_queue := ?q\<lparr>bq_stopped := True\<rparr>, sa_joining := True\<rparr>"
  let ?d = "?c\<lparr>sa_thread := Exited\<rparr>"
  have "sa_step ?a ?b"
    using sa_step.sched_take [OF _ _ _ sa_pop_Cons, of ?a m "[]"] by (simp add: sa_after_def)
  moreover have "sa_step ?b ?c"
    using sa_step.stop [of ?b] by (simp add: sa_after_def sa_stop_def bq_stop_def)
  moreover have "sa_step ?c ?d"
    using sa_step.timeout [of ?c ?c] by (simp add: sa_after_def sa_pop_def bq_wait_pop_def sa_again_def)
  moreover have "sa_step ?d (?d\<lparr>sa_joining := False\<rparr>)"
    by (rule sa_step.joined) (simp_all add: sa_after_def)
  ultimately have "sa_step\<^sup>*\<^sup>* (sa_new 1000 True) (?d\<lparr>sa_joining := False\<rparr>)"
    using sa_after_reach [of "[m]" 1000 True] by (auto intro: sa_stepI)
  then show "\<exists>s. sa_step\<^sup>*\<^sup>* (sa_new 1000 True) s \<and> sa_thread s = Exited \<and> \<not> sa_joining s \<and> \<not> sa_init s \<and> sa_sched s = Some m"
    by (intro exI [of _ "?d\<lparr>sa_joining := False\<rparr>"] conjI) (simp_all add: sa_after_def)
qed

end
