(* ===== verification/Scheduler_Loop.thy ===== *)
theory Scheduler_Loop
  imports Scheduler
begin

text \<open>
  The loop of \<open>Scheduler::ScheduleActors\<close> (\<^verbatim>\<open>src/scheduler.cpp\<close>) over its passes: what arrives between two
  passes is run by the next one, unless a task sends its own actor another message each time it runs,
  in which case the pass never leaves that actor's queue.
\<close>

text \<open>
  Each iteration finds the scheduler in the state given for it, in which it reads \<open>done\<close>, and the world as the
  other threads have left it (they act while the loop sleeps). A history that ends before \<open>done\<close> is read as
  true says nothing of the loop's end: \<open>No_fuel\<close>.
\<close>

fun sc_schedule_actors :: "nat \<Rightarrow> ('w \<Rightarrow> (unit, ('w, 's) world) prog) \<Rightarrow>
    ('f sched \<times> (('w, 's) world \<Rightarrow> ('w, 's) world)) list \<Rightarrow> (unit, ('w, 's) world) prog" where
  "sc_schedule_actors n run [] ws = (No_fuel, ws)"
| "sc_schedule_actors n run ((s, others) # rounds) ws =
     (if sc_done s then (Ret (), others ws)
      else bindP (sc_pass n run s) (\<lambda>_. sc_schedule_actors n run rounds) (others ws))"

text \<open>Other threads push \<open>arr p\<close> into each queue \<open>p\<close>.\<close>

definition feed :: "(nat \<Rightarrow> 'w option list) \<Rightarrow> ('w, 's) world \<Rightarrow> ('w, 's) world" where
  "feed arr ws = (\<lambda>p. snd (seqP bq_push (arr p) (fst ws p)), snd ws)"

section \<open>Passes\<close>

text \<open>A pass neither stops a queue nor changes its bound.\<close>

definition steady :: "'a bqueue \<Rightarrow> 'a bqueue \<Rightarrow> bool" where
  "steady q q' \<longleftrightarrow> (bq_inv q \<longrightarrow> bq_inv q') \<and> bq_stopped q' = bq_stopped q \<and> bq_max q' = bq_max q"

lemma steady_refl [simp]: "steady q q"
  by (simp add: steady_def)

lemma steady_trans: "steady q r \<Longrightarrow> steady r t \<Longrightarrow> steady q t"
  by (simp add: steady_def)

lemma wait_pop_steady: "bq_wait_pop t e q = (r, q') \<Longrightarrow> steady q q'"
  using bq_wait_pop_inv [of q t e]
  by (auto simp: steady_def bq_wait_pop_def bq_pop_def split: if_splits list.splits)

lemma drain_steady:
  "local_task run f \<Longrightarrow> sc_drain n run p (qs, x) = (Ret (), qs', x') \<Longrightarrow> steady (qs u) (qs' u)"
proof (induction n arbitrary: qs x)
  case (Suc n)
  obtain r q where pop: "bq_wait_pop 50 True (qs p) = (r, q)" by fastforce
  have q: "steady (qs u) ((qs(p := q)) u)" using wait_pop_steady [OF pop] by simp
  show ?case
  proof (cases r)
    case (Ret w)
    show ?thesis
    proof (cases w)
      case None
      then show ?thesis using Suc.prems pop Ret q by auto
    next
      case (Some v)
      then obtain y where "sc_drain n run p (qs(p := q), y) = (Ret (), qs', x')"
        using Suc.prems pop Ret by (cases v) (auto simp: local_task_def ret_def)
      then show ?thesis using Suc.IH [OF Suc.prems(1)] q steady_trans by blast
    qed
  qed (use Suc.prems pop in auto)
qed simp

lemma seq_drain_steady:
  "local_task run f \<Longrightarrow> seqP (sc_drain n run) ps (qs, x) = (Ret (), qs', x') \<Longrightarrow> steady (qs u) (qs' u)"
proof (induction ps arbitrary: qs x)
  case (Cons p ps)
  then obtain qs1 x1 where "sc_drain n run p (qs, x) = (Ret (), qs1, x1)"
    "seqP (sc_drain n run) ps (qs1, x1) = (Ret (), qs', x')"
    by (auto split: prod.splits outcome.splits)
  then show ?case using drain_steady [OF Cons.prems(1)] Cons.IH [OF Cons.prems(1)] steady_trans by blast
qed simp

section \<open>Rounds\<close>

text \<open>The queues of the registered actors are in order and empty, as a pass leaves them.\<close>

definition served :: "'f sched \<Rightarrow> nat \<Rightarrow> (nat \<Rightarrow> 'w option bqueue) \<Rightarrow> bool" where
  "served s m qs \<longleftrightarrow> (\<forall>p \<in> set (contents (sc_queues s)).
     bq_inv (qs p) \<and> \<not> bq_stopped (qs p) \<and> bq_items (qs p) = [] \<and> m \<le> bq_max (qs p))"

lemma feed_queue:
  assumes "bq_inv q" "\<not> bq_stopped q" "bq_items q = []" "length ws \<le> bq_max q"
  shows "bq_inv (snd (seqP bq_push ws q))" "\<not> bq_stopped (snd (seqP bq_push ws q))"
    and "bq_items (snd (seqP bq_push ws q)) = ws" "bq_max (snd (seqP bq_push ws q)) = bq_max q"
proof -
  have "length ws \<le> bq_space q" using assms by (simp add: bq_space_def)
  from work.put_all [OF _ this] assms obtain q' where q': "seqP bq_push ws q = (Ret (), q')" "bq_inv q'"
    "\<not> bq_stopped q'" "bq_items q' = ws" by auto
  show "bq_inv (snd (seqP bq_push ws q))" "\<not> bq_stopped (snd (seqP bq_push ws q))"
    "bq_items (snd (seqP bq_push ws q)) = ws" using q' by simp_all
  have "bq_max (snd (bq_push v r)) = bq_max r" for v and r :: "'a bqueue"
    by (auto simp: bq_push_def bq_enqueue_def split: overflow_policy.splits list.splits option.splits)
  then show "bq_max (snd (seqP bq_push ws q)) = bq_max q"
    using seqP_invariant [of bq_push ws q "Ret ()" q' "\<lambda>r. bq_max r = bq_max q"] q'(1) by (metis snd_conv)
qed

lemma round_runs:
  assumes "tsl_inv (sc_queues s)" "distinct (contents (sc_queues s))" "local_task run f" "served s m qs"
    and "\<forall>p \<in> set (contents (sc_queues s)). length (arr p) \<le> m" "m < n"
  shows "\<exists>qs'. sc_pass n run s (feed arr (qs, x)) = (Ret (), qs', run_items f (concat (map arr (contents (sc_queues s)))) x) \<and>
    served s m qs'"
proof -
  let ?ps = "contents (sc_queues s)" and ?qs = "\<lambda>p. snd (seqP bq_push (arr p) (qs p))"
  have fed: "bq_inv (?qs p) \<and> \<not> bq_stopped (?qs p) \<and> bq_items (?qs p) = arr p \<and> bq_max (?qs p) = bq_max (qs p)"
    if "p \<in> set ?ps" for p
  proof -
    have "bq_inv (qs p)" "\<not> bq_stopped (qs p)" "bq_items (qs p) = []" "length (arr p) \<le> bq_max (qs p)"
      using assms(4,5) that by (auto simp: served_def intro: order_trans)
    from feed_queue [OF this] show ?thesis by simp
  qed
  then have "\<forall>p \<in> set ?ps. bq_inv (?qs p) \<and> \<not> bq_stopped (?qs p) \<and> length (bq_items (?qs p)) < n"
    using assms(5,6) by fastforce
  from pass_queues [OF assms(3,2) this, of x] obtain qs' where
    qs': "seqP (sc_drain n run) ?ps (?qs, x) = (Ret (), qs', run_items f (concat (map (\<lambda>p. bq_items (?qs p)) ?ps)) x)"
    "\<forall>p \<in> set ?ps. bq_items (qs' p) = []" by blast
  have "steady (?qs p) (qs' p)" for p by (rule seq_drain_steady [OF assms(3) qs'(1)])
  then have "served s m qs'" using fed qs'(2) assms(4) by (auto simp: served_def steady_def)
  moreover have "map (\<lambda>p. bq_items (?qs p)) ?ps = map arr ?ps" using fed by simp
  with qs'(1) have "sc_pass n run s (feed arr (qs, x)) = (Ret (), qs', run_items f (concat (map arr ?ps)) x)"
    by (simp only: sc_pass_def feed_def for_each_contents [OF assms(1)] fst_conv snd_conv)
  ultimately show ?thesis by blast
qed

lemma rounds_run:
  assumes "tsl_inv (sc_queues s)" "distinct (contents (sc_queues s))" "local_task run f" "served s m qs"
    and "\<forall>arr \<in> set arrs. \<forall>p \<in> set (contents (sc_queues s)). length (arr p) \<le> m" "m < n"
    and "\<not> sc_done s" "sc_done s'"
  shows "\<exists>qs'. sc_schedule_actors n run (map (\<lambda>arr. (s, feed arr)) arrs @ [(s', id)]) (qs, x) =
    (Ret (), qs', run_items f (concat (map (\<lambda>arr. concat (map arr (contents (sc_queues s)))) arrs)) x) \<and> served s m qs'"
  using assms(4,5)
proof (induction arrs arbitrary: qs x)
  case Nil
  then show ?case using assms(8) by simp
next
  case (Cons arr arrs)
  from round_runs [OF assms(1-3) Cons.prems(1) _ assms(6), of arr x] Cons.prems(2) obtain qs1 where
    "sc_pass n run s (feed arr (qs, x)) = (Ret (), qs1, run_items f (concat (map arr (contents (sc_queues s)))) x)"
    "served s m qs1" by auto
  with Cons.IH [of qs1] Cons.prems(2) assms(7) show ?case
    by (simp add: bindP_def run_items_append)
qed

text \<open>C24: The loop over the actors ends when it finds \<open>done\<close> set, and until then runs, when the tasks return and
  push no further work themselves, every task that other threads pushed into the queue of a registered
  actor between two passes, exactly once, round by round and within a round queue by queue, leaving all
  these queues empty.\<close>

theorem sc_loop_runs_arrivals:
  assumes "tsl_inv (sc_queues s)" "distinct (contents (sc_queues s))" "local_task run f" "served s m qs"
    and "\<forall>arr \<in> set arrs. \<forall>p \<in> set (contents (sc_queues s)). length (arr p) \<le> m" "m < n"
    and "\<not> sc_done s" "sc_done s'"
  shows "\<exists>qs'. sc_schedule_actors n run (map (\<lambda>arr. (s, feed arr)) arrs @ [(s', id)]) (qs, x) =
    (Ret (), qs', run_items f (concat (map (\<lambda>arr. concat (map arr (contents (sc_queues s)))) arrs)) x) \<and> served s m qs'"
  by (rule rounds_run [OF assms])

theorem sc_loop_runs_arrivals_witness:
  "\<exists>qs'. sc_schedule_actors 4 (\<lambda>w ws. (Ret (), fst ws, snd ws @ [w]))
      [(sc_register 7 (sc_register 4 ex_sched), feed (\<lambda>p. if p = 4 then [Some ''a'', None] else [Some ''b''])),
       (sc_register 7 (sc_register 4 ex_sched), feed (\<lambda>p. [Some ''c''])),
       (snd (sc_shutdown_flag ex_sched), id)] (\<lambda>_. bq_default, []) = (Ret (), qs', [''b'', ''a'', ''c'', ''c''])"
proof -
  let ?s = "sc_register 7 (sc_register 4 ex_sched)"
  let ?arrs = "[\<lambda>p. if p = 4 then [Some ''a'', None] else [Some ''b''], \<lambda>p :: nat. [Some ''c'']]"
  have s: "tsl_inv (sc_queues ?s)" "contents (sc_queues ?s) = [7, 4]" "\<not> sc_done ?s" "sc_done (snd (sc_shutdown_flag ex_sched))"
    by (simp_all add: sc_register_def ex_sched_def sc_shutdown_flag_def)
  have loc: "local_task (\<lambda>w ws. (Ret (), fst ws, snd ws @ [w])) (\<lambda>w x. x @ [w])" by (simp add: local_task_def)
  have "served ?s 3 (\<lambda>_. bq_default :: string option bqueue)" by (simp add: served_def s(2) bq_default_def)
  moreover have "\<forall>arr \<in> set ?arrs. \<forall>p \<in> set (contents (sc_queues ?s)). length (arr p) \<le> 3" by (simp add: s(2))
  ultimately show ?thesis
    using sc_loop_runs_arrivals [OF s(1) _ loc _ _ _ s(3,4), of 3 "\<lambda>_. bq_default" ?arrs 4 "[]"] by (auto simp: s(2))
qed

section \<open>An actor that keeps sending itself messages\<close>

text \<open>The task \<open>w\<close> does its work and tells its own actor, whose queue is \<open>p\<close>, to do it again.\<close>

definition repeats :: "('w \<Rightarrow> (unit, ('w, 's) world) prog) \<Rightarrow> 'w \<Rightarrow> nat \<Rightarrow> ('s \<Rightarrow> 's) \<Rightarrow> bool" where
  "repeats run w p g \<longleftrightarrow> (\<forall>qs x. run w (qs, x) =
     (case bq_push (Some w) (qs p) of (r, q) \<Rightarrow> (r, qs(p := q), g x)))"

lemma drain_repeats:
  assumes "repeats run w p g"
    and "bq_inv (qs p)" "\<not> bq_stopped (qs p)" "bq_items (qs p) = [Some w]"
  shows "\<exists>q. sc_drain n run p (qs, x) = (No_fuel, qs(p := q), (g ^^ n) x) \<and> bq_items q = [Some w]"
  using assms(2-4)
proof (induction n arbitrary: qs x)
  case 0
  then show ?case by (intro exI [of _ "qs p"]) simp
next
  case (Suc n)
  let ?q = "(qs p)\<lparr>bq_items := [], bq_size := bq_size (qs p) - 1\<rparr>"
  have pop: "bq_wait_pop 50 True (qs p) = (Ret (Some (Some w)), ?q)"
    using Suc.prems by (simp add: bq_wait_pop_def bq_pop_def)
  have q: "bq_inv ?q" "\<not> bq_stopped ?q" "0 < bq_space ?q"
    using Suc.prems by (auto simp: bq_inv_def bq_space_def)
  have push: "bq_push (Some w) ?q = (Ret (), bq_enqueue (Some w) ?q)" by (rule bq_push_space [OF q(1,3)])
  let ?qs = "qs(p := bq_enqueue (Some w) ?q)"
  have "sc_drain (Suc n) run p (qs, x) = sc_drain n run p (?qs, g x)"
    using assms(1) pop push by (simp add: repeats_def)
  moreover have "bq_inv (?qs p)" "\<not> bq_stopped (?qs p)" "bq_items (?qs p) = [Some w]"
    using q by (auto simp: bq_enqueue_def bq_inv_def bq_space_def)
  ultimately obtain q where q: "sc_drain (Suc n) run p (qs, x) = (No_fuel, ?qs(p := q), (g ^^ n) (g x))"
    "bq_items q = [Some w]" using Suc.IH [of ?qs "g x"] by metis
  then have "sc_drain (Suc n) run p (qs, x) = (No_fuel, qs(p := q), (g ^^ Suc n) x)"
    by (simp only: fun_upd_upd funpow_Suc_right comp_apply)
  with q(2) show ?case by blast
qed

text \<open>C25: A task that sends its own actor the same message again keeps the scheduler in that actor's queue for
  ever: however many tasks the pass is given the fuel to run, it has run that task as often, is not
  finished, and has not touched the queue of any other actor. So, as long as nobody stops its queue, one
  actor starves all those behind it, and the loop does not get to read \<open>done\<close>.\<close>

theorem self_message_starves:
  assumes "tsl_inv (sc_queues s)" "contents (sc_queues s) = p # ps" "repeats run w p g"
    and "bq_inv (qs p)" "\<not> bq_stopped (qs p)" "bq_items (qs p) = [Some w]"
  shows "\<exists>q. sc_pass n run s (qs, x) = (No_fuel, qs(p := q), (g ^^ n) x) \<and> bq_items q = [Some w]"
proof -
  from drain_repeats [where qs = qs and n = n and x = x, OF assms(3-6)] obtain q where
    "sc_drain n run p (qs, x) = (No_fuel, qs(p := q), (g ^^ n) x)" "bq_items q = [Some w]" by blast
  then show ?thesis
    by (intro exI [of _ q]) (simp add: sc_pass_def for_each_contents [OF assms(1)] assms(2))
qed

theorem self_message_starves_witness:
  "\<exists>q. sc_pass 1000 (\<lambda>w (qs, x). case bq_push (Some w) (qs 7) of (r, q) \<Rightarrow> (r, qs(7 := q), Suc x))
      (sc_register 7 (sc_register 4 ex_sched)) (\<lambda>_. bq_enqueue (Some ''again'') bq_default, 0) =
    (No_fuel, (\<lambda>_. bq_enqueue (Some ''again'') bq_default)(7 := q), 1000)"
proof -
  let ?s = "sc_register 7 (sc_register 4 ex_sched)"
  let ?run = "\<lambda>w (qs, x). case bq_push (Some w) (qs 7) of (r, q) \<Rightarrow> (r, qs(7 := q), Suc x)"
  let ?q = "bq_enqueue (Some ''again'') bq_default"
  have s: "tsl_inv (sc_queues ?s)" "contents (sc_queues ?s) = [7, 4]"
    by (simp_all add: sc_register_def ex_sched_def)
  have "repeats ?run ''again'' 7 Suc" by (simp add: repeats_def)
  moreover have "bq_inv ?q" "\<not> bq_stopped ?q" "bq_items ?q = [Some ''again'']" by (simp_all add: bq_enqueue_def bq_inv_def)
  ultimately show ?thesis
    using self_message_starves [OF s, of ?run "''again''" Suc "\<lambda>_. ?q" 1000 0] by (auto simp: Suc_funpow)
qed

end
