(* ===== verification/Subscribe_Streams.thy ===== *)
theory Subscribe_Streams
  imports Pubsub Threadsafe_Queue
begin

text \<open>
  The subscription half of \<^verbatim>\<open>src/server.h\<close> and \<^verbatim>\<open>src/server.cpp\<close>: the map from actors to shared
  subscription lists, \<open>publish_change\<close>, and the \<open>Subscribe\<close> calls that are in progress. Several
  \<open>Subscribe\<close> calls run on different threads; each is a stream with a program counter, and an
  event is one step of one of them or a call of \<open>publish_change\<close>. An event that is not the next
  one of its stream is \<open>Blocked\<close>. \<open>SubscriptionList\<close> has the code of the class of the same
  name in \<^verbatim>\<open>src/pubsub.h\<close>, whose model is used for it.
\<close>

section \<open>State\<close>

text \<open>The fields of a \<open>SubscribeResponse\<close>, the message that is published.\<close>

record change =
  ch_actor :: actor_id
  ch_key :: key
  ch_value :: val
  ch_event :: string

datatype rpc_status = RPC_OK | Not_found string

text \<open>
  Where a \<open>Subscribe\<close> call is: before the check, after it, holding a list, registered in it under
  an identifier and streaming, about to remove its callback, about to return.
\<close>

datatype phase =
    Opened
  | Checked
  | Listed nat
  | Streaming nat u64
  | Closing nat u64
  | Leaving nat
  | Finished rpc_status

record stream =
  st_actor :: actor_id
  st_phase :: phase
  st_inbound :: "change bqueue"
  st_written :: "change list"

text \<open>
  A callback captures the queue of its \<open>Subscribe\<close> call by reference: it is the number of the
  stream. Lists are shared by the map, by the streams that hold them, and by the calls of
  \<open>publish_change\<close> that have looked them up (\<open>shared_ptr\<close>): \<open>hb_pubs\<close> are these calls, with the
  list they hold.
\<close>

record hub =
  hb_map :: "actor_id \<rightharpoonup> nat"
  hb_lists :: "nat \<rightharpoonup> nat sublist"
  hb_fresh :: nat
  hb_streams :: "stream list"
  hb_pubs :: "(change \<times> nat option) list"

definition hb_new :: hub where
  "hb_new = \<lparr>hb_map = Map.empty, hb_lists = Map.empty, hb_fresh = 0, hb_streams = [], hb_pubs = []\<rparr>"

fun holds :: "nat \<Rightarrow> phase \<Rightarrow> bool" where
  "holds p (Listed q) = (p = q)"
| "holds p (Streaming q _) = (p = q)"
| "holds p (Closing q _) = (p = q)"
| "holds p (Leaving q) = (p = q)"
| "holds p _ = False"

definition held :: "nat \<Rightarrow> hub \<Rightarrow> bool" where
  "held p h \<longleftrightarrow> list_ex (\<lambda>s. holds p (st_phase s)) (hb_streams h) \<or> list_ex (\<lambda>x. snd x = Some p) (hb_pubs h)"

section \<open>Operations\<close>

definition get_or_create_subs :: "actor_id \<Rightarrow> (nat, hub) prog" where
  "get_or_create_subs a h = (case hb_map h a of
     Some p \<Rightarrow> (Ret p, h)
   | None \<Rightarrow> (Ret (hb_fresh h), h\<lparr>hb_map := (hb_map h)(a \<mapsto> hb_fresh h),
       hb_lists := (hb_lists h)(hb_fresh h \<mapsto> sl_new), hb_fresh := Suc (hb_fresh h)\<rparr>))"

definition subs_add :: "nat \<Rightarrow> nat \<Rightarrow> (u64, hub) prog" where
  "subs_add p i h = (case hb_lists h p of
     None \<Rightarrow> (Undef Use_after_free, h)
   | Some l \<Rightarrow> (case sl_add (Some i) l of (n, l') \<Rightarrow> (Ret n, h\<lparr>hb_lists := (hb_lists h)(p \<mapsto> l')\<rparr>)))"

text \<open>\<open>SubscriptionList::remove\<close> and \<open>size\<close>, which the service itself does not call.\<close>

definition subs_remove :: "nat \<Rightarrow> u64 \<Rightarrow> (bool, hub) prog" where
  "subs_remove p n h = (case hb_lists h p of
     None \<Rightarrow> (Undef Use_after_free, h)
   | Some l \<Rightarrow> (case sl_remove n l of (r, l') \<Rightarrow> (r, h\<lparr>hb_lists := (hb_lists h)(p \<mapsto> l')\<rparr>)))"

definition subs_size :: "nat \<Rightarrow> hub \<Rightarrow> u64 outcome" where
  "subs_size p h = (case hb_lists h p of None \<Rightarrow> Undef Use_after_free | Some l \<Rightarrow> Ret (sl_size l))"

text \<open>
  One of the owners has just given up a list: the list is destroyed unless another still holds it.
\<close>

definition drop_list :: "nat \<Rightarrow> (unit, hub) prog" where
  "drop_list p h =
     (if held p h then (Ret (), h)
      else (case hb_lists h p of
          None \<Rightarrow> (Undef Use_after_free, h)
        | Some l \<Rightarrow> (case tsl_destroy (sl_callbacks l) of
            Ret _ \<Rightarrow> (Ret (), h\<lparr>hb_lists := (hb_lists h)(p := None)\<rparr>)
          | r \<Rightarrow> (abort_of r, h))))"

definition remove_callback :: "actor_id \<Rightarrow> u64 \<Rightarrow> (unit, hub) prog" where
  "remove_callback a n h = (case hb_map h a of
     None \<Rightarrow> (Ret (), h)
   | Some p \<Rightarrow> (case hb_lists h p of
       None \<Rightarrow> (Undef Use_after_free, h)
     | Some l \<Rightarrow> (case sl_remove n l of
         (Ret _, l') \<Rightarrow>
           (let h1 = h\<lparr>hb_lists := (hb_lists h)(p \<mapsto> l')\<rparr>
            in if sl_size l' = 0 then drop_list p (h1\<lparr>hb_map := (hb_map h1)(a := None)\<rparr>) else (Ret (), h1))
       | (r, l') \<Rightarrow> (abort_of r, h))))"

text \<open>A callback pushes a copy of the message into the queue of its stream, if that still exists.\<close>

definition upd_stream :: "nat \<Rightarrow> (stream \<Rightarrow> stream) \<Rightarrow> hub \<Rightarrow> hub" where
  "upd_stream i f h = h\<lparr>hb_streams := (hb_streams h)[i := f (hb_streams h ! i)]\<rparr>"

fun live :: "phase \<Rightarrow> bool" where
  "live (Finished _) = False"
| "live _ = True"

definition deliver :: "change \<Rightarrow> nat \<Rightarrow> (unit, hub) prog" where
  "deliver c i h =
     (if i < length (hb_streams h) \<and> live (st_phase (hb_streams h ! i)) then
        (case bq_push c (st_inbound (hb_streams h ! i)) of
           (r, q) \<Rightarrow> (r, upd_stream i (\<lambda>s. s\<lparr>st_inbound := q\<rparr>) h))
      else (Undef Use_after_free, h))"

text \<open>
  \<open>publish_change\<close> looks the list up under the mutex and iterates over it after releasing the mutex.
\<close>

definition publish_find :: "change \<Rightarrow> hub \<Rightarrow> nat option" where
  "publish_find c h = hb_map h (ch_actor c)"

definition publish_run :: "change \<Rightarrow> nat \<Rightarrow> (unit, hub) prog" where
  "publish_run c p h = (case hb_lists h p of
     None \<Rightarrow> (Undef Use_after_free, h)
   | Some l \<Rightarrow> sl_invoke_all (\<lambda>i. catchP (deliver c i) (\<lambda>_. ret ())) l h)"

definition publish_change :: "change \<Rightarrow> (unit, hub) prog" where
  "publish_change c h = (case publish_find c h of
     None \<Rightarrow> (Ret (), h)
   | Some p \<Rightarrow> publish_run c p h)"

lemmas publish_defs = publish_change_def publish_find_def publish_run_def

text \<open>The end of a call that other steps came in between: it gives up the list.\<close>

definition release_pub :: "nat \<Rightarrow> change \<Rightarrow> nat \<Rightarrow> (unit, hub) prog" where
  "release_pub j c p = bindP (modify (\<lambda>h. h\<lparr>hb_pubs := (hb_pubs h)[j := (c, None)]\<rparr>)) (\<lambda>_ h.
     if hb_map h (ch_actor c) = Some p then (Ret (), h) else drop_list p h)"

section \<open>The \<open>Subscribe\<close> call as a state machine\<close>

text \<open>
  The steps of stream \<open>i\<close>: the result of \<open>IsActorActive\<close>, \<open>get_or_create_subs\<close>, \<open>add\<close>, one round
  of the loop (the wait timed out, or a message was popped and \<open>Write\<close> succeeded or failed),
  leaving the loop when the context is cancelled, \<open>remove_callback\<close>, and returning, which
  releases the list. A call of \<open>publish_change\<close> is one event, or two if others come in between.
\<close>

datatype event =
    Open actor_id
  | Check nat bool
  | Get_list nat
  | Add nat
  | Timeout nat
  | Write nat bool
  | Cancel nat
  | Remove nat
  | Return nat
  | Publish change
  | Pub_find change
  | Pub_run nat

definition set_phase :: "nat \<Rightarrow> phase \<Rightarrow> hub \<Rightarrow> hub" where
  "set_phase i ph = upd_stream i (\<lambda>s. s\<lparr>st_phase := ph\<rparr>)"

definition at_phase :: "nat \<Rightarrow> (stream \<Rightarrow> (unit, hub) prog) \<Rightarrow> (unit, hub) prog" where
  "at_phase i k h = (if i < length (hb_streams h) then k (hb_streams h ! i) h else (Blocked, h))"

definition wait_step :: "nat \<Rightarrow> nat \<Rightarrow> u64 \<Rightarrow> bool \<Rightarrow> (unit, hub) prog" where
  "wait_step i p n wrote h = (case bq_wait_pop 500 True (st_inbound (hb_streams h ! i)) of
     (Ret (Some c), q) \<Rightarrow> (Ret (), upd_stream i (\<lambda>s. s\<lparr>st_inbound := q,
        st_phase := (if wrote then Streaming p n else Closing p n),
        st_written := st_written s @ (if wrote then [c] else [])\<rparr>) h)
   | (Ret None, q) \<Rightarrow> (Blocked, h)
   | (r, q) \<Rightarrow> (abort_of r, h))"

fun exec :: "event \<Rightarrow> (unit, hub) prog" where
  "exec (Open a) h = (Ret (), h\<lparr>hb_streams := hb_streams h @
     [\<lparr>st_actor = a, st_phase = Opened, st_inbound = bq_default, st_written = []\<rparr>]\<rparr>)"
| "exec (Check i active) h = at_phase i (\<lambda>s. case st_phase s of
     Opened \<Rightarrow> modify (set_phase i (if active then Checked
        else Finished (Not_found ''Actor not found or inactive'')))
   | _ \<Rightarrow> (\<lambda>h. (Blocked, h))) h"
| "exec (Get_list i) h = at_phase i (\<lambda>s. case st_phase s of
     Checked \<Rightarrow> bindP (get_or_create_subs (st_actor s)) (\<lambda>p. modify (set_phase i (Listed p)))
   | _ \<Rightarrow> (\<lambda>h. (Blocked, h))) h"
| "exec (Add i) h = at_phase i (\<lambda>s. case st_phase s of
     Listed p \<Rightarrow> bindP (subs_add p i) (\<lambda>n. modify (set_phase i (Streaming p n)))
   | _ \<Rightarrow> (\<lambda>h. (Blocked, h))) h"
| "exec (Timeout i) h = at_phase i (\<lambda>s. case st_phase s of
     Streaming p n \<Rightarrow> if bq_items (st_inbound s) = [] then ret () else (\<lambda>h. (Blocked, h))
   | _ \<Rightarrow> (\<lambda>h. (Blocked, h))) h"
| "exec (Write i ok) h = at_phase i (\<lambda>s. case st_phase s of
     Streaming p n \<Rightarrow> wait_step i p n ok | _ \<Rightarrow> (\<lambda>h. (Blocked, h))) h"
| "exec (Cancel i) h = at_phase i (\<lambda>s. case st_phase s of
     Streaming p n \<Rightarrow> modify (set_phase i (Closing p n)) | _ \<Rightarrow> (\<lambda>h. (Blocked, h))) h"
| "exec (Remove i) h = at_phase i (\<lambda>s. case st_phase s of
     Closing p n \<Rightarrow> bindP (remove_callback (st_actor s) n) (\<lambda>_. modify (set_phase i (Leaving p)))
   | _ \<Rightarrow> (\<lambda>h. (Blocked, h))) h"
| "exec (Return i) h = at_phase i (\<lambda>s. case st_phase s of
     Leaving p \<Rightarrow> bindP (modify (set_phase i (Finished RPC_OK))) (\<lambda>_ h.
        if hb_map h (st_actor s) = Some p then (Ret (), h) else drop_list p h)
   | _ \<Rightarrow> (\<lambda>h. (Blocked, h))) h"
| "exec (Publish c) h = publish_change c h"
| "exec (Pub_find c) h = (Ret (), (case publish_find c h of
     None \<Rightarrow> h | Some p \<Rightarrow> h\<lparr>hb_pubs := hb_pubs h @ [(c, Some p)]\<rparr>))"
| "exec (Pub_run j) h = (if j < length (hb_pubs h) then
     (case hb_pubs h ! j of
        (c, Some p) \<Rightarrow> bindP (publish_run c p) (\<lambda>_. release_pub j c p) h
      | (c, None) \<Rightarrow> (Blocked, h))
   else (Blocked, h))"

text \<open>A lost subscription, and what it leads to, as one run (checked in the kernel).\<close>

definition lost_run :: "actor_id \<Rightarrow> event list" where
  "lost_run a = [Open a, Open a, Check 0 True, Get_list 0, Add 0, Check 1 True, Get_list 1, Cancel 0,
     Remove 0, Return 0, Add 1]"

section \<open>The invariant\<close>

text \<open>
  A registered callback belongs to a \<open>Subscribe\<close> call for the same actor that has not yet removed
  it. \<open>n\<close> bounds the number of events so far, and with it the identifiers given out.
\<close>

definition wrapper_ok :: "hub \<Rightarrow> actor_id \<Rightarrow> nat \<Rightarrow> nat wrapper \<Rightarrow> bool" where
  "wrapper_ok h a p w \<longleftrightarrow> (\<exists>i. wr_cb w = Some i \<and> i < length (hb_streams h) \<and>
     st_actor (hb_streams h ! i) = a \<and>
     (st_phase (hb_streams h ! i) = Streaming p (wr_id w) \<or> st_phase (hb_streams h ! i) = Closing p (wr_id w)))"

definition stream_ok :: "hub \<Rightarrow> stream \<Rightarrow> bool" where
  "stream_ok h s \<longleftrightarrow> \<not> bq_stopped (st_inbound s) \<and> bq_policy (st_inbound s) = Block \<and>
     (\<forall>p. holds p (st_phase s) \<longrightarrow> hb_lists h p \<noteq> None \<and> (\<forall>a. hb_map h a = Some p \<longrightarrow> st_actor s = a))"

definition pub_ok :: "hub \<Rightarrow> change \<times> nat option \<Rightarrow> bool" where
  "pub_ok h x \<longleftrightarrow> (\<forall>p. snd x = Some p \<longrightarrow>
     hb_lists h p \<noteq> None \<and> (\<forall>a. hb_map h a = Some p \<longrightarrow> a = ch_actor (fst x)))"

definition hub_inv :: "nat \<Rightarrow> hub \<Rightarrow> bool" where
  "hub_inv n h \<longleftrightarrow>
     (\<forall>p l. hb_lists h p = Some l \<longrightarrow> p < hb_fresh h \<and> sl_inv l \<and> unat (sl_next_id l) \<le> Suc n) \<and>
     (\<forall>a p. hb_map h a = Some p \<longrightarrow> (\<exists>l. hb_lists h p = Some l \<and> (\<forall>w \<in> set (sl_items l). wrapper_ok h a p w))) \<and>
     (\<forall>a b p. hb_map h a = Some p \<longrightarrow> hb_map h b = Some p \<longrightarrow> a = b) \<and>
     (\<forall>s \<in> set (hb_streams h). stream_ok h s) \<and> (\<forall>x \<in> set (hb_pubs h). pub_ok h x)"

lemma hub_invD:
  assumes "hub_inv n h"
  shows "hb_lists h p = Some l \<Longrightarrow> p < hb_fresh h" "hb_lists h p = Some l \<Longrightarrow> sl_inv l"
    "hb_lists h p = Some l \<Longrightarrow> unat (sl_next_id l) \<le> Suc n"
    "hb_map h a = Some p \<Longrightarrow> \<exists>l. hb_lists h p = Some l"
    "hb_map h a = Some p \<Longrightarrow> hb_lists h p = Some l \<Longrightarrow> w \<in> set (sl_items l) \<Longrightarrow> wrapper_ok h a p w"
    "hb_map h a = Some p \<Longrightarrow> hb_map h b = Some p \<Longrightarrow> a = b"
    "i < length (hb_streams h) \<Longrightarrow> stream_ok h (hb_streams h ! i)"
    "x \<in> set (hb_pubs h) \<Longrightarrow> pub_ok h x"
proof -
  from assms have lists: "\<forall>p l. hb_lists h p = Some l \<longrightarrow> p < hb_fresh h \<and> sl_inv l \<and> unat (sl_next_id l) \<le> Suc n"
    and maps: "\<forall>a p. hb_map h a = Some p \<longrightarrow> (\<exists>l. hb_lists h p = Some l \<and> (\<forall>w \<in> set (sl_items l). wrapper_ok h a p w))"
    and inj: "\<forall>a b p. hb_map h a = Some p \<longrightarrow> hb_map h b = Some p \<longrightarrow> a = b"
    and streams: "\<forall>s \<in> set (hb_streams h). stream_ok h s" and pubs: "\<forall>x \<in> set (hb_pubs h). pub_ok h x"
    unfolding hub_inv_def by simp_all
  show "hb_lists h p = Some l \<Longrightarrow> p < hb_fresh h" "hb_lists h p = Some l \<Longrightarrow> sl_inv l"
    "hb_lists h p = Some l \<Longrightarrow> unat (sl_next_id l) \<le> Suc n" using lists by blast+
  show "hb_map h a = Some p \<Longrightarrow> \<exists>l. hb_lists h p = Some l" using maps by blast
  show "hb_map h a = Some p \<Longrightarrow> hb_lists h p = Some l \<Longrightarrow> w \<in> set (sl_items l) \<Longrightarrow> wrapper_ok h a p w"
    using maps by fastforce
  show "hb_map h a = Some p \<Longrightarrow> hb_map h b = Some p \<Longrightarrow> a = b" using inj by blast
  show "i < length (hb_streams h) \<Longrightarrow> stream_ok h (hb_streams h ! i)" using streams by simp
  show "x \<in> set (hb_pubs h) \<Longrightarrow> pub_ok h x" using pubs by blast
qed

lemma hub_invI:
  assumes "\<And>p l. hb_lists h p = Some l \<Longrightarrow> p < hb_fresh h \<and> sl_inv l \<and> unat (sl_next_id l) \<le> Suc n"
    and "\<And>a p. hb_map h a = Some p \<Longrightarrow> \<exists>l. hb_lists h p = Some l"
    and "\<And>a p l w. hb_map h a = Some p \<Longrightarrow> hb_lists h p = Some l \<Longrightarrow> w \<in> set (sl_items l) \<Longrightarrow> wrapper_ok h a p w"
    and "\<And>a b p. hb_map h a = Some p \<Longrightarrow> hb_map h b = Some p \<Longrightarrow> a = b"
    and "\<And>i. i < length (hb_streams h) \<Longrightarrow> stream_ok h (hb_streams h ! i)"
    and "\<And>x. x \<in> set (hb_pubs h) \<Longrightarrow> pub_ok h x"
  shows "hub_inv n h"
proof -
  have "\<forall>s \<in> set (hb_streams h). stream_ok h s" using assms(5) by (metis in_set_conv_nth)
  moreover have "\<exists>l. hb_lists h p = Some l \<and> (\<forall>w \<in> set (sl_items l). wrapper_ok h a p w)" if "hb_map h a = Some p" for a p
    using assms(2,3) that by blast
  ultimately show ?thesis using assms(1,4,6) unfolding hub_inv_def by blast
qed

lemma hub_inv_mono: "hub_inv n h \<Longrightarrow> n \<le> m \<Longrightarrow> hub_inv m h"
  unfolding hub_inv_def by (meson le_trans Suc_le_mono)

lemma hub_new_inv: "hub_inv 0 hb_new"
  by (simp add: hub_inv_def hb_new_def)

lemma upd_stream_simps [simp]:
  "hb_map (upd_stream i f h) = hb_map h" "hb_lists (upd_stream i f h) = hb_lists h"
  "hb_fresh (upd_stream i f h) = hb_fresh h" "hb_pubs (upd_stream i f h) = hb_pubs h" "length (hb_streams (upd_stream i f h)) = length (hb_streams h)"
  "i < length (hb_streams h) \<Longrightarrow> hb_streams (upd_stream i f h) ! j =
     (if j = i then f (hb_streams h ! i) else hb_streams h ! j)"
  by (auto simp: upd_stream_def nth_list_update)

text \<open>Changing one stream: its callbacks must still be accounted for.\<close>

lemma inv_upd_stream:
  assumes inv: "hub_inv n h" and i: "i < length (hb_streams h)"
    and ok: "stream_ok h (f (hb_streams h ! i))" and actor: "st_actor (f (hb_streams h ! i)) = st_actor (hb_streams h ! i)"
    and own: "\<And>a p l w. hb_map h a = Some p \<Longrightarrow> hb_lists h p = Some l \<Longrightarrow> w \<in> set (sl_items l) \<Longrightarrow>
      wr_cb w = Some i \<Longrightarrow> st_phase (f (hb_streams h ! i)) = Streaming p (wr_id w) \<or>
        st_phase (f (hb_streams h ! i)) = Closing p (wr_id w)"
  shows "hub_inv n (upd_stream i f h)"
proof (rule hub_invI)
  fix a p l w
  assume w: "hb_map (upd_stream i f h) a = Some p" "hb_lists (upd_stream i f h) p = Some l" "w \<in> set (sl_items l)"
  with hub_invD(5) [OF inv] have "wrapper_ok h a p w" by simp
  then obtain j where j: "wr_cb w = Some j" "j < length (hb_streams h)" "st_actor (hb_streams h ! j) = a"
    "st_phase (hb_streams h ! j) = Streaming p (wr_id w) \<or> st_phase (hb_streams h ! j) = Closing p (wr_id w)"
    by (auto simp: wrapper_ok_def)
  show "wrapper_ok (upd_stream i f h) a p w"
  proof (cases "j = i")
    case True
    with own [of a p l w] w j actor i show ?thesis by (auto simp: wrapper_ok_def)
  next
    case False
    with j i show ?thesis by (auto simp: wrapper_ok_def)
  qed
next
  fix j
  assume "j < length (hb_streams (upd_stream i f h))"
  with hub_invD(7) [OF inv, of j] ok i show "stream_ok (upd_stream i f h) (hb_streams (upd_stream i f h) ! j)"
    by (auto simp: stream_ok_def)
qed (use hub_invD(1-4,6,8) [OF inv] in \<open>auto simp: pub_ok_def\<close>)

text \<open>A stream that is not registered can move to any phase that holds what it held.\<close>

lemma own_phase:
  assumes "hub_inv n h" and "hb_map h a = Some p" and "hb_lists h p = Some l" and "w \<in> set (sl_items l)"
    and "wr_cb w = Some i"
  shows "st_actor (hb_streams h ! i) = a" and "i < length (hb_streams h)"
    and "st_phase (hb_streams h ! i) = Streaming p (wr_id w) \<or> st_phase (hb_streams h ! i) = Closing p (wr_id w)"
  using hub_invD(5) [OF assms(1-4)] assms(5) by (auto simp: wrapper_ok_def)

section \<open>The operations keep the invariant\<close>

lemma wrapper_ok_cong: "hb_streams h = hb_streams h' \<Longrightarrow> wrapper_ok h a p w = wrapper_ok h' a p w"
  by (simp add: wrapper_ok_def)

lemma inv_set_list:
  assumes inv: "hub_inv n h" and l: "hb_lists h p = Some l" and l': "sl_inv l'" "sl_next_id l' = sl_next_id l"
    and sub: "set (sl_items l') \<subseteq> set (sl_items l)"
  shows "hub_inv n (h\<lparr>hb_lists := (hb_lists h)(p \<mapsto> l')\<rparr>)"
proof (rule hub_invI)
  fix a q k w
  assume "hb_map (h\<lparr>hb_lists := (hb_lists h)(p \<mapsto> l')\<rparr>) a = Some q" "w \<in> set (sl_items k)"
    "hb_lists (h\<lparr>hb_lists := (hb_lists h)(p \<mapsto> l')\<rparr>) q = Some k"
  then have "wrapper_ok h a q w"
    using hub_invD(5) [OF inv, of a q] l sub by (cases "q = p") auto
  then show "wrapper_ok (h\<lparr>hb_lists := (hb_lists h)(p \<mapsto> l')\<rparr>) a q w" by (simp add: wrapper_ok_def)
qed (use hub_invD(1-4,6,7,8) [OF inv] l l' in \<open>auto simp: stream_ok_def pub_ok_def split: if_splits\<close>)

lemma inv_unmap:
  assumes inv: "hub_inv n h"
  shows "hub_inv n (h\<lparr>hb_map := (hb_map h)(a := None)\<rparr>)"
proof (rule hub_invI)
  fix b p l w
  assume "hb_map (h\<lparr>hb_map := (hb_map h)(a := None)\<rparr>) b = Some p" "w \<in> set (sl_items l)"
    "hb_lists (h\<lparr>hb_map := (hb_map h)(a := None)\<rparr>) p = Some l"
  then have "wrapper_ok h b p w" using hub_invD(5) [OF inv, of b p] by (auto split: if_splits)
  then show "wrapper_ok (h\<lparr>hb_map := (hb_map h)(a := None)\<rparr>) b p w" by (simp add: wrapper_ok_def)
qed (use hub_invD(1-4,6,7,8) [OF inv] in \<open>auto simp: stream_ok_def pub_ok_def split: if_splits\<close>)

lemma drop_list_keeps:
  assumes inv: "hub_inv n h" and free: "\<And>a. hb_map h a \<noteq> Some p" and drop: "drop_list p h = (r, h')"
  shows "hub_inv n h' \<and> hb_streams h' = hb_streams h \<and> hb_map h' = hb_map h \<and> hb_pubs h' = hb_pubs h \<and>
    (\<forall>q. q \<noteq> p \<longrightarrow> hb_lists h' q = hb_lists h q)"
proof (cases "held p h")
  case True
  then show ?thesis using drop inv by (simp add: drop_list_def)
next
  case False
  have gone: "hub_inv n (h\<lparr>hb_lists := (hb_lists h)(p := None)\<rparr>)"
  proof (rule hub_invI)
    fix a q l w
    assume "hb_map (h\<lparr>hb_lists := (hb_lists h)(p := None)\<rparr>) a = Some q" "w \<in> set (sl_items l)"
      "hb_lists (h\<lparr>hb_lists := (hb_lists h)(p := None)\<rparr>) q = Some l"
    then have "wrapper_ok h a q w" using hub_invD(5) [OF inv, of a q] by (auto split: if_splits)
    then show "wrapper_ok (h\<lparr>hb_lists := (hb_lists h)(p := None)\<rparr>) a q w" by (simp add: wrapper_ok_def)
  next
    fix i
    assume i: "i < length (hb_streams (h\<lparr>hb_lists := (hb_lists h)(p := None)\<rparr>))"
    with False have "\<not> holds p (st_phase (hb_streams h ! i))" by (auto simp: held_def list_ex_length)
    with hub_invD(7) [OF inv, of i] i
    show "stream_ok (h\<lparr>hb_lists := (hb_lists h)(p := None)\<rparr>)
        (hb_streams (h\<lparr>hb_lists := (hb_lists h)(p := None)\<rparr>) ! i)"
      by (auto simp: stream_ok_def)
  next
    fix x
    assume x: "x \<in> set (hb_pubs (h\<lparr>hb_lists := (hb_lists h)(p := None)\<rparr>))"
    with False have "snd x \<noteq> Some p" by (auto simp: held_def list_ex_iff)
    with hub_invD(8) [OF inv, of x] x show "pub_ok (h\<lparr>hb_lists := (hb_lists h)(p := None)\<rparr>) x"
      by (auto simp: pub_ok_def)
  qed (use hub_invD(1-4,6) [OF inv] free in \<open>auto split: if_splits\<close>)
  then show ?thesis
    using False drop inv by (auto simp: drop_list_def split: option.splits outcome.splits)
qed

lemma drop_list_outcome:
  assumes "hub_inv n h" and "hb_lists h p = Some l" and "sl_items l = []"
  shows "fst (drop_list p h) = Ret ()"
  using destroy_outcome [of "sl_callbacks l"] hub_invD(2) [OF assms(1,2)] assms(2,3)
  by (auto simp: drop_list_def sl_inv_def sl_items_def)

text \<open>
  Afterwards the list of the actor, if it is still in the map, has no callback under the
  identifier.
\<close>

lemma remove_callback_keeps:
  assumes inv: "hub_inv n h" and run: "remove_callback a m h = (r, h')"
  shows "hub_inv n h' \<and> hb_streams h' = hb_streams h \<and> r = Ret () \<and>
    (\<forall>b p. hb_map h' b = Some p \<longrightarrow> hb_map h b = Some p) \<and>
    (\<forall>p l w. hb_map h' a = Some p \<longrightarrow> hb_lists h' p = Some l \<longrightarrow> w \<in> set (sl_items l) \<longrightarrow> wr_id w \<noteq> m)"
proof (cases "hb_map h a")
  case None
  with assms show ?thesis by (simp add: remove_callback_def)
next
  case (Some p)
  then obtain l where l: "hb_lists h p = Some l" using hub_invD(4) [OF inv] by blast
  note linv = hub_invD(2) [OF inv l]
  obtain l' where rm: "sl_remove m l = (Ret (m \<in> wr_id ` set (sl_items l)), l')" "sl_inv l'"
    "sl_items l' = filter (\<lambda>w. wr_id w \<noteq> m) (sl_items l)" "sl_next_id l' = sl_next_id l"
    by (rule sl_remove_spec [OF linv])
  let ?h1 = "h\<lparr>hb_lists := (hb_lists h)(p \<mapsto> l')\<rparr>"
  let ?h2 = "?h1\<lparr>hb_map := (hb_map ?h1)(a := None)\<rparr>"
  have inv1: "hub_inv n ?h1" by (rule inv_set_list [OF inv l rm(2,4)]) (auto simp: rm(3))
  have inv2: "hub_inv n ?h2" by (rule inv_unmap [OF inv1])
  have free: "hb_map ?h2 b \<noteq> Some p" for b using hub_invD(6) [OF inv Some, of b] by auto
  have eq: "remove_callback a m h = (if sl_items l' = [] then drop_list p ?h2 else (Ret (), ?h1))"
    using Some l rm(1) sl_size_0 [OF rm(2)] by (simp add: remove_callback_def Let_def)
  show ?thesis
  proof (cases "sl_items l' = []")
    case True
    then have drop: "drop_list p ?h2 = (r, h')" using eq run by simp
    have "fst (drop_list p ?h2) = Ret ()" by (rule drop_list_outcome [OF inv2 _ True]) simp
    with drop_list_keeps [OF inv2 free drop] drop show ?thesis by auto
  next
    case False
    with eq run inv1 Some rm(3) show ?thesis by auto
  qed
qed

lemma get_or_create_keeps:
  assumes inv: "hub_inv n h"
  shows "\<exists>p h'. get_or_create_subs a h = (Ret p, h') \<and> hub_inv n h' \<and> hb_streams h' = hb_streams h \<and>
    hb_map h' a = Some p \<and> hb_lists h' p \<noteq> None"
proof (cases "hb_map h a")
  case (Some p)
  with hub_invD(4) [OF inv] inv show ?thesis by (auto simp: get_or_create_subs_def)
next
  case None
  let ?p = "hb_fresh h"
  let ?h = "h\<lparr>hb_map := (hb_map h)(a \<mapsto> ?p), hb_lists := (hb_lists h)(?p \<mapsto> sl_new), hb_fresh := Suc ?p\<rparr>"
  have fresh: "hb_lists h ?p = None" using hub_invD(1) [OF inv, of ?p] by (cases "hb_lists h ?p") auto
  then have unmapped: "hb_map h b \<noteq> Some ?p" for b using hub_invD(4) [OF inv, of b ?p] by auto
  have "hub_inv n ?h"
  proof (rule hub_invI)
    fix b q l w
    assume "hb_map ?h b = Some q" "hb_lists ?h q = Some l" "w \<in> set (sl_items l)"
    then have "wrapper_ok h b q w" using hub_invD(5) [OF inv, of b q l w] unmapped [of b] by (auto split: if_splits)
    then show "wrapper_ok ?h b q w" by (simp add: wrapper_ok_def)
  next
    fix i
    assume "i < length (hb_streams ?h)"
    with hub_invD(7) [OF inv, of i] fresh show "stream_ok ?h (hb_streams ?h ! i)"
      by (auto simp: stream_ok_def)
  next
    fix x
    assume "x \<in> set (hb_pubs ?h)"
    with hub_invD(8) [OF inv, of x] fresh show "pub_ok ?h x" by (auto simp: pub_ok_def)
  next
    fix b c q
    assume "hb_map ?h b = Some q" "hb_map ?h c = Some q"
    with hub_invD(6) [OF inv, of b q c] unmapped show "b = c" by (auto split: if_splits)
  next
    fix b q
    assume "hb_map ?h b = Some q"
    with hub_invD(4) [OF inv, of b q] show "\<exists>l. hb_lists ?h q = Some l" by (auto split: if_splits)
  next
    fix q l
    assume "hb_lists ?h q = Some l"
    with hub_invD(1-3) [OF inv, of q l] show "q < hb_fresh ?h \<and> sl_inv l \<and> unat (sl_next_id l) \<le> Suc n"
      by (auto split: if_splits)
  qed
  with None show ?thesis by (auto simp: get_or_create_subs_def)
qed

lemma inv_open:
  assumes inv: "hub_inv n h" and s: "\<not> bq_stopped (st_inbound s)" "bq_policy (st_inbound s) = Block" "st_phase s = Opened"
  shows "hub_inv n (h\<lparr>hb_streams := hb_streams h @ [s]\<rparr>)"
proof (rule hub_invI)
  fix a p l w
  assume "hb_map (h\<lparr>hb_streams := hb_streams h @ [s]\<rparr>) a = Some p" "w \<in> set (sl_items l)"
    "hb_lists (h\<lparr>hb_streams := hb_streams h @ [s]\<rparr>) p = Some l"
  then have "wrapper_ok h a p w" using hub_invD(5) [OF inv, of a p] by simp
  then show "wrapper_ok (h\<lparr>hb_streams := hb_streams h @ [s]\<rparr>) a p w"
    by (force simp: wrapper_ok_def nth_append)
next
  fix i
  assume "i < length (hb_streams (h\<lparr>hb_streams := hb_streams h @ [s]\<rparr>))"
  with hub_invD(7) [OF inv, of i] s
  show "stream_ok (h\<lparr>hb_streams := hb_streams h @ [s]\<rparr>) (hb_streams (h\<lparr>hb_streams := hb_streams h @ [s]\<rparr>) ! i)"
    by (auto simp: stream_ok_def nth_append less_Suc_eq)
qed (use hub_invD(1-4,6,8) [OF inv] in \<open>auto simp: pub_ok_def\<close>)

lemma inv_add:
  assumes inv: "hub_inv n h" and i: "i < length (hb_streams h)" and ph: "st_phase (hb_streams h ! i) = Listed p"
    and n: "Suc n < 2 ^ 64 - 1" and add: "subs_add p i h = (r, h')"
  shows "\<exists>m. r = Ret m \<and> hub_inv (Suc n) (set_phase i (Streaming p m) h')"
proof -
  from hub_invD(7) [OF inv i] ph obtain l where l: "hb_lists h p = Some l"
    and mine: "\<And>a. hb_map h a = Some p \<Longrightarrow> st_actor (hb_streams h ! i) = a"
    and bq: "\<not> bq_stopped (st_inbound (hb_streams h ! i))" "bq_policy (st_inbound (hb_streams h ! i)) = Block"
    by (auto simp: stream_ok_def)
  obtain m l' where sl: "sl_add (Some i) l = (m, l')" by (rule prod.exhaust)
  note spec = sl_add_spec [OF hub_invD(2) [OF inv l] sl]
  have le: "unat m \<le> Suc n" using hub_invD(3) [OF inv l] spec(1) by simp
  then have ne: "m \<noteq> - 1" using n by (auto simp: unsigned_minus_1_eq_mask mask_eq_exp_minus_1)
  have r: "r = Ret m" "h' = h\<lparr>hb_lists := (hb_lists h)(p \<mapsto> l')\<rparr>"
    using add l sl by (simp_all add: subs_add_def)
  have next_id: "unat (sl_next_id l') \<le> Suc (Suc n)"
    using le ne spec(4) unatSuc [of m] by (simp add: add.commute add_eq_0_iff)
  let ?h = "set_phase i (Streaming p m) h'"
  have h: "hb_map ?h = hb_map h" "hb_lists ?h = (hb_lists h)(p \<mapsto> l')" "hb_fresh ?h = hb_fresh h"
    "hb_pubs ?h = hb_pubs h"
    "length (hb_streams ?h) = length (hb_streams h)"
    "\<And>j. hb_streams ?h ! j = (if j = i then (hb_streams h ! i)\<lparr>st_phase := Streaming p m\<rparr> else hb_streams h ! j)"
    using i by (simp_all add: set_phase_def r(2))
  have old: "wrapper_ok ?h a q w" if "wrapper_ok h a q w" for a q w
    using that ph by (auto simp: wrapper_ok_def h)
  have "hub_inv (Suc n) ?h"
  proof (rule hub_invI)
    fix a q k w
    assume k: "hb_map ?h a = Some q" "hb_lists ?h q = Some k" "w \<in> set (sl_items k)"
    show "wrapper_ok ?h a q w"
    proof (cases "q = p")
      case True
      then consider "w = \<lparr>wr_id = m, wr_cb = Some i\<rparr>" | "w \<in> set (sl_items l)" using k spec(2) by (auto simp: h)
      then show ?thesis
      proof cases
        case 1
        then show ?thesis using True k mine [of a] i by (simp add: wrapper_ok_def h)
      next
        case 2
        then show ?thesis using True k l hub_invD(5) [OF inv, of a p l w] old by (simp add: h)
      qed
    next
      case False
      then show ?thesis using k hub_invD(5) [OF inv, of a q k w] old by (simp add: h)
    qed
  next
    fix q k
    assume "hb_lists ?h q = Some k"
    with hub_invD(1) [OF inv, of q] hub_invD(2) [OF inv, of q k] hub_invD(3) [OF inv, of q k] l spec(5) ne next_id
    show "q < hb_fresh ?h \<and> sl_inv k \<and> unat (sl_next_id k) \<le> Suc (Suc n)"
      by (auto simp: h split: if_splits)
  next
    fix j
    assume "j < length (hb_streams ?h)"
    with hub_invD(7) [OF inv, of j] l mine bq show "stream_ok ?h (hb_streams ?h ! j)"
      by (auto simp: stream_ok_def h)
  next
    fix a q
    assume "hb_map ?h a = Some q"
    with hub_invD(4) [OF inv, of a q] show "\<exists>k. hb_lists ?h q = Some k" by (auto simp: h)
  next
    fix x
    assume "x \<in> set (hb_pubs ?h)"
    with hub_invD(8) [OF inv, of x] l show "pub_ok ?h x" by (auto simp: pub_ok_def h)
  next
    fix a b q
    assume "hb_map ?h a = Some q" "hb_map ?h b = Some q"
    with hub_invD(6) [OF inv, of a q b] show "a = b" by (simp add: h)
  qed
  with r(1) show ?thesis by blast
qed

section \<open>Publishing\<close>

definition push_to :: "change \<Rightarrow> stream \<Rightarrow> stream" where
  "push_to c s = s\<lparr>st_inbound := bq_enqueue c (st_inbound s)\<rparr>"

lemma push_to_simps [simp]:
  "st_phase (push_to c s) = st_phase s" "st_actor (push_to c s) = st_actor s"
  "bq_stopped (st_inbound (push_to c s)) = bq_stopped (st_inbound s)"
  "bq_policy (st_inbound (push_to c s)) = bq_policy (st_inbound s)"
  "bq_items (st_inbound (push_to c s)) = bq_items (st_inbound s) @ [c]"
  "st_written (push_to c s) = st_written s"
  by (simp_all add: push_to_def bq_enqueue_def)

definition has_room :: "stream \<Rightarrow> bool" where
  "has_room s \<longleftrightarrow> length (bq_items (st_inbound s)) < bq_max (st_inbound s)"

text \<open>Running the callback of a registered stream: the message is appended, or the queue is full.\<close>

lemma deliver_ok:
  assumes inv: "hub_inv n h" and w: "wrapper_ok h a p w" "wr_cb w = Some i"
  shows "deliver c i h = (if has_room (hb_streams h ! i) then (Ret (), upd_stream i (push_to c) h) else (Blocked, h))"
    and "hub_inv n (upd_stream i (push_to c) h)"
proof -
  from w have i: "i < length (hb_streams h)" "live (st_phase (hb_streams h ! i))" by (auto simp: wrapper_ok_def)
  note ok = hub_invD(7) [OF inv i(1)]
  have same: "(hb_streams h ! i)\<lparr>st_inbound := st_inbound (hb_streams h ! i)\<rparr> = hb_streams h ! i" by simp
  show "deliver c i h = (if has_room (hb_streams h ! i) then (Ret (), upd_stream i (push_to c) h) else (Blocked, h))"
    using ok i by (auto simp: deliver_def bq_push_def stream_ok_def has_room_def push_to_def upd_stream_def)
  show "hub_inv n (upd_stream i (push_to c) h)"
    by (rule inv_upd_stream [OF inv i(1)]) (use ok own_phase(3) [OF inv] in \<open>auto simp: stream_ok_def\<close>)
qed

lemma wrapper_ok_push [simp]:
  "i < length (hb_streams h) \<Longrightarrow> wrapper_ok (upd_stream i (push_to c) h) a p w = wrapper_ok h a p w"
  by (auto simp: wrapper_ok_def)

definition run_callbacks :: "change \<Rightarrow> nat wrapper list \<Rightarrow> (unit, hub) prog" where
  "run_callbacks c = seqP (\<lambda>w. case wr_cb w of None \<Rightarrow> ret () | Some i \<Rightarrow> catchP (deliver c i) (\<lambda>_. ret ()))"

lemma publish_change_items:
  assumes "hub_inv n h" and "hb_map h (ch_actor c) = Some p" and "hb_lists h p = Some l"
  shows "publish_change c h = run_callbacks c (sl_items l) h"
  using assms hub_invD(2) [OF assms(1,3)]
  by (simp add: publish_defs sl_invoke_all_items run_callbacks_def)

lemma run_callbacks_Cons:
  assumes "hub_inv n h" and "wrapper_ok h a p w" "wr_cb w = Some i"
  shows "run_callbacks c (w # ws) h = (if has_room (hb_streams h ! i)
    then run_callbacks c ws (upd_stream i (push_to c) h) else (Blocked, h))"
  using deliver_ok(1) [OF assms, of c] assms(3)
  by (simp add: run_callbacks_def catchP_def ret_def)

text \<open>Every callback runs once: streams whose callback is in the list have the message appended.\<close>

lemma run_callbacks_spec:
  assumes "hub_inv n h" and "\<forall>w \<in> set ws. wrapper_ok h a p w" and "distinct (map wr_id ws)"
    and "run_callbacks c ws h = (r, h')"
  shows "hub_inv n h' \<and> (r = Ret () \<or> r = Blocked) \<and> length (hb_streams h') = length (hb_streams h) \<and>
    hb_map h' = hb_map h \<and> hb_lists h' = hb_lists h \<and>
    (r = Ret () \<longrightarrow> (\<forall>j < length (hb_streams h). hb_streams h' ! j =
       (if Some j \<in> wr_cb ` set ws then push_to c (hb_streams h ! j) else hb_streams h ! j))) \<and>
    ((\<forall>j. Some j \<in> wr_cb ` set ws \<longrightarrow> has_room (hb_streams h ! j)) \<longrightarrow> r = Ret ())"
  using assms
proof (induction ws arbitrary: h)
  case Nil
  then show ?case by (simp add: run_callbacks_def)
next
  case (Cons w ws)
  then obtain i where w: "wrapper_ok h a p w" "wr_cb w = Some i" and i: "i < length (hb_streams h)"
    by (auto simp: wrapper_ok_def)
  let ?h = "upd_stream i (push_to c) h"
  note step = run_callbacks_Cons [OF Cons.prems(1) w, of c ws]
  have other: "wr_cb v \<noteq> Some i" if "v \<in> set ws" for v
  proof
    assume "wr_cb v = Some i"
    moreover have "wrapper_ok h a p v" using that Cons.prems(2) by simp
    ultimately have "wr_id v = wr_id w" using w by (auto simp: wrapper_ok_def)
    with that Cons.prems(3) show False by (metis distinct.simps(2) image_eqI list.set_map list.simps(9))
  qed
  show ?case
  proof (cases "has_room (hb_streams h ! i)")
    case False
    moreover from this i have "\<not> (\<forall>j. Some j \<in> wr_cb ` set (w # ws) \<longrightarrow> has_room (hb_streams h ! j))" using w(2) by force
    ultimately show ?thesis using Cons.prems(1,4) step by auto
  next
    case True
    have "run_callbacks c ws ?h = (r, h')" using True step Cons.prems(4) by simp
    from Cons.IH [OF deliver_ok(2) [OF Cons.prems(1) w] _ _ this] Cons.prems(2,3) i
    have ih: "hub_inv n h' \<and> (r = Ret () \<or> r = Blocked) \<and> length (hb_streams h') = length (hb_streams ?h) \<and>
      hb_map h' = hb_map ?h \<and> hb_lists h' = hb_lists ?h \<and>
      (r = Ret () \<longrightarrow> (\<forall>j < length (hb_streams ?h). hb_streams h' ! j =
         (if Some j \<in> wr_cb ` set ws then push_to c (hb_streams ?h ! j) else hb_streams ?h ! j))) \<and>
      ((\<forall>j. Some j \<in> wr_cb ` set ws \<longrightarrow> has_room (hb_streams ?h ! j)) \<longrightarrow> r = Ret ())" by simp
    have none: "Some i \<notin> wr_cb ` set ws" using other by force
    have others: "hb_streams ?h ! j = hb_streams h ! j" if "Some j \<in> wr_cb ` set ws" for j
      using that none i by (cases "j = i") auto
    have result: "hb_streams h' ! j = (if Some j \<in> wr_cb ` set (w # ws) then push_to c (hb_streams h ! j)
        else hb_streams h ! j)" if "r = Ret ()" "j < length (hb_streams h)" for j
      using ih that none i w(2) by (cases "j = i") auto
    have "r = Ret ()" if "\<forall>j. Some j \<in> wr_cb ` set (w # ws) \<longrightarrow> has_room (hb_streams h ! j)"
      using that ih others by auto
    with ih result show ?thesis by auto
  qed
qed

lemma publish_keeps:
  assumes inv: "hub_inv n h" and run: "publish_change c h = (r, h')"
  shows "hub_inv n h' \<and> (r = Ret () \<or> r = Blocked)"
proof (cases "hb_map h (ch_actor c)")
  case None
  with assms show ?thesis by (simp add: publish_defs)
next
  case (Some p)
  then obtain l where l: "hb_lists h p = Some l" using hub_invD(4) [OF inv] by blast
  have "\<forall>w \<in> set (sl_items l). wrapper_ok h (ch_actor c) p w" using hub_invD(5) [OF inv Some l] by blast
  moreover have "distinct (map wr_id (sl_items l))" using hub_invD(2) [OF inv l] by (simp add: sl_inv_def)
  moreover have "run_callbacks c (sl_items l) h = (r, h')"
    using publish_change_items [OF inv Some l] run by simp
  ultimately show ?thesis using run_callbacks_spec [OF inv] by blast
qed

text \<open>A call of \<open>publish_change\<close> that others came in between: it may run into the callback of a
  call that has returned, but it never damages anything.\<close>

lemma deliver_keeps:
  assumes inv: "hub_inv n h" and run: "deliver c i h = (r, h')"
  shows "hub_inv n h' \<and> hb_map h' = hb_map h \<and> hb_lists h' = hb_lists h \<and> hb_pubs h' = hb_pubs h"
proof (cases "i < length (hb_streams h) \<and> live (st_phase (hb_streams h ! i))")
  case True
  obtain x q where push: "bq_push c (st_inbound (hb_streams h ! i)) = (x, q)" by (rule prod.exhaust)
  have h': "h' = upd_stream i (\<lambda>s. s\<lparr>st_inbound := q\<rparr>) h" using run True push by (simp add: deliver_def)
  note ok = hub_invD(7) [OF inv conjunct1 [OF True]]
  have "\<not> bq_stopped q \<and> bq_policy q = Block"
    using push ok by (auto simp: bq_push_def bq_enqueue_def stream_ok_def split: if_splits)
  then have "hub_inv n h'"
    unfolding h' by (intro inv_upd_stream [OF inv conjunct1 [OF True]])
      (use ok own_phase(3) [OF inv] in \<open>auto simp: stream_ok_def\<close>)
  then show ?thesis by (simp add: h')
next
  case False
  with run inv show ?thesis by (auto simp: deliver_def)
qed

lemma callbacks_keep:
  assumes "hub_inv n h" and "run_callbacks c ws h = (r, h')"
  shows "hub_inv n h' \<and> hb_map h' = hb_map h \<and> hb_lists h' = hb_lists h \<and> hb_pubs h' = hb_pubs h"
  using assms
proof (induction ws arbitrary: h)
  case (Cons w ws)
  let ?f = "case wr_cb w of None \<Rightarrow> ret () | Some i \<Rightarrow> catchP (deliver c i) (\<lambda>_. ret ())"
  obtain x h1 where f: "?f h = (x, h1)" by (rule prod.exhaust)
  have h1: "hub_inv n h1 \<and> hb_map h1 = hb_map h \<and> hb_lists h1 = hb_lists h \<and> hb_pubs h1 = hb_pubs h"
  proof (cases "wr_cb w")
    case (Some i)
    obtain y g where "deliver c i h = (y, g)" by (rule prod.exhaust)
    with deliver_keeps [OF Cons.prems(1) this] f Some show ?thesis
      by (cases y) (auto simp: catchP_def ret_def)
  qed (use f Cons.prems(1) in \<open>simp add: ret_def\<close>)
  show ?case
  proof (cases x)
    case (Ret u)
    then have "run_callbacks c ws h1 = (r, h')" using f Cons.prems(2) by (simp add: run_callbacks_def)
    with Cons.IH [of h1] h1 show ?thesis by auto
  qed (use f h1 Cons.prems(2) in \<open>auto simp: run_callbacks_def\<close>)
qed (simp add: run_callbacks_def)

lemma publish_run_items:
  assumes "hub_inv n h" and "hb_lists h p = Some l"
  shows "publish_run c p h = run_callbacks c (sl_items l) h"
  using assms hub_invD(2) [OF assms]
  by (simp add: publish_run_def sl_invoke_all_items run_callbacks_def)

lemma inv_unpub:
  assumes inv: "hub_inv n h"
  shows "hub_inv n (h\<lparr>hb_pubs := (hb_pubs h)[j := (c, None)]\<rparr>)" (is "hub_inv n ?h")
proof (rule hub_invI)
  fix a q l w
  assume "hb_map ?h a = Some q" "hb_lists ?h q = Some l" "w \<in> set (sl_items l)"
  with hub_invD(5) [OF inv, of a q l w] show "wrapper_ok ?h a q w" by (simp add: wrapper_ok_def)
next
  fix x
  assume "x \<in> set (hb_pubs ?h)"
  then have "x = (c, None) \<or> x \<in> set (hb_pubs h)" using set_update_subset_insert by fastforce
  with hub_invD(8) [OF inv, of x] show "pub_ok ?h x" by (auto simp: pub_ok_def)
qed (use hub_invD(1-4,6,7) [OF inv] in \<open>auto simp: stream_ok_def\<close>)

lemma inv_release:
  assumes inv: "hub_inv n h" and mine: "\<And>a. hb_map h a = Some p \<Longrightarrow> a = ch_actor c"
    and run: "release_pub j c p h = (r, h')"
  shows "hub_inv n h'"
proof (cases "hb_map h (ch_actor c) = Some p")
  case True
  with run inv_unpub [OF inv] show ?thesis by (auto simp: release_pub_def bindP_modify)
next
  case False
  let ?h = "h\<lparr>hb_pubs := (hb_pubs h)[j := (c, None)]\<rparr>"
  from False have free: "hb_map ?h a \<noteq> Some p" for a using mine [of a] by auto
  have "drop_list p ?h = (r, h')" using run False by (simp add: release_pub_def bindP_modify)
  with drop_list_keeps [OF inv_unpub [OF inv] free] show ?thesis by blast
qed

lemma inv_pub_run:
  assumes inv: "hub_inv n h" and run: "exec (Pub_run j) h = (r, h')"
  shows "hub_inv n h'"
proof (cases "j < length (hb_pubs h) \<and> snd (hb_pubs h ! j) \<noteq> None")
  case True
  then obtain c p where cp: "hb_pubs h ! j = (c, Some p)" by (cases "hb_pubs h ! j") auto
  with hub_invD(8) [OF inv, of "(c, Some p)"] True obtain l where l: "hb_lists h p = Some l"
    and mine: "\<And>a. hb_map h a = Some p \<Longrightarrow> a = ch_actor c" by (metis nth_mem pub_ok_def fst_conv option.exhaust snd_conv)
  obtain x h1 where pr: "publish_run c p h = (x, h1)" by (rule prod.exhaust)
  with callbacks_keep [OF inv, of c "sl_items l" x h1] publish_run_items [OF inv l]
  have h1: "hub_inv n h1" "hb_map h1 = hb_map h" by simp_all
  show ?thesis
  proof (cases x)
    case (Ret u)
    then have "release_pub j c p h1 = (r, h')" using run True cp pr by (simp add: bindP_def)
    then show ?thesis by (rule inv_release [OF h1(1), rotated]) (use mine h1(2) in auto)
  qed (use run True cp pr h1(1) in \<open>auto simp: bindP_def\<close>)
next
  case False
  with run inv show ?thesis by (auto split: prod.splits option.splits)
qed

lemma inv_pub_find:
  assumes inv: "hub_inv n h"
  shows "hub_inv n (snd (exec (Pub_find c) h))"
proof (cases "hb_map h (ch_actor c)")
  case (Some p)
  let ?h = "h\<lparr>hb_pubs := hb_pubs h @ [(c, Some p)]\<rparr>"
  have "hub_inv n ?h"
  proof (rule hub_invI)
    fix a q l w
    assume "hb_map ?h a = Some q" "hb_lists ?h q = Some l" "w \<in> set (sl_items l)"
    with hub_invD(5) [OF inv, of a q l w] show "wrapper_ok ?h a q w" by (simp add: wrapper_ok_def)
  next
    fix x
    assume "x \<in> set (hb_pubs ?h)"
    then consider "x = (c, Some p)" | "x \<in> set (hb_pubs h)" by auto
    then show "pub_ok ?h x"
    proof cases
      case 1
      then show ?thesis using hub_invD(4) [OF inv Some] hub_invD(6) [OF inv Some] by (auto simp: pub_ok_def)
    next
      case 2
      with hub_invD(8) [OF inv] show ?thesis by (auto simp: pub_ok_def)
    qed
  qed (use hub_invD(1-4,6,7) [OF inv] in \<open>auto simp: stream_ok_def\<close>)
  with Some show ?thesis by (simp add: publish_find_def)
qed (use inv in \<open>simp add: publish_find_def\<close>)

section \<open>Every event keeps the invariant\<close>

lemma at_phase_cases:
  assumes "at_phase i k h = (r, h')"
  obtains "r = Blocked" and "h' = h" | "i < length (hb_streams h)" and "k (hb_streams h ! i) h = (r, h')"
  using assms by (auto simp: at_phase_def split: if_splits)

lemma inv_set_phase:
  assumes inv: "hub_inv n h" and i: "i < length (hb_streams h)"
    and hold: "\<And>p. holds p ph \<Longrightarrow> hb_lists h p \<noteq> None \<and> (\<forall>a. hb_map h a = Some p \<longrightarrow> st_actor (hb_streams h ! i) = a)"
    and own: "\<And>a p l w. hb_map h a = Some p \<Longrightarrow> hb_lists h p = Some l \<Longrightarrow> w \<in> set (sl_items l) \<Longrightarrow>
      wr_cb w = Some i \<Longrightarrow> ph = Streaming p (wr_id w) \<or> ph = Closing p (wr_id w)"
  shows "hub_inv n (set_phase i ph h)"
  unfolding set_phase_def
  by (rule inv_upd_stream [OF inv i]) (use hub_invD(7) [OF inv i] hold own in \<open>auto simp: stream_ok_def\<close>)

lemma unregistered:
  assumes "hub_inv n h" and "\<And>p m. st_phase (hb_streams h ! i) \<noteq> Streaming p m"
    and "\<And>p m. st_phase (hb_streams h ! i) \<noteq> Closing p m" and "hb_map h a = Some p" and "hb_lists h p = Some l"
    and "w \<in> set (sl_items l)"
  shows "wr_cb w \<noteq> Some i"
  using own_phase(3) [OF assms(1,4-6)] assms(2,3) by blast

lemma inv_check:
  assumes "hub_inv n h" and "i < length (hb_streams h)" and "st_phase (hb_streams h ! i) = Opened"
  shows "hub_inv n (set_phase i (if active then Checked else Finished st) h)"
  by (rule inv_set_phase [OF assms(1,2)]) (use unregistered [OF assms(1)] assms(3) in \<open>auto split: if_splits\<close>)

lemma inv_get_list:
  assumes inv: "hub_inv n h" and i: "i < length (hb_streams h)" and ph: "st_phase (hb_streams h ! i) = Checked"
    and run: "bindP (get_or_create_subs (st_actor (hb_streams h ! i))) (\<lambda>p. modify (set_phase i (Listed p))) h = (r, h')"
  shows "hub_inv n h' \<and> r = Ret ()"
proof -
  obtain p h1 where g: "get_or_create_subs (st_actor (hb_streams h ! i)) h = (Ret p, h1)" and inv1: "hub_inv n h1"
    and h1: "hb_streams h1 = hb_streams h" "hb_map h1 (st_actor (hb_streams h ! i)) = Some p" "hb_lists h1 p \<noteq> None"
    using get_or_create_keeps [OF inv] by blast
  from g run have r: "r = Ret ()" "h' = set_phase i (Listed p) h1" by (simp_all add: modify_def)
  have "hub_inv n (set_phase i (Listed p) h1)"
  proof (rule inv_set_phase [OF inv1])
    show "i < length (hb_streams h1)" using i h1 by simp
    show "hb_lists h1 q \<noteq> None \<and> (\<forall>a. hb_map h1 a = Some q \<longrightarrow> st_actor (hb_streams h1 ! i) = a)"
      if "holds q (Listed p)" for q
      using that h1 hub_invD(6) [OF inv1 h1(2)] by auto
  qed (use unregistered [OF inv1] h1(1) ph in auto)
  with r show ?thesis by simp
qed

lemma inv_close:
  assumes inv: "hub_inv n h" and i: "i < length (hb_streams h)" and ph: "st_phase (hb_streams h ! i) = Streaming p m"
  shows "hub_inv n (set_phase i (Closing p m) h)"
proof (rule inv_set_phase [OF inv i])
  fix a q l w
  assume "hb_map h a = Some q" "hb_lists h q = Some l" "w \<in> set (sl_items l)" "wr_cb w = Some i"
  from own_phase(3) [OF inv this] ph
  show "Closing p m = Streaming q (wr_id w) \<or> Closing p m = Closing q (wr_id w)" by simp
qed (use hub_invD(7) [OF inv i] ph in \<open>auto simp: stream_ok_def\<close>)

lemma inv_wait:
  assumes inv: "hub_inv n h" and i: "i < length (hb_streams h)" and ph: "st_phase (hb_streams h ! i) = Streaming p m"
    and run: "wait_step i p m wrote h = (r, h')"
  shows "hub_inv n h' \<and> (r = Ret () \<or> r = Blocked)"
proof -
  note ok = hub_invD(7) [OF inv i]
  show ?thesis
  proof (cases "bq_items (st_inbound (hb_streams h ! i))")
    case Nil
    with ok run inv show ?thesis by (simp add: wait_step_def bq_wait_pop_def stream_ok_def)
  next
    case (Cons c cs)
    define q where "q = (st_inbound (hb_streams h ! i))\<lparr>bq_items := cs, bq_size := bq_size (st_inbound (hb_streams h ! i)) - 1\<rparr>"
    let ?f = "\<lambda>s. s\<lparr>st_inbound := q, st_phase := (if wrote then Streaming p m else Closing p m),
        st_written := st_written s @ (if wrote then [c] else [])\<rparr>"
    have run': "r = Ret ()" "h' = upd_stream i ?f h"
      using run Cons ok by (simp_all add: wait_step_def bq_wait_pop_def bq_pop_def stream_ok_def q_def)
    have "hub_inv n (upd_stream i ?f h)"
    proof (rule inv_upd_stream [OF inv i])
      show "stream_ok h (?f (hb_streams h ! i))" using ok ph by (auto simp: stream_ok_def q_def)
      fix a p' l w
      assume "hb_map h a = Some p'" "hb_lists h p' = Some l" "w \<in> set (sl_items l)" "wr_cb w = Some i"
      from own_phase(3) [OF inv this] ph
      show "st_phase (?f (hb_streams h ! i)) = Streaming p' (wr_id w) \<or>
          st_phase (?f (hb_streams h ! i)) = Closing p' (wr_id w)" by auto
    qed simp
    with run' show ?thesis by simp
  qed
qed

lemma inv_remove:
  assumes inv: "hub_inv n h" and i: "i < length (hb_streams h)" and ph: "st_phase (hb_streams h ! i) = Closing p m"
    and run: "bindP (remove_callback (st_actor (hb_streams h ! i)) m) (\<lambda>_. modify (set_phase i (Leaving p))) h = (r, h')"
  shows "hub_inv n h' \<and> r = Ret ()"
proof -
  let ?a = "st_actor (hb_streams h ! i)"
  obtain r1 h1 where rc: "remove_callback ?a m h = (r1, h1)" by (rule prod.exhaust)
  from remove_callback_keeps [OF inv rc] have inv1: "hub_inv n h1" and h1: "hb_streams h1 = hb_streams h" "r1 = Ret ()"
    and sub: "\<And>b q. hb_map h1 b = Some q \<Longrightarrow> hb_map h b = Some q"
    and gone: "\<And>q l w. hb_map h1 ?a = Some q \<Longrightarrow> hb_lists h1 q = Some l \<Longrightarrow> w \<in> set (sl_items l) \<Longrightarrow> wr_id w \<noteq> m"
    by blast+
  have r: "r = Ret ()" "h' = set_phase i (Leaving p) h1" using run rc h1(2) by (simp_all add: modify_def)
  note i1 = i [folded h1(1)] and ph1 = ph [folded h1(1)]
  have "hub_inv n (set_phase i (Leaving p) h1)"
  proof (rule inv_set_phase [OF inv1 i1])
    show "hb_lists h1 q \<noteq> None \<and> (\<forall>a. hb_map h1 a = Some q \<longrightarrow> st_actor (hb_streams h1 ! i) = a)"
      if "holds q (Leaving p)" for q
      using that hub_invD(7) [OF inv1 i1] ph1 by (auto simp: stream_ok_def)
    fix a q l w
    assume w: "hb_map h1 a = Some q" "hb_lists h1 q = Some l" "w \<in> set (sl_items l)" "wr_cb w = Some i"
    from own_phase [OF inv1 w] ph1 h1(1) have "a = ?a" "wr_id w = m" by auto
    with gone [of q l w] w show "Leaving p = Streaming q (wr_id w) \<or> Leaving p = Closing q (wr_id w)" by simp
  qed
  with r show ?thesis by simp
qed

lemma inv_return:
  assumes inv: "hub_inv n h" and i: "i < length (hb_streams h)" and ph: "st_phase (hb_streams h ! i) = Leaving p"
    and run: "exec (Return i) h = (r, h')"
  shows "hub_inv n h'"
proof -
  let ?h = "set_phase i (Finished RPC_OK) h"
  have inv1: "hub_inv n ?h"
    by (rule inv_set_phase [OF inv i]) (use unregistered [OF inv] ph in auto)
  have mine: "hb_map h a = Some p \<Longrightarrow> st_actor (hb_streams h ! i) = a" for a
    using hub_invD(7) [OF inv i] ph by (auto simp: stream_ok_def)
  have run': "(if hb_map ?h (st_actor (hb_streams h ! i)) = Some p then (Ret (), ?h) else drop_list p ?h) = (r, h')"
    using run i ph by (simp add: at_phase_def bindP_modify)
  show ?thesis
  proof (cases "hb_map ?h (st_actor (hb_streams h ! i)) = Some p")
    case True
    with run' inv1 show ?thesis by simp
  next
    case False
    then have "hb_map ?h a \<noteq> Some p" for a using mine [of a] by (auto simp: set_phase_def)
    with drop_list_keeps [OF inv1] run' False show ?thesis by metis
  qed
qed

lemma exec_keeps:
  assumes inv: "hub_inv n h" and bound: "Suc n < 2 ^ 64 - 1" and run: "exec e h = (r, h')"
  shows "hub_inv (Suc n) h' \<and> (r = Ret () \<or> r = Blocked \<or> (\<exists>i. e = Return i \<or> e = Pub_run i))"
proof -
  have up: "hub_inv (Suc n) g" if "hub_inv n g" for g using hub_inv_mono [OF that] by simp
  have stay: ?thesis if "r = Blocked" "h' = h" using that up [OF inv] by simp
  show ?thesis
  proof (cases e)
    case (Open a)
    with run inv_open [OF inv] show ?thesis by (auto intro: up)
  next
    case (Check i active)
    with run have "at_phase i (\<lambda>s. case st_phase s of Opened \<Rightarrow> modify (set_phase i (if active then Checked
        else Finished (Not_found ''Actor not found or inactive''))) | _ \<Rightarrow> (\<lambda>h. (Blocked, h))) h = (r, h')" by simp
    then show ?thesis
      by (rule at_phase_cases)
        (use stay up inv_check [OF inv] in \<open>auto simp: modify_def split: phase.splits\<close>)
  next
    case (Get_list i)
    with run have "at_phase i (\<lambda>s. case st_phase s of
        Checked \<Rightarrow> bindP (get_or_create_subs (st_actor s)) (\<lambda>p. modify (set_phase i (Listed p)))
      | _ \<Rightarrow> (\<lambda>h. (Blocked, h))) h = (r, h')" by simp
    then show ?thesis
      by (rule at_phase_cases) (use stay up inv_get_list [OF inv] in \<open>auto split: phase.splits\<close>)
  next
    case (Add i)
    with run have "at_phase i (\<lambda>s. case st_phase s of
        Listed p \<Rightarrow> bindP (subs_add p i) (\<lambda>m. modify (set_phase i (Streaming p m)))
      | _ \<Rightarrow> (\<lambda>h. (Blocked, h))) h = (r, h')" by simp
    then show ?thesis
    proof (rule at_phase_cases)
      assume i: "i < length (hb_streams h)" and k: "(case st_phase (hb_streams h ! i) of
          Listed p \<Rightarrow> bindP (subs_add p i) (\<lambda>m. modify (set_phase i (Streaming p m)))
        | _ \<Rightarrow> (\<lambda>h. (Blocked, h))) h = (r, h')"
      show ?thesis
      proof (cases "st_phase (hb_streams h ! i)")
        case (Listed p)
        obtain x h1 where sa: "subs_add p i h = (x, h1)" by (rule prod.exhaust)
        with inv_add [OF inv i Listed bound sa] k Listed show ?thesis by (auto simp: bindP_def modify_def)
      qed (use k stay in auto)
    qed (rule stay)
  next
    case (Timeout i)
    with run have "at_phase i (\<lambda>s. case st_phase s of
        Streaming p n \<Rightarrow> if bq_items (st_inbound s) = [] then ret () else (\<lambda>h. (Blocked, h))
      | _ \<Rightarrow> (\<lambda>h. (Blocked, h))) h = (r, h')" by simp
    then show ?thesis
      by (rule at_phase_cases) (use stay up inv in \<open>auto simp: ret_def split: phase.splits if_splits\<close>)
  next
    case (Write i ok)
    with run have "at_phase i (\<lambda>s. case st_phase s of
        Streaming p n \<Rightarrow> wait_step i p n ok | _ \<Rightarrow> (\<lambda>h. (Blocked, h))) h = (r, h')" by simp
    then show ?thesis
      by (rule at_phase_cases) (use stay up inv_wait [OF inv] in \<open>fastforce split: phase.splits\<close>)+
  next
    case (Cancel i)
    with run have "at_phase i (\<lambda>s. case st_phase s of
        Streaming p n \<Rightarrow> modify (set_phase i (Closing p n)) | _ \<Rightarrow> (\<lambda>h. (Blocked, h))) h = (r, h')" by simp
    then show ?thesis
      by (rule at_phase_cases) (use stay up inv_close [OF inv] in \<open>auto simp: modify_def split: phase.splits\<close>)
  next
    case (Remove i)
    with run have "at_phase i (\<lambda>s. case st_phase s of
        Closing p n \<Rightarrow> bindP (remove_callback (st_actor s) n) (\<lambda>_. modify (set_phase i (Leaving p)))
      | _ \<Rightarrow> (\<lambda>h. (Blocked, h))) h = (r, h')" by simp
    then show ?thesis
      by (rule at_phase_cases) (use stay up inv_remove [OF inv] in \<open>auto split: phase.splits\<close>)
  next
    case (Return i)
    with run have "exec (Return i) h = (r, h')" by simp
    then show ?thesis using Return inv_return [OF inv, of i _ r h'] stay up inv
      by (cases "i < length (hb_streams h)"; cases "st_phase (hb_streams h ! i)") (auto simp: at_phase_def)
  next
    case (Publish c)
    with run publish_keeps [OF inv, of c r h'] show ?thesis by (auto intro: up)
  next
    case (Pub_find c)
    with run inv_pub_find [OF inv, of c] show ?thesis by (auto intro: up)
  next
    case (Pub_run j)
    with run inv_pub_run [OF inv, of j r h'] show ?thesis by (auto intro: up)
  qed
qed

lemma run_keeps:
  assumes "hub_inv n h" and "n + length es < 2 ^ 64 - 1" and "seqP exec es h = (r, h')"
  shows "hub_inv (n + length es) h'"
  using assms
proof (induction es arbitrary: n h)
  case (Cons e es)
  obtain r1 h1 where e: "exec e h = (r1, h1)" by (rule prod.exhaust)
  have bound: "Suc n < 2 ^ 64 - 1" using Cons.prems(2) by simp
  have inv1: "hub_inv (Suc n) h1" using exec_keeps [OF Cons.prems(1) bound e] by simp
  show ?case
  proof (cases r1)
    case (Ret u)
    with e Cons.prems(3) have "seqP exec es h1 = (r, h')" by simp
    with Cons.IH [OF inv1 _ this] Cons.prems(2) show ?thesis by simp
  qed (use e Cons.prems(3) hub_inv_mono [OF inv1] in auto)
qed simp

section \<open>Properties\<close>

lemma reachable_inv:
  assumes "length es < 2 ^ 64 - 1" and "seqP exec es hb_new = (r, h)"
  shows "hub_inv (length es) h"
  using run_keeps [OF hub_new_inv _ assms(2)] assms(1) by simp

section \<open>Orderly histories\<close>

text \<open>
  A history is orderly if every \<open>add\<close> comes in time, while the list that \<open>get_or_create_subs\<close>
  returned is still the one in the map.
\<close>

fun in_time :: "event \<Rightarrow> hub \<Rightarrow> bool" where
  "in_time (Add i) h \<longleftrightarrow> (if i < length (hb_streams h) then
     (case st_phase (hb_streams h ! i) of
        Listed p \<Rightarrow> hb_map h (st_actor (hb_streams h ! i)) = Some p
      | _ \<Rightarrow> True) else True)"
| "in_time _ h \<longleftrightarrow> True"

fun orderly :: "event list \<Rightarrow> hub \<Rightarrow> bool" where
  "orderly [] h \<longleftrightarrow> True"
| "orderly (e # es) h \<longleftrightarrow> in_time e h \<and> orderly es (snd (exec e h))"

text \<open>Then a list that is not in the map has no callbacks.\<close>

definition tidy :: "hub \<Rightarrow> bool" where
  "tidy h \<longleftrightarrow> (\<forall>p l. hb_lists h p = Some l \<longrightarrow> (\<forall>a. hb_map h a \<noteq> Some p) \<longrightarrow> sl_items l = [])"

lemma tidy_cong: "hb_map h = hb_map h' \<Longrightarrow> hb_lists h = hb_lists h' \<Longrightarrow> tidy h = tidy h'"
  by (simp add: tidy_def)

lemma tidy_upd [simp]: "tidy (upd_stream i f h) = tidy h" "tidy (set_phase i ph h) = tidy h"
  by (auto simp: set_phase_def intro!: tidy_cong)

lemma tidyD: "tidy h \<Longrightarrow> hb_lists h p = Some l \<Longrightarrow> (\<And>a. hb_map h a \<noteq> Some p) \<Longrightarrow> sl_items l = []"
  by (simp add: tidy_def)

lemma tidy_drop:
  assumes "tidy h" and "drop_list p h = (r, h')"
  shows "tidy h'"
  using assms by (auto simp: drop_list_def tidy_def split: if_splits option.splits outcome.splits)

lemma tidy_drop_ok:
  assumes inv: "hub_inv n h" and "tidy h" and "\<And>a. hb_map h a \<noteq> Some p" and "hb_lists h p \<noteq> None"
    and "drop_list p h = (r, h')"
  shows "r = Ret ()"
proof -
  from assms(4) obtain l where "hb_lists h p = Some l" by blast
  with drop_list_outcome [OF inv this] tidyD [OF assms(2) this] assms(3,5) show ?thesis by simp
qed

lemma tidy_get_or_create:
  assumes "tidy h" and "get_or_create_subs a h = (r, h')"
  shows "tidy h'"
proof (cases "hb_map h a")
  case None
  with assms(2) have h': "h' = h\<lparr>hb_map := (hb_map h)(a \<mapsto> hb_fresh h),
      hb_lists := (hb_lists h)(hb_fresh h \<mapsto> sl_new), hb_fresh := Suc (hb_fresh h)\<rparr>"
    by (simp add: get_or_create_subs_def)
  show ?thesis
    unfolding tidy_def
  proof (intro allI impI)
    fix p l
    assume l: "hb_lists h' p = Some l" and free: "\<forall>b. hb_map h' b \<noteq> Some p"
    from spec [OF free, of a] have p: "p \<noteq> hb_fresh h" by (simp add: h')
    have "hb_map h b \<noteq> Some p" for b
      using spec [OF free, of b] None by (cases "b = a") (auto simp: h')
    with l p show "sl_items l = []" by (intro tidyD [OF assms(1)]) (auto simp: h')
  qed
qed (use assms in \<open>simp add: get_or_create_subs_def\<close>)

lemma tidy_add:
  assumes "tidy h" and "hb_map h a = Some p" and "subs_add p i h = (r, h')"
  shows "tidy h'"
  using assms by (auto simp: subs_add_def tidy_def split: option.splits prod.splits if_splits)

lemma tidy_remove:
  assumes inv: "hub_inv n h" and t: "tidy h" and run: "remove_callback a m h = (r, h')"
  shows "tidy h'"
proof (cases "hb_map h a")
  case None
  with assms show ?thesis by (simp add: remove_callback_def)
next
  case (Some p)
  then obtain l where l: "hb_lists h p = Some l" using hub_invD(4) [OF inv] by blast
  obtain l' where rm: "sl_remove m l = (Ret (m \<in> wr_id ` set (sl_items l)), l')" "sl_inv l'"
    "sl_items l' = filter (\<lambda>w. wr_id w \<noteq> m) (sl_items l)" "sl_next_id l' = sl_next_id l"
    by (rule sl_remove_spec [OF hub_invD(2) [OF inv l]])
  let ?h1 = "h\<lparr>hb_lists := (hb_lists h)(p \<mapsto> l')\<rparr>"
  let ?h2 = "?h1\<lparr>hb_map := (hb_map ?h1)(a := None)\<rparr>"
  have eq: "remove_callback a m h = (if sl_items l' = [] then drop_list p ?h2 else (Ret (), ?h1))"
    using Some l rm(1) sl_size_0 [OF rm(2)] by (simp add: remove_callback_def Let_def)
  show ?thesis
  proof (cases "sl_items l' = []")
    case True
    have "(\<forall>b. hb_map h b \<noteq> Some q) \<longleftrightarrow> (\<forall>b. b \<noteq> a \<longrightarrow> hb_map h b \<noteq> Some q)" if "q \<noteq> p" for q
      using Some that by (metis option.inject)
    with True have "tidy ?h2" using t by (auto simp: tidy_def)
    moreover have "drop_list p ?h2 = (r, h')" using eq run True by simp
    ultimately show ?thesis by (rule tidy_drop)
  next
    case False
    then show ?thesis using eq run t Some by (auto simp: tidy_def)
  qed
qed

lemma tidy_publish:
  assumes inv: "hub_inv n h" and t: "tidy h" and l: "hb_lists h p = Some l" and run: "publish_run c p h = (r, h')"
  shows "r = Ret () \<or> r = Blocked"
proof (cases "\<exists>a. hb_map h a = Some p")
  case True
  then obtain a where a: "hb_map h a = Some p" by blast
  have "\<forall>w \<in> set (sl_items l). wrapper_ok h a p w" using hub_invD(5) [OF inv a l] by blast
  moreover have "distinct (map wr_id (sl_items l))" using hub_invD(2) [OF inv l] by (simp add: sl_inv_def)
  moreover have "run_callbacks c (sl_items l) h = (r, h')" using publish_run_items [OF inv l] run by simp
  ultimately show ?thesis using run_callbacks_spec [OF inv] by blast
next
  case False
  then have "sl_items l = []" by (intro tidyD [OF t l]) auto
  then show ?thesis using publish_run_items [OF inv l] run by (simp add: run_callbacks_def)
qed

lemma tidy_pub_run:
  assumes inv: "hub_inv n h" and t: "tidy h" and run: "exec (Pub_run j) h = (r, h')"
  shows "tidy h' \<and> (r = Ret () \<or> r = Blocked)"
proof (cases "j < length (hb_pubs h) \<and> snd (hb_pubs h ! j) \<noteq> None")
  case True
  then obtain c p where cp: "hb_pubs h ! j = (c, Some p)" by (cases "hb_pubs h ! j") auto
  with hub_invD(8) [OF inv, of "(c, Some p)"] True obtain l where l: "hb_lists h p = Some l"
    and mine: "\<And>a. hb_map h a = Some p \<Longrightarrow> a = ch_actor c" by (metis nth_mem pub_ok_def fst_conv option.exhaust snd_conv)
  obtain x h1 where pr: "publish_run c p h = (x, h1)" by (rule prod.exhaust)
  with callbacks_keep [OF inv, of c "sl_items l" x h1] publish_run_items [OF inv l]
  have h1: "hub_inv n h1" "hb_map h1 = hb_map h" "hb_lists h1 = hb_lists h" by simp_all
  have t1: "tidy h1" using t tidy_cong h1(2,3) by metis
  from tidy_publish [OF inv t l pr] show ?thesis
  proof
    assume "x = Ret ()"
    then have rel: "release_pub j c p h1 = (r, h')" using run True cp pr by (simp add: bindP_def)
    let ?h = "h1\<lparr>hb_pubs := (hb_pubs h1)[j := (c, None)]\<rparr>"
    have t2: "tidy ?h" using t1 by (simp add: tidy_def)
    show ?thesis
    proof (cases "hb_map h (ch_actor c) = Some p")
      case True
      then show ?thesis using rel h1(2) t2 by (auto simp: release_pub_def bindP_modify)
    next
      case False
      then have free: "hb_map ?h a \<noteq> Some p" for a using mine [of a] h1(2) by auto
      have drop: "drop_list p ?h = (r, h')" using rel False h1(2) by (simp add: release_pub_def bindP_modify)
      then show ?thesis
        using tidy_drop [OF t2 drop] tidy_drop_ok [OF inv_unpub [OF h1(1)] t2 free _ drop] l h1(3) by simp
    qed
  qed (use run True cp pr t1 in \<open>auto simp: bindP_def\<close>)
next
  case False
  with run t show ?thesis by (auto split: prod.splits option.splits)
qed

lemma tidy_exec:
  assumes inv: "hub_inv n h" and bound: "Suc n < 2 ^ 64 - 1" and t: "tidy h" and time: "in_time e h"
    and run: "exec e h = (r, h')"
  shows "tidy h' \<and> (r = Ret () \<or> r = Blocked)"
proof -
  have out: "r = Ret () \<or> r = Blocked \<or> (\<exists>i. e = Return i \<or> e = Pub_run i)"
    using exec_keeps [OF inv bound run] by blast
  show ?thesis
  proof (cases e)
    case (Get_list i)
    with run t tidy_get_or_create [OF t] have "tidy h'"
      by (auto simp: at_phase_def bindP_def modify_def split: if_splits phase.splits prod.splits outcome.splits)
    with out Get_list show ?thesis by auto
  next
    case (Add i)
    with run t time tidy_add [OF t] have "tidy h'"
      by (auto simp: at_phase_def bindP_def modify_def split: if_splits phase.splits prod.splits outcome.splits)
    with out Add show ?thesis by auto
  next
    case (Remove i)
    with run t tidy_remove [OF inv t] have "tidy h'"
      by (auto simp: at_phase_def bindP_def modify_def split: if_splits phase.splits prod.splits outcome.splits)
    with out Remove show ?thesis by auto
  next
    case (Return i)
    show ?thesis
    proof (cases "i < length (hb_streams h) \<and> (\<exists>p. st_phase (hb_streams h ! i) = Leaving p)")
      case True
      then obtain p where i: "i < length (hb_streams h)" and ph: "st_phase (hb_streams h ! i) = Leaving p" by blast
      let ?h = "set_phase i (Finished RPC_OK) h"
      have inv1: "hub_inv n ?h"
        by (rule inv_set_phase [OF inv i]) (use unregistered [OF inv] ph in auto)
      have mine: "hb_map h a = Some p \<Longrightarrow> st_actor (hb_streams h ! i) = a" for a
        using hub_invD(7) [OF inv i] ph by (auto simp: stream_ok_def)
      have run': "(if hb_map ?h (st_actor (hb_streams h ! i)) = Some p then (Ret (), ?h) else drop_list p ?h) = (r, h')"
        using run Return i ph by (simp add: at_phase_def bindP_modify)
      show ?thesis
      proof (cases "hb_map ?h (st_actor (hb_streams h ! i)) = Some p")
        case False
        then have free: "hb_map ?h a \<noteq> Some p" for a using mine [of a] by (auto simp: set_phase_def)
        have drop: "drop_list p ?h = (r, h')" using run' False by simp
        have "hb_lists ?h p \<noteq> None"
          using hub_invD(7) [OF inv i] ph by (simp add: stream_ok_def set_phase_def)
        with tidy_drop [OF _ drop] tidy_drop_ok [OF inv1 _ free _ drop] t show ?thesis by simp
      qed (use run' t in auto)
    next
      case False
      with run Return t show ?thesis by (auto simp: at_phase_def split: if_splits phase.splits)
    qed
  next
    case (Publish c)
    have "tidy h'"
    proof (cases "hb_map h (ch_actor c)")
      case (Some p)
      with hub_invD(4) [OF inv Some] obtain l where "hb_lists h p = Some l" by blast
      from publish_change_items [OF inv Some this] run Publish
        callbacks_keep [OF inv, of c "sl_items l" r h'] t show ?thesis using tidy_cong [of h' h] by simp
    qed (use run Publish t in \<open>simp add: publish_defs\<close>)
    with out Publish show ?thesis by auto
  next
    case (Pub_run j)
    with tidy_pub_run [OF inv t] run show ?thesis by blast
  next
    case (Pub_find c)
    with run t out show ?thesis by (auto simp: tidy_def split: option.splits)
  next
    case (Open a)
    with run t out show ?thesis by (auto simp: tidy_def)
  next
    case (Check i active)
    with run t out show ?thesis
      by (auto simp: at_phase_def modify_def split: if_splits phase.splits)
  next
    case (Timeout i)
    with run t out show ?thesis by (auto simp: at_phase_def ret_def split: if_splits phase.splits)
  next
    case (Write i ok)
    with run t out show ?thesis
      by (auto simp: at_phase_def wait_step_def split: if_splits phase.splits prod.splits outcome.splits option.splits)
  next
    case (Cancel i)
    with run t out show ?thesis by (auto simp: at_phase_def modify_def split: if_splits phase.splits)
  qed
qed

lemma orderly_append:
  "seqP exec es h = (Ret (), g) \<Longrightarrow> orderly (es @ fs) h = (orderly es h \<and> orderly fs g)"
  by (induction es arbitrary: h) (auto split: prod.splits outcome.splits)

lemma orderly_tidy:
  assumes "hub_inv n h" and "n + length es < 2 ^ 64 - 1" and "tidy h" and "orderly es h"
    and "seqP exec es h = (r, h')"
  shows "tidy h'"
  using assms
proof (induction es arbitrary: n h)
  case (Cons e es)
  obtain r1 h1 where e: "exec e h = (r1, h1)" by (rule prod.exhaust)
  have bound: "Suc n < 2 ^ 64 - 1" using Cons.prems(2) by simp
  have inv1: "hub_inv (Suc n) h1" using exec_keeps [OF Cons.prems(1) bound e] by simp
  have t1: "tidy h1" using tidy_exec [OF Cons.prems(1) bound Cons.prems(3) _ e] Cons.prems(4) by simp
  show ?case
  proof (cases r1)
    case (Ret u)
    with e Cons.prems(5) have "seqP exec es h1 = (r, h')" by simp
    with Cons.IH [OF inv1 _ t1 _ this] Cons.prems(2,4) e show ?thesis by simp
  qed (use e Cons.prems(5) t1 in auto)
qed simp

text \<open>C2: Publishing is safe whatever \<open>Subscribe\<close> calls come, go and are interleaved with it: after
  any history of fewer than 2^64 - 1 events, a call of \<open>publish_change\<close> that is not overtaken
  returns or waits for room in a client's queue, and only the end of a \<open>Subscribe\<close> call or a call
  of \<open>publish_change\<close> that others came in between can run into freed memory. If moreover every
  client was added to its list while that list was still in the map, nothing at all can.\<close>

theorem publish_safe:
  assumes "Suc (length es) < 2 ^ 64 - 1" and "seqP exec es hb_new = (r, h)"
  shows "fst (publish_change c h) \<in> {Ret (), Blocked} \<and>
    (\<forall>e. fst (exec e h) \<notin> {Ret (), Blocked} \<longrightarrow> (\<exists>i. e = Return i \<or> e = Pub_run i)) \<and>
    (\<forall>e. r = Ret () \<and> orderly (es @ [e]) hb_new \<longrightarrow> fst (exec e h) \<in> {Ret (), Blocked})"
proof -
  have inv: "hub_inv (length es) h" using reachable_inv [OF _ assms(2)] assms(1) by simp
  have "fst (publish_change c h) \<in> {Ret (), Blocked}"
    using publish_keeps [OF inv, of c] by (metis insert_iff prod.collapse)
  moreover have "\<exists>i. e = Return i \<or> e = Pub_run i" if "fst (exec e h) \<notin> {Ret (), Blocked}" for e
    using that exec_keeps [OF inv assms(1), of e] by (metis insert_iff prod.collapse)
  moreover have "fst (exec e h) \<in> {Ret (), Blocked}" if "r = Ret ()" "orderly (es @ [e]) hb_new" for e
  proof -
    from that orderly_append [of es hb_new h "[e]"] assms(2) have "orderly es hb_new" "in_time e h" by simp_all
    moreover have "tidy hb_new" by (simp add: tidy_def hb_new_def)
    ultimately have "tidy h" using orderly_tidy [OF hub_new_inv _ _ _ assms(2)] assms(1) by simp
    from tidy_exec [OF inv assms(1) this \<open>in_time e h\<close>] show ?thesis by (metis insert_iff prod.collapse)
  qed
  ultimately show ?thesis by blast
qed

lemmas run_defs = hb_new_def at_phase_def modify_def bindP_def get_or_create_subs_def set_phase_def
  upd_stream_def subs_add_def sl_new_def sl_add_def Let_def remove_callback_def sl_remove_def zoom_def
  tsl_new_def tsl_push_front_def tsl_remove_first_if_def unlink_def sl_size_def drop_list_def
  read_next_def set_prev_def set_next_def held_def

theorem publish_safe_witness:
  "fst (publish_change \<lparr>ch_actor = ''a'', ch_key = ''k'', ch_value = ''v'', ch_event = ''UPDATED''\<rparr>
     (snd (seqP exec (lost_run ''a'') hb_new))) \<in> {Ret (), Blocked} \<and>
   fst (exec (Pub_run 0) (snd (seqP exec [Open ''a'', Check 0 True, Get_list 0, Add 0,
     Pub_find \<lparr>ch_actor = ''a'', ch_key = ''k'', ch_value = ''v'', ch_event = ''UPDATED''\<rparr>,
     Cancel 0, Remove 0] hb_new))) \<in> {Ret (), Blocked}"
proof
  let ?c = "\<lparr>ch_actor = ''a'', ch_key = ''k'', ch_value = ''v'', ch_event = ''UPDATED''\<rparr>"
  show "fst (publish_change ?c (snd (seqP exec (lost_run ''a'') hb_new))) \<in> {Ret (), Blocked}"
    by (rule publish_safe [THEN conjunct1, OF _ surjective_pairing]) (simp add: lost_run_def)
  let ?es = "[Open ''a'', Check 0 True, Get_list 0, Add 0, Pub_find ?c, Cancel 0, Remove 0]"
  have "fst (seqP exec ?es hb_new) = Ret ()" by (simp add: run_defs publish_find_def)
  moreover have "orderly (?es @ [Pub_run 0]) hb_new" by (simp add: run_defs publish_find_def)
  moreover have "Suc (length ?es) < 2 ^ 64 - 1" by simp
  ultimately show "fst (exec (Pub_run 0) (snd (seqP exec ?es hb_new))) \<in> {Ret (), Blocked}"
    using publish_safe [of ?es "fst (seqP exec ?es hb_new)" "snd (seqP exec ?es hb_new)" ?c] surjective_pairing
    by blast
qed

text \<open>Every registered client gets every change once: after any history, when the queues of the
  registered streams have room, \<open>publish_change\<close> returns, has appended the change exactly once to
  the queue of each stream whose callback is in the actor's list, and has left every other stream
  and everything else of these streams as it was.\<close>

theorem publish_delivers:
  assumes "Suc (length es) < 2 ^ 64 - 1" and "seqP exec es hb_new = (r, h)"
    and "hb_map h (ch_actor c) = Some p" and "hb_lists h p = Some l"
    and "\<And>j. Some j \<in> wr_cb ` set (sl_items l) \<Longrightarrow> has_room (hb_streams h ! j)"
  shows "\<exists>h'. publish_change c h = (Ret (), h') \<and> length (hb_streams h') = length (hb_streams h) \<and>
    (\<forall>j < length (hb_streams h).
       bq_items (st_inbound (hb_streams h' ! j)) = bq_items (st_inbound (hb_streams h ! j)) @
         (if Some j \<in> wr_cb ` set (sl_items l) then [c] else []) \<and>
       st_phase (hb_streams h' ! j) = st_phase (hb_streams h ! j) \<and>
       st_written (hb_streams h' ! j) = st_written (hb_streams h ! j))"
proof -
  have inv: "hub_inv (length es) h" using reachable_inv [OF _ assms(2)] assms(1) by simp
  obtain x h' where run: "publish_change c h = (x, h')" by (rule prod.exhaust)
  have rc: "run_callbacks c (sl_items l) h = (x, h')" using publish_change_items [OF inv assms(3,4)] run by simp
  have "\<forall>w \<in> set (sl_items l). wrapper_ok h (ch_actor c) p w" using hub_invD(5) [OF inv assms(3,4)] by blast
  moreover have "distinct (map wr_id (sl_items l))" using hub_invD(2) [OF inv assms(4)] by (simp add: sl_inv_def)
  ultimately show ?thesis using run_callbacks_spec [OF inv _ _ rc] assms(5) run by auto
qed

theorem publish_delivers_witness:
  "\<exists>h h'. seqP exec [Open ''a'', Check 0 True, Get_list 0, Add 0, Open ''a''] hb_new = (Ret (), h) \<and>
     publish_change \<lparr>ch_actor = ''a'', ch_key = ''k'', ch_value = ''v'', ch_event = ''UPDATED''\<rparr> h = (Ret (), h') \<and>
     map (length \<circ> bq_items \<circ> st_inbound) (hb_streams h') = [1, 0]"
proof -
  let ?c = "\<lparr>ch_actor = ''a'', ch_key = ''k'', ch_value = ''v'', ch_event = ''UPDATED''\<rparr>"
  let ?es = "[Open ''a'', Check 0 True, Get_list 0, Add 0, Open ''a'']"
  let ?l = "snd (sl_add (Some (0 :: nat)) sl_new)"
  let ?s = "\<lparr>st_actor = ''a'', st_phase = Opened, st_inbound = bq_default, st_written = []\<rparr>"
  define h where "h = \<lparr>hb_map = [''a'' \<mapsto> 0], hb_lists = [0 \<mapsto> ?l], hb_fresh = 1,
    hb_streams = [?s\<lparr>st_phase := Streaming 0 1\<rparr>, ?s], hb_pubs = []\<rparr>"
  have run: "seqP exec ?es hb_new = (Ret (), h)" by (simp add: run_defs h_def)
  have h: "hb_map h (ch_actor ?c) = Some 0" "hb_lists h 0 = Some ?l" by (simp_all add: h_def)
  have l: "sl_items ?l = [\<lparr>wr_id = 1, wr_cb = Some 0\<rparr>]"
    by (simp add: sl_items_def sl_add_def sl_new_def Let_def)
  have len: "length (hb_streams h) = 2" by (simp add: h_def)
  have q: "st_inbound (hb_streams h ! j) = bq_default" if "j < 2" for j
    using that by (auto simp: h_def less_2_cases_iff)
  have room: "has_room (hb_streams h ! j)" if "Some j \<in> wr_cb ` set (sl_items ?l)" for j
    using that q [of j] unfolding l by (simp add: has_room_def)
  have "Suc (length ?es) < 2 ^ 64 - 1" by simp
  from publish_delivers [OF this run h room] obtain h' where
    p: "publish_change ?c h = (Ret (), h')" "length (hb_streams h') = 2"
    and items: "\<And>j. j < 2 \<Longrightarrow> bq_items (st_inbound (hb_streams h' ! j)) =
      bq_items (st_inbound (hb_streams h ! j)) @ (if Some j \<in> wr_cb ` set (sl_items ?l) then [?c] else [])"
    unfolding len by blast
  have "bq_items (st_inbound (hb_streams h' ! 0)) = [?c]" "bq_items (st_inbound (hb_streams h' ! 1)) = []"
    using items [of 0] items [of 1] q [of 0] q [of 1] unfolding l by simp_all
  moreover obtain s0 s1 where "hb_streams h' = [s0, s1]"
    using p(2) by (auto simp: numeral_2_eq_2 length_Suc_conv)
  ultimately have "map (length \<circ> bq_items \<circ> st_inbound) (hb_streams h') = [1, 0]" by simp
  with run p(1) show ?thesis by (intro exI [of _ h] exI [of _ h']) simp
qed


definition late_run :: "change \<Rightarrow> event list" where
  "late_run c = [Open (ch_actor c), Open (ch_actor c), Check 0 True, Get_list 0, Add 0, Check 1 True,
     Get_list 1, Pub_find c, Cancel 0, Remove 0, Return 0, Add 1, Cancel 1, Remove 1, Return 1]"

text \<open>A publisher that has been overtaken calls into freed memory: between its look-up of the list
  and its iteration, the list is dropped from the map, a client is added to it too late, and that
  client's call ends, which does not find the list any more and leaves its callback there. The
  callback's queue is gone when the publisher gets to it; up to this point all calls return.\<close>

theorem late_publish_uaf:
  "fst (seqP exec (late_run c) hb_new) = Ret () \<and>
   fst (seqP exec (late_run c @ [Pub_run 0]) hb_new) = Undef Use_after_free"
  by (simp add: late_run_def publish_find_def publish_run_def run_defs tsl_for_each_def sl_invoke_all_def
      deliver_def catchP_def)

section \<open>The service's lists against the store's\<close>

text \<open>The part of the hub that \<^verbatim>\<open>src/pubsub.h\<close> has as well.\<close>

definition hub_subs :: "hub \<Rightarrow> nat subsys" where
  "hub_subs h = \<lparr>su_map = hb_map h, su_lists = hb_lists h, su_fresh = hb_fresh h\<rparr>"

lemma hub_subs_upd [simp]: "hub_subs (set_phase i ph h) = hub_subs h"
  by (simp add: hub_subs_def set_phase_def)

lemma hub_subscribe:
  assumes "get_or_create_subs a h = (Ret q, h1)" and "subs_add q j h1 = (r, h2)"
  shows "su_subscribe a (Some j) (hub_subs h) = (r, hub_subs h2)"
  using assms
  by (cases "hb_map h a") (auto simp: get_or_create_subs_def subs_add_def su_subscribe_def su_create_def
      hub_subs_def Let_def split: option.splits prod.splits)

lemma hub_unsubscribe:
  assumes inv: "su_inv (hub_subs h)" and i: "i < length (hb_streams h)"
    and ph: "st_phase (hb_streams h ! i) = Closing p m" and map: "hb_map h (st_actor (hb_streams h ! i)) = Some p"
    and alone: "\<And>j. j < length (hb_streams h) \<Longrightarrow> holds p (st_phase (hb_streams h ! j)) \<Longrightarrow> j = i"
    and no_pub: "\<And>x. x \<in> set (hb_pubs h) \<Longrightarrow> snd x \<noteq> Some p"
  shows "\<exists>h'. seqP exec [Remove i, Return i] h = (Ret (), h') \<and>
    hub_subs h' = snd (su_unsubscribe (st_actor (hb_streams h ! i)) m (hub_subs h))"
proof -
  let ?a = "st_actor (hb_streams h ! i)"
  have "su_map (hub_subs h) ?a = Some p" using map by (simp add: hub_subs_def)
  from su_inv_mapD [OF inv this] obtain l where l: "hb_lists h p = Some l" "sl_inv l" "sl_items l \<noteq> []"
    by (metis hub_subs_def subsys.select_convs(2))
  obtain l' where rm: "sl_remove m l = (Ret (m \<in> wr_id ` set (sl_items l)), l')" "sl_inv l'"
    "sl_items l' = filter (\<lambda>w. wr_id w \<noteq> m) (sl_items l)" "sl_next_id l' = sl_next_id l"
    by (rule sl_remove_spec [OF l(2)])
  let ?h1 = "h\<lparr>hb_lists := (hb_lists h)(p \<mapsto> l')\<rparr>"
  show ?thesis
  proof (cases "sl_items l' = []")
    case False
    have "remove_callback ?a m h = (Ret (), ?h1)"
      using map l rm False sl_size_0 [OF rm(2)] by (simp add: remove_callback_def Let_def)
    then have "seqP exec [Remove i, Return i] h = (Ret (), set_phase i (Finished RPC_OK) (set_phase i (Leaving p) ?h1))"
      using i ph map by (simp add: at_phase_def bindP_def modify_def set_phase_def)
    moreover have "hub_subs ?h1 = snd (su_unsubscribe ?a m (hub_subs h))"
      using map l rm False sl_size_0 [OF rm(2)] by (simp add: su_unsubscribe_def hub_subs_def)
    ultimately show ?thesis by simp
  next
    case True
    let ?h2 = "?h1\<lparr>hb_map := (hb_map h)(?a := None)\<rparr>"
    have held: "held p ?h2"
      using i ph by (auto simp: held_def list_ex_length intro!: exI [of _ i])
    have "m \<in> wr_id ` set (sl_items l)" using True l(3) rm(3) by (cases "sl_items l") (auto simp: filter_empty_conv)
    then have su: "snd (su_unsubscribe ?a m (hub_subs h)) =
        \<lparr>su_map = (hb_map h)(?a := None), su_lists = (hb_lists h)(p := None), su_fresh = hb_fresh h\<rparr>"
      using map l rm True sl_size_0 [OF rm(2)] destroy_outcome [of "sl_callbacks l'"] rm(2) True
      by (simp add: su_unsubscribe_def hub_subs_def sl_inv_def sl_items_def)
    have rc: "remove_callback ?a m h = (Ret (), ?h2)"
      using map l rm True sl_size_0 [OF rm(2)] held by (simp add: remove_callback_def Let_def drop_list_def)
    let ?h3 = "set_phase i (Finished RPC_OK) (set_phase i (Leaving p) ?h2)"
    have "\<not> held p ?h3"
      using alone i no_pub by (auto simp: held_def list_ex_length list_ex_iff set_phase_def upd_stream_def nth_list_update)
    moreover have "hb_lists ?h3 p = Some l'" by (simp add: set_phase_def)
    moreover have "tsl_destroy (sl_callbacks l') = Ret ()"
      using destroy_outcome [of "sl_callbacks l'"] rm(2) True by (simp add: sl_inv_def sl_items_def)
    ultimately have "drop_list p ?h3 = (Ret (), ?h3\<lparr>hb_lists := (hb_lists ?h3)(p := None)\<rparr>)"
      by (simp add: drop_list_def)
    then have "seqP exec [Remove i, Return i] h = (Ret (), ?h3\<lparr>hb_lists := (hb_lists ?h3)(p := None)\<rparr>)"
      using i ph rc by (simp add: at_phase_def bindP_def modify_def set_phase_def)
    then show ?thesis using su by (simp add: hub_subs_def set_phase_def)
  qed
qed



end
