(* ===== verification/Server.thy ===== *)
theory Server
  imports Actor_Lifecycle Subscribe_Streams "HOL-Library.AList"
begin

text \<open>
  \<^verbatim>\<open>src/server.h\<close>, \<^verbatim>\<open>src/server.cpp\<close> and \<^verbatim>\<open>src/main.cpp\<close>: the gRPC service over the store, its own
  log, the lifecycle and the subscription streams of \<^verbatim>\<open>Subscribe_Streams\<close>, and the wiring of the
  server process. A handler is a program over the state of the service; requests arrive in any
  order on any thread (\<open>th\<close> below). Handlers return \<open>Status::OK\<close> with a response, so the response
  stands for both; \<open>Subscribe\<close> has the status in its stream. A handler is one step here; several calls of \<open>Set\<close> taken apart into their three steps are in
  \<^verbatim>\<open>Concurrent_Set\<close>, and what overtaking does to the publishing half is in \<^verbatim>\<open>Subscribe_Streams\<close>. The one file system is the
  component \<open>ms_fs\<close> of the store, on which the store's log and the service's log both work.
\<close>

section \<open>State\<close>

record 'cb service =
  sv_store :: "'cb mstore"
  sv_wal :: wal
  sv_worker :: worker
  sv_lc :: lifecycle
  sv_pool :: "job pool"
  sv_hub :: hub

type_synonym ('a, 'cb) sv_prog = "('a, 'cb service) prog"

definition on_store :: "('a, 'cb mstore) prog \<Rightarrow> ('a, 'cb) sv_prog" where
  "on_store = zoom sv_store (\<lambda>s v. v\<lparr>sv_store := s\<rparr>)"

definition on_wal :: "('a, wal \<times> fs) prog \<Rightarrow> ('a, 'cb) sv_prog" where
  "on_wal = zoom (\<lambda>v. (sv_wal v, ms_fs (sv_store v)))
     (\<lambda>(w, f) v. v\<lparr>sv_wal := w, sv_store := (sv_store v)\<lparr>ms_fs := f\<rparr>\<rparr>)"

definition on_lc :: "('a, 'cb) lc_prog \<Rightarrow> ('a, 'cb) sv_prog" where
  "on_lc = zoom (\<lambda>v. (sv_lc v, sv_store v)) (\<lambda>(l, s) v. v\<lparr>sv_lc := l, sv_store := s\<rparr>)"

definition on_hub :: "('a, hub) prog \<Rightarrow> ('a, 'cb) sv_prog" where
  "on_hub = zoom sv_hub (\<lambda>h v. v\<lparr>sv_hub := h\<rparr>)"

definition on_worker :: "('a, worker \<times> wal \<times> fs) prog \<Rightarrow> ('a, 'cb) sv_prog" where
  "on_worker = zoom (\<lambda>v. (sv_worker v, sv_wal v, ms_fs (sv_store v)))
     (\<lambda>(b, w, f) v. v\<lparr>sv_worker := b, sv_wal := w, sv_store := (sv_store v)\<lparr>ms_fs := f\<rparr>\<rparr>)"

section \<open>Construction\<close>

text \<open>
  \<open>Create\<close> makes what is not given: a store with default arguments (write-ahead, its own log and
  pool), a log and a worker with default arguments, a lifecycle over the store, a pool with
  \<open>cpus\<close> threads. \<open>f\<close> is the file system when the store is made here; otherwise the store has it.
\<close>

definition default_store :: "nat \<Rightarrow> fs \<Rightarrow> 'cb mstore outcome" where
  "default_store cpus f = (case wal_ctor wal_default_path wal_default_max f of
     (Ret _, w, f') \<Rightarrow> Ret (ms_new w f' (tp_new cpus) WriteAhead wb_default_size 0)
   | (r, _, _) \<Rightarrow> abort_of r)"

definition with_wal :: "wal option \<Rightarrow> 'cb mstore \<Rightarrow> (wal \<times> 'cb mstore) outcome" where
  "with_wal w s = (case w of
     Some w \<Rightarrow> Ret (w, s)
   | None \<Rightarrow> (case wal_ctor wal_default_path wal_default_max (ms_fs s) of
       (Ret _, w, f) \<Rightarrow> Ret (w, s\<lparr>ms_fs := f\<rparr>)
     | (r, _, _) \<Rightarrow> abort_of r))"

fun bindO :: "'a outcome \<Rightarrow> ('a \<Rightarrow> 'b outcome) \<Rightarrow> 'b outcome" where
  "bindO (Ret a) k = k a"
| "bindO r k = abort_of r"

definition sv_create :: "'cb mstore option \<Rightarrow> wal option \<Rightarrow> worker option \<Rightarrow> lifecycle option \<Rightarrow>
    job pool option \<Rightarrow> nat \<Rightarrow> fs \<Rightarrow> 'cb service outcome" where
  "sv_create memstore w wb lc pool cpus f =
     bindO (case memstore of Some s \<Rightarrow> Ret s | None \<Rightarrow> default_store cpus f) (\<lambda>s.
     bindO (with_wal w s) (\<lambda>(w1, s1).
       Ret \<lparr>sv_store = s1, sv_wal = w1,
         sv_worker = (case wb of Some b \<Rightarrow> b | None \<Rightarrow> wb_new wb_default_size),
         sv_lc = (case lc of Some l \<Rightarrow> l | None \<Rightarrow> lc_new True),
         sv_pool = (case pool of Some p \<Rightarrow> p | None \<Rightarrow> tp_new cpus), sv_hub = hb_new\<rparr>))"

section \<open>The unary calls\<close>

text \<open>The response of \<open>Get\<close>: the value (empty unless set) and \<open>found\<close>.\<close>

definition sv_get :: "actor_id \<Rightarrow> key \<Rightarrow> int \<Rightarrow> int \<Rightarrow> (val \<times> bool, 'cb) sv_prog" where
  "sv_get a k t1 t2 = bindP (on_store (ms_get a k t1 t2)) (\<lambda>v.
     ret (case v of Some x \<Rightarrow> (x, True) | None \<Rightarrow> ([], False)))"

text \<open>The response of \<open>Set\<close> is \<open>success\<close>; \<open>wt1\<close> and \<open>wt2\<close> are the time stamps of the two logs.\<close>

definition sv_set :: "actor_id \<Rightarrow> key \<Rightarrow> val \<Rightarrow> int \<Rightarrow> u64 \<Rightarrow> u64 \<Rightarrow> (bool, 'cb) sv_prog" where
  "sv_set a k v t wt1 wt2 = bindP (on_store (ms_set a k v None t wt1)) (\<lambda>success.
     if \<not> success then ret False
     else bindP (catchP (on_wal (wal_append a k v wt2)) (\<lambda>_. ret ())) (\<lambda>_.
       bindP (on_hub (publish_change \<lparr>ch_actor = a, ch_key = k, ch_value = v, ch_event = ''UPDATED''\<rparr>)) (\<lambda>_.
         ret True)))"

text \<open>\<open>success\<close> and \<open>error_message\<close>; \<open>initial_state\<close> is copied entry by entry.\<close>

definition sv_spawn :: "nat \<Rightarrow> actor_id \<Rightarrow> (key \<times> val) list \<Rightarrow> (nat \<Rightarrow> int \<times> u64) \<Rightarrow> (bool \<times> string, 'cb) sv_prog" where
  "sv_spawn th a init clock = bindP (on_lc (lc_spawn th a clock (AList.clearjunk (rev init)))) (\<lambda>success.
     ret (success, if success then [] else ''Failed to spawn actor''))"

definition sv_terminate :: "nat \<Rightarrow> actor_id \<Rightarrow> bool \<Rightarrow> (bool \<times> string, 'cb) sv_prog" where
  "sv_terminate th a force = bindP (on_lc (lc_terminate th a force)) (\<lambda>success.
     ret (success, if success then [] else ''Failed to terminate actor''))"

section \<open>\<open>Subscribe\<close>\<close>

text \<open>The check asks the lifecycle; every other step of a stream is one of \<^verbatim>\<open>Subscribe_Streams\<close>.\<close>

definition sv_check :: "nat \<Rightarrow> nat \<Rightarrow> (unit, 'cb) sv_prog" where
  "sv_check th i v = (if i < length (hb_streams (sv_hub v)) then
     bindP (on_lc (lc_is_active th (st_actor (hb_streams (sv_hub v) ! i)))) (\<lambda>active.
       on_hub (exec (Check i active))) v
   else (Blocked, v))"

datatype request =
    Get_request actor_id key int int
  | Set_request actor_id key val int u64 u64
  | Spawn_request nat actor_id "(key \<times> val) list" "nat \<Rightarrow> int \<times> u64"
  | Terminate_request nat actor_id bool
  | Subscribe_request actor_id
  | Stream_check nat nat
  | Stream_list nat
  | Stream_add nat
  | Stream_timeout nat
  | Stream_write nat bool
  | Stream_cancel nat
  | Stream_remove nat
  | Stream_return nat

text \<open>
  One request, or one step of a stream: a call that does not return (because it is blocked, or
  because of an exception or an undefined behaviour) leaves what it has done.
\<close>

fun sv_exec :: "request \<Rightarrow> 'cb service \<Rightarrow> 'cb service" where
  "sv_exec (Get_request a k t1 t2) v = snd (sv_get a k t1 t2 v)"
| "sv_exec (Set_request a k x t wt1 wt2) v = snd (sv_set a k x t wt1 wt2 v)"
| "sv_exec (Spawn_request th a init clock) v = snd (sv_spawn th a init clock v)"
| "sv_exec (Terminate_request th a force) v = snd (sv_terminate th a force v)"
| "sv_exec (Subscribe_request a) v = snd (on_hub (exec (Open a)) v)"
| "sv_exec (Stream_check th i) v = snd (sv_check th i v)"
| "sv_exec (Stream_list i) v = snd (on_hub (exec (Get_list i)) v)"
| "sv_exec (Stream_add i) v = snd (on_hub (exec (Add i)) v)"
| "sv_exec (Stream_timeout i) v = snd (on_hub (exec (Timeout i)) v)"
| "sv_exec (Stream_write i ok) v = snd (on_hub (exec (Write i ok)) v)"
| "sv_exec (Stream_cancel i) v = snd (on_hub (exec (Cancel i)) v)"
| "sv_exec (Stream_remove i) v = snd (on_hub (exec (Remove i)) v)"
| "sv_exec (Stream_return i) v = snd (on_hub (exec (Return i)) v)"

section \<open>The server process\<close>

text \<open>
  \<open>main\<close>: the store with default arguments, a log of its own in \<^verbatim>\<open>custom.wal\<close>, and the worker,
  lifecycle and pool given to \<open>Create\<close>. The worker is started after the server; at shutdown the
  worker and the pool are stopped.
\<close>

definition main_service :: "nat \<Rightarrow> fs \<Rightarrow> 'cb service outcome" where
  "main_service cpus f = bindO (default_store cpus f) (\<lambda>s.
     (case wal_ctor ''custom.wal'' wal_default_max (ms_fs s) of
        (Ret _, w, f1) \<Rightarrow> sv_create (Some (s\<lparr>ms_fs := f1\<rparr>)) (Some w) (Some (wb_new wb_default_size))
          (Some (lc_new True)) (Some (tp_new 4)) cpus f1
      | (r, _, _) \<Rightarrow> abort_of r))"

definition main_start_worker :: "int \<Rightarrow> 'cb service \<Rightarrow> 'cb service" where
  "main_start_worker t v = v\<lparr>sv_worker := wb_start t (sv_worker v)\<rparr>"

definition main_shutdown :: "((nat \<Rightarrow> u64) \<times> int \<times> int) option \<Rightarrow> (nat \<Rightarrow> u64) \<Rightarrow> (unit, 'cb) sv_prog" where
  "main_shutdown it now = bindP (on_worker (wb_stop it now)) (\<lambda>_.
     modify (\<lambda>v. v\<lparr>sv_pool := tp_stop (sv_pool v)\<rparr>))"

text \<open>
  The whole of \<open>main\<close>. The gRPC server is given: \<open>accept\<close> and \<open>serve\<close> are what it does to the service
  between \<open>BuildAndStart\<close> and the start of the worker and from then to the return of \<open>Wait\<close>. \<open>BuildAndStart\<close> returns
  a null pointer when it cannot listen on the address, which \<open>main\<close> does not test before it calls \<open>Wait\<close>.
\<close>

definition main_address :: "string list \<Rightarrow> string" where
  "main_address argv = (if 1 < length argv then argv ! 1 else ''0.0.0.0:50051'')"

definition main_program :: "(string \<Rightarrow> bool) \<Rightarrow> (string \<Rightarrow> 'cb service \<Rightarrow> 'cb service) \<Rightarrow> (string \<Rightarrow> 'cb service \<Rightarrow> 'cb service) \<Rightarrow>
    string list \<Rightarrow> nat \<Rightarrow> fs \<Rightarrow> int \<Rightarrow> ((nat \<Rightarrow> u64) \<times> int \<times> int) option \<Rightarrow> (nat \<Rightarrow> u64) \<Rightarrow>
    (int \<times> 'cb service) outcome" where
  "main_program listens accept serve argv cpus f t it now = bindO (main_service cpus f) (\<lambda>v.
     if \<not> listens (main_address argv) then Undef Null_deref
     else (case main_shutdown it now (serve (main_address argv) (main_start_worker t (accept (main_address argv) v))) of
        (Ret _, v') \<Rightarrow> Ret (0, v')
      | (r, _) \<Rightarrow> abort_of r))"

lemmas sv_lift_defs = on_store_def on_wal_def on_lc_def on_hub_def on_worker_def zoom_def

section \<open>What the requests keep\<close>

text \<open>With no active actor, spawning does not get past the existence check, and writes nothing.\<close>

lemma spawn_none_store:
  assumes "lc_active l = []"
  shows "\<exists>r l'. lc_spawn th a clock init (l, s) = (r, l', s) \<and> lc_active l' = []"
proof (cases "lc_validate a \<and> lc_owner l = None")
  case True
  with assms spawn_relocks [of a l th clock init s] show ?thesis by simp
next
  case False
  with assms show ?thesis by (auto simp: lc_spawn_def ret_def lc_locked_def)
qed

lemma terminate_none_store:
  assumes "lc_active l = []"
  shows "\<exists>r l'. lc_terminate th a force (l, s) = (r, l', s) \<and> lc_active l' = [] \<and> r \<noteq> Ret True"
  using assms by (auto simp: lc_terminate_def lc_locked_def bindP_def gets_def ret_def split: option.splits)

lemma is_active_none_store:
  assumes "lc_active l = []"
  shows "\<exists>r l'. lc_is_active th a (l, s) = (r, l', s) \<and> lc_active l' = [] \<and> r \<noteq> Ret True"
  using assms by (auto simp: lc_is_active_def lc_locked_def gets_def split: option.splits)

text \<open>No stream gets past the check, no list is created, and no entry of the store expires.\<close>

definition unserved :: "phase \<Rightarrow> bool" where
  "unserved ph \<longleftrightarrow> ph = Opened \<or> ph = Finished (Not_found ''Actor not found or inactive'')"

definition hub_idle :: "hub \<Rightarrow> bool" where
  "hub_idle h \<longleftrightarrow> hb_map h = Map.empty \<and> (\<forall>s \<in> set (hb_streams h). unserved (st_phase s))"

definition never_expires :: "'cb mstore \<Rightarrow> bool" where
  "never_expires s \<longleftrightarrow> (\<forall>a k e. ms_find a k s = Some e \<longrightarrow> m_expires e = None)"

definition sv_inv :: "'cb service \<Rightarrow> bool" where
  "sv_inv v \<longleftrightarrow> lc_active (sv_lc v) = [] \<and> hub_idle (sv_hub v) \<and> never_expires (sv_store v)"

lemma publish_idle [simp]: "hub_idle h \<Longrightarrow> publish_change c h = (Ret (), h)"
  by (simp add: hub_idle_def publish_defs)

lemma set_never_expires:
  assumes "never_expires s" and "ms_set a k v None t wt s = (r, s')"
  shows "never_expires s'"
  using assms(1) by (auto simp: never_expires_def ms_find_set [OF assms(2)] ms_entry_def meta_default_def
      split: option.splits if_splits)

lemma never_expires_fs [simp]: "never_expires (s\<lparr>ms_fs := f\<rparr>) = never_expires s"
  by (simp add: never_expires_def ms_find_def)

lemma ms_values_fs [simp]: "ms_values (s\<lparr>ms_fs := f\<rparr>) = ms_values s"
  by (simp add: ms_values_def ms_find_def fun_eq_iff)

lemma idle_upd:
  assumes "hub_idle h" and "unserved (st_phase (f (hb_streams h ! i)))"
  shows "hub_idle (upd_stream i f h)"
  using assms by (auto simp: hub_idle_def upd_stream_def dest!: set_update_subset_insert [THEN subsetD])

lemma idle_phase:
  assumes "hub_idle h" and "i < length (hb_streams h)"
  shows "unserved (st_phase (hb_streams h ! i))"
  using assms by (auto simp: hub_idle_def)

text \<open>A stream that has not got past the check has no step but the check.\<close>

lemma idle_blocked:
  assumes "hub_idle h" and "e \<in> {Get_list i, Add i, Timeout i, Write i b, Cancel i, Remove i, Return i}"
  shows "exec e h = (Blocked, h)"
  using assms(2) idle_phase [OF assms(1), of i] by (auto simp: at_phase_def unserved_def)

lemma idle_check:
  assumes "hub_idle h"
  shows "hub_idle (snd (exec (Check i False) h))"
  using idle_phase [OF assms, of i] assms
  by (auto simp: at_phase_def unserved_def modify_def set_phase_def intro!: idle_upd)

text \<open>The values in the store, last written.\<close>

fun write_of :: "request \<Rightarrow> (actor_id \<times> key \<rightharpoonup> val) \<Rightarrow> actor_id \<times> key \<rightharpoonup> val" where
  "write_of (Set_request a k x t wt1 wt2) m = m((a, k) \<mapsto> x)"
| "write_of _ m = m"

text \<open>\<open>sv_set\<close> from the point of view of the parts it does not fail on.\<close>

lemma sv_set_parts:
  assumes inv: "sv_inv v" and run: "sv_set a k x t wt1 wt2 v = (r, v')"
  shows "sv_inv v' \<and> ms_values (sv_store v') = (ms_values (sv_store v))((a, k) \<mapsto> x) \<and>
    sv_worker v' = sv_worker v \<and> sv_pool v' = sv_pool v \<and> sv_lc v' = sv_lc v \<and> sv_hub v' = sv_hub v"
proof -
  obtain r1 s1 where set: "ms_set a k x None t wt1 (sv_store v) = (r1, s1)" by (rule prod.exhaust)
  have vals: "ms_values s1 = (ms_values (sv_store v))((a, k) \<mapsto> x)"
    using ms_kv.look_put [of "(a, k, x, None, t, wt1)" "sv_store v"] set
    by (simp add: ms_set_call_snd del: ms_set_call.simps)
  have exp: "never_expires s1" using inv set_never_expires [OF _ set] by (simp add: sv_inv_def)
  let ?v1 = "v\<lparr>sv_store := s1\<rparr>"
  obtain r2 w f where app: "wal_append a k x wt2 (sv_wal v, ms_fs s1) = (r2, w, f)" by (metis prod_cases3)
  let ?v2 = "v\<lparr>sv_store := s1\<lparr>ms_fs := f\<rparr>, sv_wal := w\<rparr>"
  have "v' = ?v1 \<or> v' = ?v2"
    using run set app inv
    by (cases r1; cases r2) (auto simp: sv_set_def sv_lift_defs bindP_def catchP_def ret_def sv_inv_def split: if_splits)
  then show ?thesis using inv exp vals by (auto simp: sv_inv_def)
qed

lemma sv_exec_keeps:
  assumes inv: "sv_inv v"
  shows "sv_inv (sv_exec q v) \<and> ms_values (sv_store (sv_exec q v)) = write_of q (ms_values (sv_store v)) \<and>
    sv_worker (sv_exec q v) = sv_worker v \<and> sv_pool (sv_exec q v) = sv_pool v"
proof (cases q)
  case (Set_request a k x t wt1 wt2)
  obtain r v' where "sv_set a k x t wt1 wt2 v = (r, v')" by (rule prod.exhaust)
  with Set_request sv_set_parts [OF inv this] show ?thesis by simp
next
  case (Get_request a k t1 t2)
  have "never_expires (snd (ms_get a k t1 t2 (sv_store v)))"
    using inv by (auto simp: sv_inv_def never_expires_def ms_get_def split: option.splits)
  then show ?thesis using Get_request inv ms_values_get [of a k t1 t2 "sv_store v"]
    by (auto simp: sv_get_def sv_lift_defs bindP_def ret_def sv_inv_def split: prod.splits outcome.splits)
next
  case (Spawn_request th a init clock)
  from inv have "lc_active (sv_lc v) = []" by (simp add: sv_inv_def)
  from spawn_none_store [OF this, of th a clock "AList.clearjunk (rev init)" "sv_store v"] Spawn_request inv
  show ?thesis by (auto simp: sv_spawn_def sv_lift_defs bindP_def ret_def sv_inv_def split: outcome.splits)
next
  case (Terminate_request th a force)
  from inv have "lc_active (sv_lc v) = []" by (simp add: sv_inv_def)
  from terminate_none_store [OF this, of th a force "sv_store v"] Terminate_request inv
  show ?thesis by (auto simp: sv_terminate_def sv_lift_defs bindP_def ret_def sv_inv_def split: outcome.splits)
next
  case (Subscribe_request a)
  with inv show ?thesis by (auto simp: sv_lift_defs sv_inv_def hub_idle_def unserved_def)
next
  case (Stream_check th i)
  from inv have none: "lc_active (sv_lc v) = []" by (simp add: sv_inv_def)
  obtain r l' where act: "lc_is_active th (st_actor (hb_streams (sv_hub v) ! i)) (sv_lc v, sv_store v) = (r, l', sv_store v)"
    "lc_active l' = []" "r \<noteq> Ret True" using is_active_none_store [OF none] by blast
  have "hub_idle (snd (exec (Check i False) (sv_hub v)))" using inv idle_check by (simp add: sv_inv_def)
  with Stream_check act inv show ?thesis
    by (cases r) (auto simp: sv_check_def sv_lift_defs bindP_def sv_inv_def simp del: exec.simps split: prod.splits)
qed (use inv idle_blocked in \<open>auto simp: sv_lift_defs sv_inv_def simp del: exec.simps\<close>)

lemma sv_run_keeps:
  assumes "sv_inv v"
  shows "sv_inv (fold sv_exec qs v) \<and>
    ms_values (sv_store (fold sv_exec qs v)) = fold write_of qs (ms_values (sv_store v)) \<and>
    sv_worker (fold sv_exec qs v) = sv_worker v \<and> sv_pool (fold sv_exec qs v) = sv_pool v"
  using assms
proof (induction qs arbitrary: v)
  case (Cons q qs)
  from sv_exec_keeps [OF Cons.prems, of q] Cons.IH [of "sv_exec q v"] show ?case by simp
qed simp

section \<open>The service that main builds\<close>

lemma default_store_new:
  assumes "default_store cpus f = Ret s"
  shows "ms_values s = Map.empty \<and> never_expires s \<and> ms_mode s = WriteAhead \<and> ms_pool s = tp_new cpus"
  using assms
  by (auto simp: default_store_def ms_new_def ms_values_def never_expires_def ms_find_def fun_eq_iff
      split: prod.splits outcome.splits)

lemma bindO_Ret: "bindO r k = Ret b \<longleftrightarrow> (\<exists>a. r = Ret a \<and> k a = Ret b)"
  by (cases r) auto

lemma main_service_new:
  assumes "main_service cpus f = Ret v"
  shows "sv_inv v \<and> ms_values (sv_store v) = Map.empty \<and> sv_worker v = wb_new wb_default_size \<and>
    sv_pool v = tp_new 4 \<and> hb_streams (sv_hub v) = []"
proof -
  from assms obtain s where s: "default_store cpus f = Ret s"
    and rest: "(case wal_ctor ''custom.wal'' wal_default_max (ms_fs s) of
        (Ret _, w, f1) \<Rightarrow> sv_create (Some (s\<lparr>ms_fs := f1\<rparr>)) (Some w) (Some (wb_new wb_default_size))
          (Some (lc_new True)) (Some (tp_new 4)) cpus f1
      | (r, _, _) \<Rightarrow> abort_of r) = Ret v"
    by (auto simp: main_service_def bindO_Ret)
  obtain r w f1 where "wal_ctor ''custom.wal'' wal_default_max (ms_fs s) = (r, w, f1)" by (metis prod_cases3)
  with rest default_store_new [OF s] show ?thesis
    by (cases r) (auto simp: sv_create_def with_wal_def sv_inv_def lc_new_def hub_idle_def hb_new_def)
qed

lemma main_run:
  assumes "main_service cpus f = Ret v0"
  shows "sv_inv (fold sv_exec qs v0) \<and>
    ms_values (sv_store (fold sv_exec qs v0)) = fold write_of qs Map.empty \<and>
    sv_worker (fold sv_exec qs v0) = wb_new wb_default_size"
  using main_service_new [OF assms] sv_run_keeps [of v0 qs] by auto

lemma get_unexpired:
  assumes "never_expires s"
  shows "fst (ms_get a k t1 t2 s) = Ret (ms_values s (a, k))"
  using assms by (auto simp: ms_get_result ms_values_def never_expires_def ms_expired_def split: option.splits)

lemma sv_get_value:
  assumes "sv_inv v"
  shows "fst (sv_get a k t1 t2 v) = Ret (case ms_values (sv_store v) (a, k) of Some x \<Rightarrow> (x, True) | None \<Rightarrow> ([], False))"
  using assms get_unexpired [of "sv_store v" a k t1 t2]
  by (auto simp: sv_get_def sv_lift_defs bindP_def ret_def sv_inv_def split: prod.splits option.splits)

text \<open>A file system with no log files yet, for the witnesses.\<close>

definition empty_fs :: fs where
  "empty_fs = \<lparr>fs_names = Map.empty, fs_data = (\<lambda>_. []), fs_next = 0, fs_can_open = (\<lambda>_. True)\<rparr>"

lemma empty_fs_main: "\<exists>v. main_service 2 empty_fs = Ret v"
  by (auto simp: main_service_def default_store_def empty_fs_def wal_ctor_def open_log_def stream_open_app_def
      fs_create_def sv_create_def with_wal_def ms_new_def wal_default_path_def)

text \<open>C14: The service is a last-writer-wins register per actor and key: after any history of
  requests to the service that \<open>main\<close> builds, from any threads, \<open>Get\<close> returns the value of the
  last \<open>Set\<close> of that actor and key, whether that \<open>Set\<close> returned or not, and \<open>found\<close> is false
  exactly when there was none. In particular a restarted server has forgotten everything: \<open>main\<close>
  replays no log, whatever the files on disk hold.\<close>

theorem sv_last_write_wins:
  assumes "main_service cpus f = Ret v0"
  shows "fst (sv_get a k t1 t2 (fold sv_exec qs v0)) =
    Ret (case fold write_of qs Map.empty (a, k) of Some x \<Rightarrow> (x, True) | None \<Rightarrow> ([], False))"
  using main_run [OF assms, of qs] sv_get_value [of "fold sv_exec qs v0"] by simp

theorem sv_last_write_wins_witness:
  "\<exists>v :: string service. main_service 2 empty_fs = Ret v \<and>
     fst (sv_get ''a'' ''k'' 3 3 (fold sv_exec [Set_request ''a'' ''k'' ''1'' 0 0 0,
       Spawn_request 1 ''b'' [] (\<lambda>_. (0, 0)), Set_request ''a'' ''k'' ''2'' 1 1 1] v)) = Ret (''2'', True)"
proof -
  obtain v :: "string service" where v: "main_service 2 empty_fs = Ret v" using empty_fs_main by blast
  from sv_last_write_wins [OF v, of "''a''" "''k''" 3 3 "[Set_request ''a'' ''k'' ''1'' 0 0 0,
       Spawn_request 1 ''b'' [] (\<lambda>_. (0, 0)), Set_request ''a'' ''k'' ''2'' 1 1 1]"] v
  show ?thesis by (simp del: sv_exec.simps)
qed

text \<open>C29: \<open>Subscribe\<close> never serves a client: after any history of requests to the service that
  \<open>main\<close> builds, no actor is active, no subscription list has ever been created, and every
  \<open>Subscribe\<close> call is still waiting for the check or has returned NOT_FOUND; so no change that
  is published reaches anyone.\<close>

theorem sv_subscribe_refused:
  assumes "main_service cpus f = Ret v0" and "v = fold sv_exec qs v0"
  shows "lc_active (sv_lc v) = [] \<and> hb_map (sv_hub v) = Map.empty \<and>
    list_all (\<lambda>s. st_phase s = Opened \<or> st_phase s = Finished (Not_found ''Actor not found or inactive''))
      (hb_streams (sv_hub v)) \<and> publish_change c (sv_hub v) = (Ret (), sv_hub v)"
  using main_run [OF assms(1), of qs] assms(2) by (auto simp: sv_inv_def hub_idle_def list_all_iff unserved_def)

theorem sv_subscribe_refused_witness:
  "\<exists>v :: string service. main_service 2 empty_fs = Ret v \<and>
     lc_active (sv_lc (fold sv_exec [Subscribe_request ''a'', Spawn_request 1 ''a'' [] (\<lambda>_. (0, 0)),
       Stream_check 2 0, Stream_list 0] v)) = []"
proof -
  obtain v :: "string service" where v: "main_service 2 empty_fs = Ret v" using empty_fs_main by blast
  from sv_subscribe_refused [OF v refl, of "[Subscribe_request ''a'', Spawn_request 1 ''a'' [] (\<lambda>_. (0, 0)),
       Stream_check 2 0, Stream_list 0]"] v
  show ?thesis by (intro exI [of _ v]) blast
qed

lemma idle_worker_stop:
  assumes "bq_items (wb_queue b) = []" and "\<not> bq_stopped (wb_queue b)" and "wb_batch b = []" and "\<not> wb_held b"
  shows "\<exists>b'. wb_stop it now (b, ws) = (Ret (), b', ws)"
  using assms
  by (cases it) (auto simp: wb_stop_def wb_join_def wb_iterate_def wb_timed_flush_def wb_process_batch_def
      bq_wait_pop_def bindP_def modify_def ret_def catchP_def)

lemma start_worker_keeps:
  "sv_inv (main_start_worker t v) = sv_inv v" "sv_store (main_start_worker t v) = sv_store v"
  by (simp_all add: main_start_worker_def sv_inv_def)

lemma shutdown_idle:
  assumes "sv_worker v = wb_start t (wb_new wb_default_size)"
  shows "\<exists>v'. main_shutdown it now v = (Ret (), v') \<and> sv_store v' = sv_store v \<and> sv_wal v' = sv_wal v \<and> tp_done (sv_pool v')"
proof -
  let ?b = "wb_start t (wb_new wb_default_size)"
  have "bq_items (wb_queue ?b) = []" "\<not> bq_stopped (wb_queue ?b)" "wb_batch ?b = []" "\<not> wb_held ?b"
    by (simp_all add: wb_start_def wb_new_def)
  from idle_worker_stop [OF this] obtain b' where
    "wb_stop it now (?b, sv_wal v, ms_fs (sv_store v)) = (Ret (), b', sv_wal v, ms_fs (sv_store v))" by blast
  with assms show ?thesis
    by (simp add: main_shutdown_def sv_lift_defs bindP_def modify_def tp_stop_def)
qed



section \<open>The logs behind \<open>Set\<close>\<close>

text \<open>An append below the size limit, written out.\<close>

lemma append_below_limit:
  assumes "wal_ok w f i" and "fs_content (w_path w) f = Some s" and "w_handler w = None"
    and "length (s @ wal_line (next_entry w a k v now) @ [newline]) < w_max w"
  shows "wal_append a k v now (w, f) =
    (Ret (), w\<lparr>w_seq := w_seq w + 1\<rparr>, fs_write i (wal_line (next_entry w a k v now) @ [newline]) f)"
  using assms
  by (auto simp: wal_append_def wal_write_def wal_ok_def next_entry_def Let_def fs_content_def fs_size_def
      fs_write_def zoom_def bindP_def ret_def wal_notify_handler_def)

lemma write_keeps_ok:
  assumes "wal_ok w f i" and "fs_content (w_path w) f = Some s"
  shows "wal_ok w (fs_write i t f) i" and "fs_content (w_path w) (fs_write i t f) = Some (s @ t)"
  using assms by (auto simp: wal_ok_def fs_content_def fs_write_def)

text \<open>\<open>Set\<close> when the service's log fails, and when it does not.\<close>

lemma sv_set_run:
  assumes "ms_set a k x None t wt1 (sv_store v) = (Ret True, s1)"
    and "wal_append a k x wt2 (sv_wal v, ms_fs s1) = (r, w, f)" and "returns r \<or> (\<exists>e. r = Throw e)"
    and "hub_idle (sv_hub v)"
  shows "sv_set a k x t wt1 wt2 v = (Ret True, v\<lparr>sv_store := s1\<lparr>ms_fs := f\<rparr>, sv_wal := w\<rparr>)"
  using assms by (cases r) (simp_all add: sv_set_def sv_lift_defs bindP_def catchP_def ret_def)

text \<open>\<open>Set\<close> acknowledges what it has not logged: when the store has accepted the value and the
  append to the service's log throws, \<open>Set\<close> still reports success.\<close>

theorem sv_set_hides_log_failure:
  assumes "sv_inv v" and "ms_set a k x None t wt1 (sv_store v) = (Ret True, s1)"
    and "wal_append a k x wt2 (sv_wal v, ms_fs s1) = (Throw e, w, f)"
  shows "fst (sv_set a k x t wt1 wt2 v) = Ret True"
  using sv_set_run [OF assms(2,3)] assms(1) by (simp add: sv_inv_def)

theorem sv_set_hides_log_failure_witness:
  "fst (sv_set ''a'' ''k'' ''v'' 0 0 0 \<lparr>sv_store = ex_store WriteAhead, sv_wal = ex_wal\<lparr>w_path := ''m''\<rparr>,
     sv_worker = wb_new 100, sv_lc = lc_new True, sv_pool = tp_new 4, sv_hub = hb_new\<rparr>) = Ret True"
proof -
  let ?v = "\<lparr>sv_store = ex_store WriteAhead, sv_wal = ex_wal\<lparr>w_path := ''m''\<rparr>,
     sv_worker = wb_new 100, sv_lc = lc_new True, sv_pool = tp_new 4, sv_hub = hb_new\<rparr>"
  note p = ex_store_props [of WriteAhead]
  have wal: "wal_rel (ms_wal (ex_store WriteAhead)) (ms_fs (ex_store WriteAhead)) ([], None)"
    "handler_total (ms_wal (ex_store WriteAhead))" unfolding p by (rule ex_wal_props)+
  from ms_set_good [OF p(1) wal p(5), of "''a''" "''k''" "''v''" None 0 0] obtain s1 where
    set: "ms_set ''a'' ''k'' ''v'' None 0 0 (sv_store ?v) = (Ret True, s1)" by auto
  let ?app = "wal_append ''a'' ''k'' ''v'' 0 (ms_wal (ex_store WriteAhead), ms_fs (ex_store WriteAhead))"
  have app: "?app = (Ret (), ms_wal s1, ms_fs s1)"
    using ms_set_write_ahead [OF p(1) wal, of "''a''" "''k''" "''v''" None 0 0 "Ret True" s1] set by simp
  have "fs_names (snd (snd ?app)) ''m'' = None"
    by (simp add: p ex_wal_def ex_fs_def wal_append_def wal_write_def Let_def prog_simps fs_size_def
        fs_content_def fs_write_def wal_notify_handler_def wal_line_def show_u64_def show_nat_small)
  then have "fs_names (ms_fs s1) ''m'' = None" by (simp add: app)
  then obtain w f where "wal_append ''a'' ''k'' ''v'' 0 (sv_wal ?v, ms_fs s1) = (Throw (Filesystem_error ''m''), w, f)"
    by (auto simp: ex_wal_def wal_append_def wal_write_def Let_def prog_simps fs_size_def fs_content_def fs_write_def)
  moreover have "sv_inv ?v"
    by (simp add: sv_inv_def lc_new_def hub_idle_def hb_new_def never_expires_def ex_store_def ms_new_def ms_find_def)
  ultimately show ?thesis using sv_set_hides_log_failure [OF _ set] by blast
qed

lemma shared_set:
  assumes ok: "wal_ok w0 (ms_fs s) i" "wal_ok w1 (ms_fs s) i" "w_path w1 = w_path w0"
    and none: "w_handler w0 = None" "w_handler w1 = None"
    and c: "fs_content (w_path w0) (ms_fs s) = Some c"
    and store: "ms_wal s = w0" "ms_mode s = WriteAhead" "tp_ready (ms_pool s)"
    and v: "sv_store v = s" "sv_wal v = w1" "hub_idle (sv_hub v)"
    and e: "e0 = next_entry w0 a k x wt1" "e1 = next_entry w1 a k x wt2"
    and small: "length (c @ log_text [e0, e1]) < w_max w0" "w_max w1 = w_max w0"
  shows "\<exists>v'. sv_set a k x t wt1 wt2 v = (Ret True, v') \<and>
    fs_content (w_path w0) (ms_fs (sv_store v')) = Some (c @ log_text [e0, e1])"
proof -
  let ?t0 = "wal_line e0 @ [newline]" and ?t1 = "wal_line e1 @ [newline]"
  let ?f0 = "fs_write i ?t0 (ms_fs s)"
  have two: "log_text [e0, e1] = ?t0 @ ?t1" by (simp add: log_text_def)
  have len: "length (c @ ?t0 @ ?t1) < w_max w0" using small(1) unfolding two .
  have app0: "wal_append a k x wt1 (w0, ms_fs s) = (Ret (), w0\<lparr>w_seq := w_seq w0 + 1\<rparr>, ?f0)"
    unfolding e by (rule append_below_limit [OF ok(1) c none(1)]) (use len in \<open>simp add: e\<close>)
  let ?s1 = "(ms_set_entry a k x None t s)\<lparr>ms_wal := w0\<lparr>w_seq := w_seq w0 + 1\<rparr>, ms_fs := ?f0\<rparr>"
  have l: "ms_log a k x wt1 (ms_set_entry a k x None t s) = (Ret (), ?s1)"
    using app0 store by (simp add: ms_log_def ms_wal_append_def zoom_def ms_set_entry_def Let_def)
  have "tp_ready (ms_pool ?s1)" using store(3) by (simp add: ms_set_entry_def Let_def)
  from ms_notify_ready [OF this, of a k x] obtain p where
    "ms_notify_subscribers a k x ?s1 = (Ret (), ?s1\<lparr>ms_pool := p\<rparr>)" by blast
  with l have set: "ms_set a k x None t wt1 (sv_store v) = (Ret True, ?s1\<lparr>ms_pool := p\<rparr>)"
    by (simp add: v ms_set_publish ms_publish_def ret_def)
  note ok1 = write_keeps_ok [OF ok(2), of c ?t0] c ok(3)
  have c1: "fs_content (w_path w1) ?f0 = Some (c @ ?t0)" and w1: "wal_ok w1 ?f0 i" using ok1 by simp_all
  have app1: "wal_append a k x wt2 (w1, ?f0) = (Ret (), w1\<lparr>w_seq := w_seq w1 + 1\<rparr>, fs_write i ?t1 ?f0)"
    unfolding e(2) by (rule append_below_limit [OF w1 c1 none(2)]) (use len small(2) in \<open>simp add: e(2)\<close>)
  have "fs_content (w_path w0) (fs_write i ?t1 ?f0) = Some (c @ log_text [e0, e1])"
    using write_keeps_ok(2) [OF w1 c1, of ?t1] ok(3) by (simp add: two)
  with sv_set_run [OF set, of wt2] app1 v show ?thesis by simp
qed

text \<open>Two log objects that the defaults of \<open>Create\<close> open on the same new file.\<close>

lemma create_defaults:
  assumes "sv_create None None wb lc pool cpus f = Ret v" and "fs_names f wal_default_path = None"
    and "fs_can_open f wal_default_path" and "fs_wf f"
  shows "\<exists>w. wal_ok w (ms_fs (sv_store v)) (fs_next f) \<and> w_path w = wal_default_path \<and> w_handler w = None \<and>
    w_seq w = 0 \<and> w_max w = wal_default_max \<and> ms_wal (sv_store v) = w \<and> sv_wal v = w \<and>
    fs_content wal_default_path (ms_fs (sv_store v)) = Some [] \<and> ms_mode (sv_store v) = WriteAhead \<and>
    tp_ready (ms_pool (sv_store v)) \<and> sv_hub v = hb_new"
proof -
  let ?w = "\<lparr>w_path = wal_default_path, w_file = \<lparr>of_open = Some (fs_next f), of_fail = False\<rparr>,
    w_max = wal_default_max, w_seq = 0, w_handler = None, w_calls = []\<rparr>"
  have c0: "wal_ctor wal_default_path wal_default_max f = (Ret (), ?w, fs_create wal_default_path f)"
    using assms(2,3) by (simp add: wal_ctor_def open_log_def stream_open_app_def)
  have c1: "wal_ctor wal_default_path wal_default_max (fs_create wal_default_path f) =
      (Ret (), ?w, fs_create wal_default_path f)"
    using assms(3) by (simp add: wal_ctor_def open_log_def stream_open_app_def fs_create_def)
  have ok: "wal_ok ?w (fs_create wal_default_path f) (fs_next f)"
    using assms(3,4) by (auto simp: wal_ok_def fs_create_def fs_wf_def intro: less_SucI)
  have "fs_content wal_default_path (fs_create wal_default_path f) = Some []"
    by (simp add: fs_content_def fs_create_def)
  then show ?thesis using assms(1) c0 c1 ok
    by (auto simp: sv_create_def default_store_def with_wal_def ms_new_def tp_ready_def tp_new_def)
qed

text \<open>With the defaults of \<open>Create\<close> every \<open>Set\<close> is logged twice in the same file: the store and
  the service each open \<^verbatim>\<open>wal.log\<close> and number their own entries, so the first \<open>Set\<close> leaves two
  entries with the sequence number 1, and a replay sees the write twice.\<close>

theorem create_shares_log:
  assumes "sv_create None None wb lc pool cpus f = Ret v" and "fs_names f wal_default_path = None"
    and "fs_can_open f wal_default_path" and "fs_wf f"
    and "es = [\<lparr>e_seq = 1, e_actor = a, e_key = k, e_value = x, e_ts = wt1\<rparr>,
      \<lparr>e_seq = 1, e_actor = a, e_key = k, e_value = x, e_ts = wt2\<rparr>]"
    and "length (log_text es) < wal_default_max"
  shows "\<exists>v'. sv_set a k x t wt1 wt2 v = (Ret True, v') \<and>
    fs_content wal_default_path (ms_fs (sv_store v')) = Some (log_text es)"
proof -
  from create_defaults [OF assms(1-4)] obtain w where w: "wal_ok w (ms_fs (sv_store v)) (fs_next f)"
    "w_path w = wal_default_path" "w_handler w = None" "w_seq w = 0" "w_max w = wal_default_max"
    "ms_wal (sv_store v) = w" "sv_wal v = w" "fs_content (w_path w) (ms_fs (sv_store v)) = Some []"
    "ms_mode (sv_store v) = WriteAhead" "tp_ready (ms_pool (sv_store v))" "sv_hub v = hb_new" by auto
  have es: "es = [next_entry w a k x wt1, next_entry w a k x wt2]" using assms(5) w(4) by (simp add: next_entry_def)
  have "hub_idle (sv_hub v)" using w(11) by (simp add: hub_idle_def hb_new_def)
  from shared_set [OF w(1,1) refl w(3,3,8,6,9,10) refl w(7) this refl refl] assms(6) es w(2,5) show ?thesis by simp
qed

theorem create_shares_log_witness:
  "\<exists>(v :: string service) v'. sv_create None None None None None 2 empty_fs = Ret v \<and>
     sv_set ''a'' ''k'' ''x'' 0 5 6 v = (Ret True, v') \<and>
     fs_content wal_default_path (ms_fs (sv_store v')) = Some (log_text
       [\<lparr>e_seq = 1, e_actor = ''a'', e_key = ''k'', e_value = ''x'', e_ts = 5\<rparr>,
        \<lparr>e_seq = 1, e_actor = ''a'', e_key = ''k'', e_value = ''x'', e_ts = 6\<rparr>])"
proof -
  let ?es = "[\<lparr>e_seq = 1, e_actor = ''a'', e_key = ''k'', e_value = ''x'', e_ts = 5\<rparr>,
        \<lparr>e_seq = 1, e_actor = ''a'', e_key = ''k'', e_value = ''x'', e_ts = 6\<rparr>]"
  obtain v :: "string service" where v: "sv_create None None None None None 2 empty_fs = Ret v"
    by (auto simp: sv_create_def default_store_def with_wal_def empty_fs_def wal_ctor_def open_log_def
        stream_open_app_def fs_create_def ms_new_def)
  have "length (log_text ?es) < wal_default_max"
    by (simp add: log_text_def wal_line_def show_u64_def show_nat_small wal_default_max_def)
  then have "\<exists>v'. sv_set ''a'' ''k'' ''x'' 0 5 6 v = (Ret True, v') \<and>
      fs_content wal_default_path (ms_fs (sv_store v')) = Some (log_text ?es)"
    by (intro create_shares_log [OF v _ _ _ refl]) (simp_all add: empty_fs_def fs_wf_def)
  with v show ?thesis by blast
qed

end
