(* ===== verification/Stream_Delivery.thy ===== *)
theory Stream_Delivery
  imports Subscribe_Streams
begin

text \<open>
  What a client of \<open>Subscribe\<close> (\<^verbatim>\<open>src/server.cpp\<close>) receives over a whole history. The specification
  looks at the events only: a client listens from the event in which its callback is added to the
  one in which it is removed, and hears the changes of its actor that are published meanwhile. The
  messages written to the client, those in its queue, and the one that a failed write has lost, are
  exactly these, in order.
\<close>

section \<open>The specification\<close>

fun listen :: "nat \<Rightarrow> event \<Rightarrow> bool \<Rightarrow> bool" where
  "listen i (Add j) b \<longleftrightarrow> b \<or> j = i"
| "listen i (Remove j) b \<longleftrightarrow> b \<and> j \<noteq> i"
| "listen i _ b \<longleftrightarrow> b"

fun heard :: "actor_id \<Rightarrow> event \<Rightarrow> change list" where
  "heard a (Publish c) = (if ch_actor c = a then [c] else [])"
| "heard a _ = []"

fun hears :: "nat \<Rightarrow> actor_id \<Rightarrow> bool \<Rightarrow> event list \<Rightarrow> change list" where
  "hears i a b [] = []"
| "hears i a b (e # es) = (if b then heard a e else []) @ hears i a (listen i e b) es"

lemma hears_snoc:
  "hears i a b (es @ [e]) = hears i a b es @ (if fold (listen i) es b then heard a e else [])"
  by (induction es arbitrary: b) auto

section \<open>Registered streams\<close>

fun on_air :: "phase \<Rightarrow> (nat \<times> u64) option" where
  "on_air (Streaming p n) = Some (p, n)"
| "on_air (Closing p n) = Some (p, n)"
| "on_air _ = None"

text \<open>A stream that is on the air has its callback in the list that the map has for its actor.\<close>

definition in_map :: "hub \<Rightarrow> nat \<Rightarrow> nat \<Rightarrow> u64 \<Rightarrow> bool" where
  "in_map h i p n \<longleftrightarrow> hb_map h (st_actor (hb_streams h ! i)) = Some p \<and>
     (\<exists>l. hb_lists h p = Some l \<and> \<lparr>wr_id = n, wr_cb = Some i\<rparr> \<in> set (sl_items l))"

definition reg_ok :: "hub \<Rightarrow> bool" where
  "reg_ok h \<longleftrightarrow> (\<forall>i < length (hb_streams h). \<forall>p n. on_air (st_phase (hb_streams h ! i)) = Some (p, n) \<longrightarrow> in_map h i p n)"

lemma reg_okD: "reg_ok h \<Longrightarrow> i < length (hb_streams h) \<Longrightarrow> on_air (st_phase (hb_streams h ! i)) = Some (p, n) \<Longrightarrow> in_map h i p n"
  by (simp add: reg_ok_def)

lemma reg_okI:
  "(\<And>i p n. i < length (hb_streams h) \<Longrightarrow> on_air (st_phase (hb_streams h ! i)) = Some (p, n) \<Longrightarrow> in_map h i p n) \<Longrightarrow> reg_ok h"
  by (simp add: reg_ok_def)

text \<open>A change of the map and the lists that leaves the registered streams alone.\<close>

lemma reg_lists:
  assumes "reg_ok h" and "hb_streams h' = hb_streams h"
    and "\<And>i p n. i < length (hb_streams h) \<Longrightarrow> on_air (st_phase (hb_streams h ! i)) = Some (p, n) \<Longrightarrow> in_map h i p n \<Longrightarrow> in_map h' i p n"
  shows "reg_ok h'"
  using assms by (auto simp: reg_ok_def)

text \<open>A change of one stream.\<close>

lemma reg_upd:
  assumes "reg_ok h" and "i < length (hb_streams h)" and "st_actor (f (hb_streams h ! i)) = st_actor (hb_streams h ! i)"
    and "\<And>p n. on_air (st_phase (f (hb_streams h ! i))) = Some (p, n) \<Longrightarrow> on_air (st_phase (hb_streams h ! i)) = Some (p, n)"
  shows "reg_ok (upd_stream i f h)"
  using assms by (auto simp: reg_ok_def in_map_def)

lemma reg_off:
  assumes "reg_ok h" and "i < length (hb_streams h)" and "on_air ph = None"
  shows "reg_ok (set_phase i ph h)"
  unfolding set_phase_def by (rule reg_upd [OF assms(1,2)]) (use assms(3) in simp_all)

lemma reg_get_or_create:
  assumes inv: "hub_inv n h" and reg: "reg_ok h" and run: "get_or_create_subs a h = (r, h')"
  shows "reg_ok h' \<and> hb_streams h' = hb_streams h \<and> hb_pubs h' = hb_pubs h"
proof (cases "hb_map h a")
  case None
  with run have h': "h' = h\<lparr>hb_map := (hb_map h)(a \<mapsto> hb_fresh h),
      hb_lists := (hb_lists h)(hb_fresh h \<mapsto> sl_new), hb_fresh := Suc (hb_fresh h)\<rparr>"
    by (simp add: get_or_create_subs_def)
  have "reg_ok h'"
  proof (rule reg_lists [OF reg])
    fix i p m
    assume "in_map h i p m"
    with None hub_invD(1) [OF inv, of p] show "in_map h' i p m" by (auto simp: in_map_def h')
  qed (simp add: h')
  then show ?thesis by (simp add: h')
qed (use assms in \<open>auto simp: get_or_create_subs_def\<close>)

lemma reg_drop:
  assumes inv: "hub_inv n h" and reg: "reg_ok h" and free: "\<And>a. hb_map h a \<noteq> Some p" and run: "drop_list p h = (r, h')"
  shows "reg_ok h' \<and> hb_streams h' = hb_streams h \<and> hb_pubs h' = hb_pubs h"
proof -
  from drop_list_keeps [OF inv free run] have h': "hb_streams h' = hb_streams h" "hb_map h' = hb_map h"
    "hb_pubs h' = hb_pubs h" "\<And>q. q \<noteq> p \<Longrightarrow> hb_lists h' q = hb_lists h q" by auto
  have "reg_ok h'"
  proof (rule reg_lists [OF reg h'(1)])
    fix i q m
    assume m: "in_map h i q m"
    with free have "q \<noteq> p" by (auto simp: in_map_def)
    with m h'(4) [of q] show "in_map h' i q m" by (simp add: in_map_def h'(1,2))
  qed
  with h' show ?thesis by simp
qed

lemma reg_add:
  assumes inv: "hub_inv n h" and reg: "reg_ok h" and i: "i < length (hb_streams h)"
    and ph: "st_phase (hb_streams h ! i) = Listed p" and time: "hb_map h (st_actor (hb_streams h ! i)) = Some p"
    and run: "subs_add p i h = (r, h')"
  shows "\<exists>m. r = Ret m \<and> reg_ok (set_phase i (Streaming p m) h') \<and> hb_streams h' = hb_streams h \<and> hb_pubs h' = hb_pubs h"
proof -
  from hub_invD(4) [OF inv time] obtain l where l: "hb_lists h p = Some l" by blast
  obtain m l' where sl: "sl_add (Some i) l = (m, l')" by (rule prod.exhaust)
  note items = sl_add_spec(2) [OF hub_invD(2) [OF inv l] sl]
  have h': "r = Ret m" "h' = h\<lparr>hb_lists := (hb_lists h)(p \<mapsto> l')\<rparr>" using run l sl by (simp_all add: subs_add_def)
  have "reg_ok (set_phase i (Streaming p m) h')"
  proof (rule reg_okI)
    fix j q k
    assume j: "j < length (hb_streams (set_phase i (Streaming p m) h'))"
      and on: "on_air (st_phase (hb_streams (set_phase i (Streaming p m) h') ! j)) = Some (q, k)"
    show "in_map (set_phase i (Streaming p m) h') j q k"
    proof (cases "j = i")
      case True
      with on i time items show ?thesis by (simp add: in_map_def set_phase_def h'(2))
    next
      case False
      with j on i have "in_map h j q k" by (intro reg_okD [OF reg]) (simp_all add: set_phase_def h'(2))
      with False i l items show ?thesis by (auto simp: in_map_def set_phase_def h'(2))
    qed
  qed
  with h' show ?thesis by simp
qed

lemma reg_remove:
  assumes inv: "hub_inv n h" and reg: "reg_ok h" and i: "i < length (hb_streams h)"
    and ph: "st_phase (hb_streams h ! i) = Closing p m"
    and run: "remove_callback (st_actor (hb_streams h ! i)) m h = (r, h')"
  shows "reg_ok (set_phase i (Leaving p) h') \<and> hb_streams h' = hb_streams h \<and> hb_pubs h' = hb_pubs h"
proof -
  let ?a = "st_actor (hb_streams h ! i)"
  have "in_map h i p m" using reg_okD [OF reg i] ph by simp
  then obtain l where map: "hb_map h ?a = Some p" and l: "hb_lists h p = Some l"
    and mine: "\<lparr>wr_id = m, wr_cb = Some i\<rparr> \<in> set (sl_items l)" by (auto simp: in_map_def)
  note linv = hub_invD(2) [OF inv l]
  obtain l' where rm: "sl_remove m l = (Ret (m \<in> wr_id ` set (sl_items l)), l')" "sl_inv l'"
    "sl_items l' = filter (\<lambda>w. wr_id w \<noteq> m) (sl_items l)" "sl_next_id l' = sl_next_id l"
    by (rule sl_remove_spec [OF linv])
  let ?h1 = "h\<lparr>hb_lists := (hb_lists h)(p \<mapsto> l')\<rparr>"
  let ?h2 = "?h1\<lparr>hb_map := (hb_map ?h1)(?a := None)\<rparr>"
  have eq: "remove_callback ?a m h = (if sl_items l' = [] then drop_list p ?h2 else (Ret (), ?h1))"
    using map l rm(1) sl_size_0 [OF rm(2)] by (simp add: remove_callback_def Let_def)
  have inj: "inj_on wr_id (set (sl_items l))" using linv by (simp add: sl_inv_def distinct_map)
  have stay: "\<lparr>wr_id = k, wr_cb = Some j\<rparr> \<in> set (sl_items l')"
    if "in_map h j p k" "j \<noteq> i" for j k
  proof -
    from that l have w: "\<lparr>wr_id = k, wr_cb = Some j\<rparr> \<in> set (sl_items l)" by (simp add: in_map_def)
    with inj_onD [OF inj _ w mine] that(2) have "k \<noteq> m" by auto
    with w rm(3) show ?thesis by simp
  qed
  have keep: "hb_streams h' = hb_streams h \<and> hb_pubs h' = hb_pubs h \<and> (\<forall>q. q \<noteq> p \<longrightarrow> hb_lists h' q = hb_lists h q) \<and>
    (\<forall>b. b \<noteq> ?a \<longrightarrow> hb_map h' b = hb_map h b) \<and> (sl_items l' \<noteq> [] \<longrightarrow> h' = ?h1)"
  proof (cases "sl_items l' = []")
    case True
    have "hub_inv n ?h1" by (rule inv_set_list [OF inv l rm(2,4)]) (auto simp: rm(3))
    then have inv2: "hub_inv n ?h2" by (rule inv_unmap)
    have free: "hb_map ?h2 b \<noteq> Some p" for b using hub_invD(6) [OF inv map, of b] by auto
    have "drop_list p ?h2 = (r, h')" using True eq run by simp
    from drop_list_keeps [OF inv2 free this] True show ?thesis by simp
  qed (use eq run in simp)
  have "in_map h' j q k" if j: "j < length (hb_streams h)" "j \<noteq> i" "on_air (st_phase (hb_streams h ! j)) = Some (q, k)" for j q k
  proof -
    have m: "in_map h j q k" by (rule reg_okD [OF reg j(1,3)])
    show ?thesis
    proof (cases "q = p")
      case True
      with stay [of j k] m j(2) have "\<lparr>wr_id = k, wr_cb = Some j\<rparr> \<in> set (sl_items l')" by simp
      moreover from this keep have "h' = ?h1" by (metis empty_iff empty_set)
      ultimately show ?thesis using True m by (simp add: in_map_def)
    next
      case False
      with m map have "st_actor (hb_streams h ! j) \<noteq> ?a" by (auto simp: in_map_def)
      with False m keep show ?thesis by (simp add: in_map_def)
    qed
  qed
  then have "reg_ok (set_phase i (Leaving p) h')"
    using i keep by (auto simp: reg_ok_def set_phase_def in_map_def split: if_splits)
  with keep show ?thesis by simp
qed

lemma reg_return:
  assumes inv: "hub_inv n h" and reg: "reg_ok h" and i: "i < length (hb_streams h)"
    and ph: "st_phase (hb_streams h ! i) = Leaving p" and run: "exec (Return i) h = (r, h')"
  shows "reg_ok h' \<and> hb_streams h' = hb_streams (set_phase i (Finished RPC_OK) h) \<and> hb_pubs h' = hb_pubs h"
proof -
  let ?h = "set_phase i (Finished RPC_OK) h"
  have inv1: "hub_inv n ?h" by (rule inv_set_phase [OF inv i]) (use unregistered [OF inv] ph in auto)
  have reg1: "reg_ok ?h" by (rule reg_off [OF reg i]) simp
  have mine: "hb_map h a = Some p \<Longrightarrow> st_actor (hb_streams h ! i) = a" for a
    using hub_invD(7) [OF inv i] ph by (auto simp: stream_ok_def)
  have run': "(if hb_map ?h (st_actor (hb_streams h ! i)) = Some p then (Ret (), ?h) else drop_list p ?h) = (r, h')"
    using run i ph by (simp add: at_phase_def bindP_modify)
  show ?thesis
  proof (cases "hb_map ?h (st_actor (hb_streams h ! i)) = Some p")
    case True
    with run' reg1 show ?thesis by (auto simp: set_phase_def)
  next
    case False
    then have "hb_map ?h a \<noteq> Some p" for a using mine [of a] by (auto simp: set_phase_def)
    from reg_drop [OF inv1 reg1 this] run' False show ?thesis by (simp add: set_phase_def)
  qed
qed

text \<open>Publishing appends the change to the queues of the registered streams of the actor.\<close>

lemma reg_publish:
  assumes inv: "hub_inv n h" and reg: "reg_ok h" and run: "publish_change c h = (Ret (), h')"
  shows "reg_ok h' \<and> hb_pubs h' = hb_pubs h \<and> length (hb_streams h') = length (hb_streams h) \<and>
    (\<forall>j < length (hb_streams h). hb_streams h' ! j =
      (if on_air (st_phase (hb_streams h ! j)) \<noteq> None \<and> st_actor (hb_streams h ! j) = ch_actor c
       then push_to c (hb_streams h ! j) else hb_streams h ! j))"
proof (cases "hb_map h (ch_actor c)")
  case None
  have "hb_streams h ! j = (if on_air (st_phase (hb_streams h ! j)) \<noteq> None \<and> st_actor (hb_streams h ! j) = ch_actor c
      then push_to c (hb_streams h ! j) else hb_streams h ! j)" if "j < length (hb_streams h)" for j
    using reg_okD [OF reg that] None by (auto simp: in_map_def)
  with run None reg show ?thesis by (simp add: publish_defs)
next
  case (Some p)
  with hub_invD(4) [OF inv] obtain l where l: "hb_lists h p = Some l" by blast
  have ok: "\<forall>w \<in> set (sl_items l). wrapper_ok h (ch_actor c) p w" using hub_invD(5) [OF inv Some l] by blast
  have "distinct (map wr_id (sl_items l))" using hub_invD(2) [OF inv l] by (simp add: sl_inv_def)
  moreover have rc: "run_callbacks c (sl_items l) h = (Ret (), h')" using publish_change_items [OF inv Some l] run by simp
  ultimately have h': "length (hb_streams h') = length (hb_streams h)" "hb_map h' = hb_map h" "hb_lists h' = hb_lists h"
    "\<And>j. j < length (hb_streams h) \<Longrightarrow> hb_streams h' ! j =
       (if Some j \<in> wr_cb ` set (sl_items l) then push_to c (hb_streams h ! j) else hb_streams h ! j)"
    using run_callbacks_spec [OF inv ok _ rc] by simp_all
  have "Some j \<in> wr_cb ` set (sl_items l) \<longleftrightarrow>
      on_air (st_phase (hb_streams h ! j)) \<noteq> None \<and> st_actor (hb_streams h ! j) = ch_actor c"
    if j: "j < length (hb_streams h)" for j
  proof
    assume "Some j \<in> wr_cb ` set (sl_items l)"
    then obtain w where "w \<in> set (sl_items l)" "wr_cb w = Some j" by auto
    with ok show "on_air (st_phase (hb_streams h ! j)) \<noteq> None \<and> st_actor (hb_streams h ! j) = ch_actor c"
      by (auto simp: wrapper_ok_def)
  next
    assume r: "on_air (st_phase (hb_streams h ! j)) \<noteq> None \<and> st_actor (hb_streams h ! j) = ch_actor c"
    then obtain q k where "on_air (st_phase (hb_streams h ! j)) = Some (q, k)" by auto
    from reg_okD [OF reg j this] r Some l show "Some j \<in> wr_cb ` set (sl_items l)"
      by (force simp: in_map_def)
  qed
  with h' have st: "hb_streams h' ! j =
      (if on_air (st_phase (hb_streams h ! j)) \<noteq> None \<and> st_actor (hb_streams h ! j) = ch_actor c
       then push_to c (hb_streams h ! j) else hb_streams h ! j)" if "j < length (hb_streams h)" for j
    using that by simp
  have "reg_ok h'"
  proof (rule reg_okI)
    fix j q k
    assume j: "j < length (hb_streams h')" "on_air (st_phase (hb_streams h' ! j)) = Some (q, k)"
    then have "in_map h j q k" using h'(1) st [of j] by (intro reg_okD [OF reg]) (auto split: if_splits)
    moreover have "st_actor (hb_streams h' ! j) = st_actor (hb_streams h ! j)" using st [of j] j(1) h'(1) by simp
    ultimately show "in_map h' j q k" by (simp add: in_map_def h'(2,3))
  qed
  with st h'(1) callbacks_keep [OF inv rc] show ?thesis by simp
qed

section \<open>One event\<close>

fun gone :: "phase \<Rightarrow> bool" where
  "gone (Closing _ _) = True"
| "gone (Leaving _) = True"
| "gone (Finished _) = True"
| "gone _ = False"

text \<open>The client has been sent, or lost in a failed write, or will find in its queue: \<open>cs\<close>.\<close>

definition received :: "stream \<Rightarrow> change list \<Rightarrow> bool" where
  "received s cs \<longleftrightarrow> (\<exists>d. st_written s @ d @ bq_items (st_inbound s) = cs \<and> length d \<le> 1 \<and> (d \<noteq> [] \<longrightarrow> gone (st_phase s)))"

lemma received_phase:
  assumes "received s cs" and "st_written s' = st_written s" and "bq_items (st_inbound s') = bq_items (st_inbound s)"
    and "gone (st_phase s) \<longrightarrow> gone (st_phase s')"
  shows "received s' cs"
  using assms unfolding received_def by force

lemma received_push: "received s cs \<Longrightarrow> received (push_to c s) (cs @ [c])"
  unfolding received_def by fastforce

lemma received_pop:
  assumes "received s cs" and "\<not> gone (st_phase s)" and "bq_items (st_inbound s) = c # xs"
    and "bq_items (st_inbound s') = xs" and "st_written s' = st_written s @ (if ok then [c] else [])"
    and "\<not> ok \<longrightarrow> gone (st_phase s')"
  shows "received s' cs"
  using assms unfolding received_def by (intro exI [of _ "if ok then [] else [c]"]) auto

definition on :: "stream \<Rightarrow> bool" where
  "on s \<longleftrightarrow> on_air (st_phase s) \<noteq> None"

text \<open>What event \<open>e\<close> may do to stream \<open>j\<close>.\<close>

definition tracks :: "event \<Rightarrow> nat \<Rightarrow> stream \<Rightarrow> stream \<Rightarrow> bool" where
  "tracks e j s s' \<longleftrightarrow> st_actor s' = st_actor s \<and> on s' = listen j e (on s) \<and>
     (\<forall>cs. received s cs \<longrightarrow> received s' (cs @ (if on s then heard (st_actor s) e else [])))"

fun subject :: "event \<Rightarrow> nat option" where
  "subject (Check i _) = Some i"
| "subject (Get_list i) = Some i"
| "subject (Add i) = Some i"
| "subject (Timeout i) = Some i"
| "subject (Write i _) = Some i"
| "subject (Cancel i) = Some i"
| "subject (Remove i) = Some i"
| "subject (Return i) = Some i"
| "subject _ = None"

lemma tracks_other: "subject e = Some i \<Longrightarrow> j \<noteq> i \<Longrightarrow> tracks e j s s"
  by (cases e) (simp_all add: tracks_def)

lemma heard_own: "subject e = Some i \<Longrightarrow> heard a e = []"
  by (cases e) simp_all

definition step_ok :: "event \<Rightarrow> hub \<Rightarrow> hub \<Rightarrow> bool" where
  "step_ok e h h' \<longleftrightarrow> reg_ok h' \<and> hb_pubs h' = hb_pubs h \<and>
     (\<forall>j < length (hb_streams h). tracks e j (hb_streams h ! j) (hb_streams h' ! j))"

text \<open>An event of stream \<open>i\<close>.\<close>

lemma step_own:
  assumes "subject e = Some i" and "i < length (hb_streams h)" and "hb_streams h' = (hb_streams h)[i := s']"
    and "reg_ok h'" and "hb_pubs h' = hb_pubs h" and "tracks e i (hb_streams h ! i) s'"
  shows "step_ok e h h' \<and> length (hb_streams h') = length (hb_streams h)"
  using assms tracks_other [OF assms(1)] by (auto simp: step_ok_def nth_list_update)

lemma tracks_phase:
  assumes "subject e = Some i" and "(on_air ph \<noteq> None) = listen i e (on s)" and "gone (st_phase s) \<longrightarrow> gone ph"
  shows "tracks e i s (s\<lparr>st_phase := ph\<rparr>)"
  using assms received_phase [of s _ "s\<lparr>st_phase := ph\<rparr>"]
  by (simp add: tracks_def on_def heard_own)

lemma step_exec:
  assumes inv: "hub_inv n h" and reg: "reg_ok h" and time: "in_time e h" and pubs: "hb_pubs h = []"
    and e: "\<forall>c. e \<noteq> Pub_find c" "\<forall>a. e \<noteq> Open a" and run: "exec e h = (Ret (), h')"
  shows "step_ok e h h' \<and> length (hb_streams h') = length (hb_streams h) \<and> (\<forall>i. subject e = Some i \<longrightarrow> i < length (hb_streams h))"
proof (cases e)
  case (Check i active)
  with run have i: "i < length (hb_streams h)" "st_phase (hb_streams h ! i) = Opened"
    and "h' = set_phase i (if active then Checked else Finished (Not_found ''Actor not found or inactive'')) h"
    by (auto simp: at_phase_def modify_def split: if_splits phase.splits)
  moreover have "on_air (if active then Checked else Finished st) = None" for st by simp
  ultimately obtain ph where ph: "on_air ph = None" and h': "h' = set_phase i ph h" by blast
  have "step_ok e h h' \<and> length (hb_streams h') = length (hb_streams h)"
    by (rule step_own [of e i]) (use Check i h' ph reg_off [OF reg i(1) ph] in
      \<open>auto simp: set_phase_def upd_stream_def on_def intro!: tracks_phase\<close>)
  with Check i show ?thesis by simp
next
  case (Get_list i)
  with run have i: "i < length (hb_streams h)" "st_phase (hb_streams h ! i) = Checked"
    and k: "bindP (get_or_create_subs (st_actor (hb_streams h ! i))) (\<lambda>p. modify (set_phase i (Listed p))) h = (Ret (), h')"
    by (auto simp: at_phase_def split: if_splits phase.splits)
  from k obtain p h1 where g: "get_or_create_subs (st_actor (hb_streams h ! i)) h = (Ret p, h1)"
    and h': "h' = set_phase i (Listed p) h1" by (auto simp: bindP_eq_Ret modify_def)
  note r = reg_get_or_create [OF inv reg g]
  have "step_ok e h h' \<and> length (hb_streams h') = length (hb_streams h)"
    by (rule step_own [of e i]) (use Get_list i h' r reg_off [of h1 i "Listed p"] in
      \<open>auto simp: set_phase_def upd_stream_def on_def intro!: tracks_phase\<close>)
  with Get_list i show ?thesis by simp
next
  case (Add i)
  with run obtain p where i: "i < length (hb_streams h)" "st_phase (hb_streams h ! i) = Listed p"
    and k: "bindP (subs_add p i) (\<lambda>m. modify (set_phase i (Streaming p m))) h = (Ret (), h')"
    by (auto simp: at_phase_def split: if_splits phase.splits)
  from k obtain m h1 where g: "subs_add p i h = (Ret m, h1)" and h': "h' = set_phase i (Streaming p m) h1"
    by (auto simp: bindP_eq_Ret modify_def)
  have "hb_map h (st_actor (hb_streams h ! i)) = Some p" using time i Add by simp
  from reg_add [OF inv reg i this g] h' have r: "reg_ok h'" "hb_streams h1 = hb_streams h" "hb_pubs h1 = hb_pubs h" by auto
  have "step_ok e h h' \<and> length (hb_streams h') = length (hb_streams h)"
    by (rule step_own [of e i]) (use Add i h' r in
      \<open>auto simp: set_phase_def upd_stream_def on_def intro!: tracks_phase\<close>)
  with Add i show ?thesis by simp
next
  case (Timeout i)
  with run have i: "i < length (hb_streams h)" and h': "h' = h"
    by (auto simp: at_phase_def ret_def split: if_splits phase.splits)
  have "step_ok e h h' \<and> length (hb_streams h') = length (hb_streams h)"
    by (rule step_own [of e i]) (use Timeout i h' reg in \<open>auto simp: tracks_def\<close>)
  with Timeout i show ?thesis by simp
next
  case (Write i ok)
  with run obtain p m where i: "i < length (hb_streams h)" "st_phase (hb_streams h ! i) = Streaming p m"
    and k: "wait_step i p m ok h = (Ret (), h')"
    by (auto simp: at_phase_def split: if_splits phase.splits)
  let ?s = "hb_streams h ! i"
  from hub_invD(7) [OF inv i(1)] have ns: "\<not> bq_stopped (st_inbound ?s)" by (simp add: stream_ok_def)
  with k obtain c cs where c: "bq_items (st_inbound ?s) = c # cs"
    by (cases "bq_items (st_inbound ?s)") (auto simp: wait_step_def bq_wait_pop_def)
  let ?f = "\<lambda>s. s\<lparr>st_inbound := (st_inbound ?s)\<lparr>bq_items := cs, bq_size := bq_size (st_inbound ?s) - 1\<rparr>,
      st_phase := (if ok then Streaming p m else Closing p m), st_written := st_written s @ (if ok then [c] else [])\<rparr>"
  have h': "h' = upd_stream i ?f h" using k c ns by (simp add: wait_step_def bq_wait_pop_def bq_pop_def)
  have "tracks e i ?s (?f ?s)"
    unfolding tracks_def using Write i(2) received_pop [of ?s _ c cs "?f ?s" ok] c by (simp add: on_def)
  moreover have "reg_ok h'" unfolding h' by (rule reg_upd [OF reg i(1)]) (use i(2) in \<open>auto split: if_splits\<close>)
  ultimately have "step_ok e h h' \<and> length (hb_streams h') = length (hb_streams h)"
    by (intro step_own [of e i]) (use Write i(1) h' in \<open>simp_all add: upd_stream_def\<close>)
  with Write i show ?thesis by simp
next
  case (Cancel i)
  with run obtain p m where i: "i < length (hb_streams h)" "st_phase (hb_streams h ! i) = Streaming p m"
    and h': "h' = set_phase i (Closing p m) h"
    by (auto simp: at_phase_def modify_def split: if_splits phase.splits)
  have "reg_ok h'" unfolding h' set_phase_def by (rule reg_upd [OF reg i(1)]) (use i(2) in auto)
  then have "step_ok e h h' \<and> length (hb_streams h') = length (hb_streams h)"
    by (intro step_own [of e i]) (use Cancel i h' in \<open>auto simp: set_phase_def upd_stream_def on_def intro!: tracks_phase\<close>)
  with Cancel i show ?thesis by simp
next
  case (Remove i)
  with run obtain p m where i: "i < length (hb_streams h)" "st_phase (hb_streams h ! i) = Closing p m"
    and k: "bindP (remove_callback (st_actor (hb_streams h ! i)) m) (\<lambda>_. modify (set_phase i (Leaving p))) h = (Ret (), h')"
    by (auto simp: at_phase_def split: if_splits phase.splits)
  from k obtain u h1 where g: "remove_callback (st_actor (hb_streams h ! i)) m h = (Ret u, h1)"
    and h': "h' = set_phase i (Leaving p) h1" by (auto simp: bindP_eq_Ret modify_def)
  from reg_remove [OF inv reg i g] h' have "reg_ok h'" "hb_streams h1 = hb_streams h" "hb_pubs h1 = hb_pubs h" by auto
  then have "step_ok e h h' \<and> length (hb_streams h') = length (hb_streams h)"
    by (intro step_own [of e i]) (use Remove i h' in \<open>auto simp: set_phase_def upd_stream_def on_def intro!: tracks_phase\<close>)
  with Remove i show ?thesis by simp
next
  case (Return i)
  with run obtain p where i: "i < length (hb_streams h)" "st_phase (hb_streams h ! i) = Leaving p"
    by (auto simp: at_phase_def split: if_splits phase.splits)
  from reg_return [OF inv reg i] run Return have "reg_ok h'" "hb_pubs h' = hb_pubs h"
    "hb_streams h' = hb_streams (set_phase i (Finished RPC_OK) h)" by auto
  then have "step_ok e h h' \<and> length (hb_streams h') = length (hb_streams h)"
    by (intro step_own [of e i]) (use Return i in \<open>auto simp: set_phase_def upd_stream_def on_def intro!: tracks_phase\<close>)
  with Return i show ?thesis by simp
next
  case (Publish c)
  with run have "publish_change c h = (Ret (), h')" by simp
  from reg_publish [OF inv reg this] show ?thesis
    using Publish received_push by (auto simp: step_ok_def tracks_def on_def)
qed (use e run pubs in auto)

section \<open>Whole histories\<close>

text \<open>No call of \<open>publish_change\<close> has been overtaken.\<close>

definition undisturbed :: "event list \<Rightarrow> bool" where
  "undisturbed es \<longleftrightarrow> list_all (\<lambda>e. case e of Pub_find _ \<Rightarrow> False | _ \<Rightarrow> True) es"

text \<open>Streams that have not been opened have neither listened nor heard.\<close>

definition follows :: "event list \<Rightarrow> hub \<Rightarrow> bool" where
  "follows es h \<longleftrightarrow> reg_ok h \<and> hb_pubs h = [] \<and>
     (\<forall>i < length (hb_streams h). on (hb_streams h ! i) = fold (listen i) es False \<and>
        received (hb_streams h ! i) (hears i (st_actor (hb_streams h ! i)) False es)) \<and>
     (\<forall>i \<ge> length (hb_streams h). \<not> fold (listen i) es False \<and> (\<forall>a. hears i a False es = []))"

lemma follows_new: "follows [] hb_new"
  by (simp add: follows_def reg_ok_def hb_new_def)

lemma listen_subject: "subject e \<noteq> Some i \<Longrightarrow> listen i e b = b"
  by (cases e) auto

lemma follows_open:
  assumes f: "follows es h" and h': "h' = h\<lparr>hb_streams := hb_streams h @ [s]\<rparr>"
    and s: "st_phase s = Opened" "st_written s = []" "bq_items (st_inbound s) = []"
  shows "follows (es @ [Open a]) h'"
proof -
  have "reg_ok h'" using f s(1) unfolding follows_def reg_ok_def in_map_def h' by (auto simp: nth_append less_Suc_eq)
  moreover have "received s []" using s by (simp add: received_def)
  ultimately show ?thesis using f s(1)
    by (auto simp: follows_def h' hears_snoc nth_append less_Suc_eq on_def)
qed

lemma follows_step:
  assumes f: "follows es h" and inv: "hub_inv n h" and time: "in_time e h" and e: "undisturbed [e]"
    and run: "exec e h = (Ret (), h')"
  shows "follows (es @ [e]) h'"
proof (cases "\<exists>a. e = Open a")
  case True
  then obtain a where a: "e = Open a" by blast
  show ?thesis unfolding a by (rule follows_open [OF f]) (use run a in \<open>auto\<close>)
next
  case False
  from f have reg: "reg_ok h" and pubs: "hb_pubs h = []" by (simp_all add: follows_def)
  from e have "\<forall>c. e \<noteq> Pub_find c" by (auto simp: undisturbed_def)
  from step_exec [OF inv reg time pubs this _ run] False have st: "reg_ok h'" "hb_pubs h' = []"
    "\<And>j. j < length (hb_streams h) \<Longrightarrow> tracks e j (hb_streams h ! j) (hb_streams h' ! j)"
    "length (hb_streams h') = length (hb_streams h)" "\<And>i. subject e = Some i \<Longrightarrow> i < length (hb_streams h)"
    by (auto simp: step_ok_def pubs)
  have "listen i e b = b" if "i \<ge> length (hb_streams h)" for i b
    using st(5) [of i] that by (intro listen_subject) auto
  with st f show ?thesis by (fastforce simp: follows_def hears_snoc tracks_def)
qed

lemma history_follows:
  assumes "length es < 2 ^ 64 - 1" and "orderly es hb_new" and "undisturbed es" and "seqP exec es hb_new = (Ret (), h)"
  shows "follows es h"
  using assms
proof (induction es arbitrary: h rule: rev_induct)
  case Nil
  then show ?case using follows_new by simp
next
  case (snoc e es)
  from snoc.prems(4) obtain h1 where h1: "seqP exec es hb_new = (Ret (), h1)" and e: "exec e h1 = (Ret (), h)"
    by (auto simp: seqP_append split: prod.splits outcome.splits)
  have time: "orderly es hb_new" "in_time e h1" using snoc.prems(2) orderly_append [OF h1, of "[e]"] by simp_all
  have len: "length es < 2 ^ 64 - 1" using snoc.prems(1) by simp
  have u: "undisturbed es" "undisturbed [e]" using snoc.prems(3) by (simp_all add: undisturbed_def)
  show ?case by (rule follows_step [OF snoc.IH [OF len time(1) u(1) h1] reachable_inv [OF len h1] time(2) u(2) e])
qed

text \<open>C3: A client receives the changes of its actor, all of them, once and in order: in every history in
  which each client is added while its list is still in the map and no publisher is overtaken, what
  has been written to the client, what a failed write has lost (at most one message, after which
  the call ends) and what is waiting in its queue are together exactly the changes published for
  its actor between the adding and the removal of its callback.\<close>

theorem client_receives:
  assumes "length es < 2 ^ 64 - 1" and "orderly es hb_new" and "undisturbed es" and "seqP exec es hb_new = (Ret (), h)"
    and "i < length (hb_streams h)" and "s = hb_streams h ! i"
  shows "\<exists>lost. st_written s @ lost @ bq_items (st_inbound s) = hears i (st_actor s) False es \<and>
    length lost \<le> 1 \<and> (lost \<noteq> [] \<longrightarrow> gone (st_phase s))"
  using history_follows [OF assms(1-4)] assms(5,6) by (simp add: follows_def received_def)

theorem client_receives_witness:
  "\<exists>h. seqP exec [Open ''a'', Check 0 True, Get_list 0,
       Publish \<lparr>ch_actor = ''a'', ch_key = ''k'', ch_value = ''1'', ch_event = ''UPDATED''\<rparr>, Add 0,
       Publish \<lparr>ch_actor = ''a'', ch_key = ''k'', ch_value = ''2'', ch_event = ''UPDATED''\<rparr>,
       Publish \<lparr>ch_actor = ''a'', ch_key = ''k'', ch_value = ''3'', ch_event = ''UPDATED''\<rparr>, Write 0 True] hb_new = (Ret (), h) \<and>
     (\<exists>lost. st_written (hb_streams h ! 0) @ lost @ bq_items (st_inbound (hb_streams h ! 0)) =
       [\<lparr>ch_actor = ''a'', ch_key = ''k'', ch_value = ''2'', ch_event = ''UPDATED''\<rparr>,
        \<lparr>ch_actor = ''a'', ch_key = ''k'', ch_value = ''3'', ch_event = ''UPDATED''\<rparr>])"
proof -
  let ?c = "\<lambda>v. \<lparr>ch_actor = ''a'', ch_key = ''k'', ch_value = v, ch_event = ''UPDATED''\<rparr>"
  let ?es = "[Open ''a'', Check 0 True, Get_list 0, Publish (?c ''1''), Add 0, Publish (?c ''2''), Publish (?c ''3''), Write 0 True]"
  note run = run_defs publish_defs sl_invoke_all_def tsl_for_each_def deliver_def catchP_def bq_push_def bq_enqueue_def
    wait_step_def bq_wait_pop_def bq_pop_def ret_def
  obtain r h where h: "seqP exec ?es hb_new = (r, h)" by (rule prod.exhaust)
  then have r: "r = Ret ()" and s: "length (hb_streams h) = 1" "st_actor (hb_streams h ! 0) = ''a''" by (auto simp: run)
  have o: "orderly ?es hb_new" by (simp add: run)
  have u: "undisturbed ?es" by (simp add: undisturbed_def)
  from client_receives [OF _ o u, of h 0, OF _ _ _ refl] h r s show ?thesis by auto
qed

end
