(* ===== verification/Concurrent_Set.thy ===== *)
theory Concurrent_Set
  imports Server Stream_Delivery
begin

text \<open>
  \<^verbatim>\<open>IquoraServiceImpl::Set\<close> (\<^verbatim>\<open>src/server.cpp\<close>) when several calls are in progress. No lock is held over
  the whole handler: the store, the service's log and the publishing half each lock for
  themselves, so the calls interleave at three points. A schedule says which call takes its next
  step; the first steps order the writes to the store and to the store's own log, the second
  steps order the entries of the service's log, the third steps the messages to the subscribers.
\<close>

section \<open>The calls and their steps\<close>

record set_rpc =
  q_actor :: actor_id
  q_key :: key
  q_value :: val
  q_time :: int
  q_stamp1 :: u64
  q_stamp2 :: u64

text \<open>Where a call is, or how it has ended: with a response, or without one.\<close>

datatype set_stage = In_store | In_log | In_publish | Ended "bool outcome"

type_synonym 'cb calls = "'cb service \<times> (set_rpc \<times> set_stage) list"

definition part_store :: "set_rpc \<Rightarrow> (bool, 'cb) sv_prog" where
  "part_store q = on_store (ms_set (q_actor q) (q_key q) (q_value q) None (q_time q) (q_stamp1 q))"

definition part_log :: "set_rpc \<Rightarrow> (unit, 'cb) sv_prog" where
  "part_log q = catchP (on_wal (wal_append (q_actor q) (q_key q) (q_value q) (q_stamp2 q))) (\<lambda>_. ret ())"

definition change_of :: "set_rpc \<Rightarrow> change" where
  "change_of q = \<lparr>ch_actor = q_actor q, ch_key = q_key q, ch_value = q_value q, ch_event = ''UPDATED''\<rparr>"

definition part_publish :: "set_rpc \<Rightarrow> (unit, 'cb) sv_prog" where
  "part_publish q = on_hub (publish_change (change_of q))"

fun set_step :: "set_rpc \<Rightarrow> set_stage \<Rightarrow> 'cb service \<Rightarrow> set_stage \<times> 'cb service" where
  "set_step q In_store v = (case part_store q v of (r, v') \<Rightarrow>
     (case r of Ret True \<Rightarrow> In_log | _ \<Rightarrow> Ended r, v'))"
| "set_step q In_log v = (case part_log q v of (r, v') \<Rightarrow>
     (case r of Ret _ \<Rightarrow> In_publish | _ \<Rightarrow> Ended (abort_of r), v'))"
| "set_step q In_publish v = (case part_publish q v of (r, v') \<Rightarrow>
     (case r of Ret _ \<Rightarrow> Ended (Ret True) | _ \<Rightarrow> Ended (abort_of r), v'))"
| "set_step q (Ended r) v = (Ended r, v)"

definition advance_call :: "nat \<Rightarrow> 'cb calls \<Rightarrow> 'cb calls" where
  "advance_call i = (\<lambda>(v, cs). if i < length cs then
     (case set_step (fst (cs ! i)) (snd (cs ! i)) v of (st, v') \<Rightarrow> (v', cs[i := (fst (cs ! i), st)]))
   else (v, cs))"

definition start_calls :: "set_rpc list \<Rightarrow> (set_rpc \<times> set_stage) list" where
  "start_calls qs = map (\<lambda>q. (q, In_store)) qs"

text \<open>The order in which the calls take their step number \<open>n\<close> (from 0) in a schedule.\<close>

definition turns :: "nat \<Rightarrow> nat list \<Rightarrow> nat list" where
  "turns n xs = map (\<lambda>j. xs ! j) (filter (\<lambda>j. count_list (take j xs) (xs ! j) = n) [0..<length xs])"

lemma turns_simps [simp]:
  "turns n [] = []"
  "turns n (xs @ [i]) = turns n xs @ (if count_list xs i = n then [i] else [])"
proof -
  have "map (\<lambda>j. (xs @ [i]) ! j) (filter (\<lambda>j. count_list (take j (xs @ [i])) ((xs @ [i]) ! j) = n) [0..<length xs]) =
      turns n xs"
    by (auto simp: turns_def nth_append intro!: map_cong filter_cong)
  then show "turns n (xs @ [i]) = turns n xs @ (if count_list xs i = n then [i] else [])"
    by (simp add: turns_def)
qed (simp add: turns_def)

section \<open>Alone, a call does what the handler does\<close>

lemma set_step_alone:
  "(let (st1, v1) = set_step q In_store v; (st2, v2) = set_step q st1 v1 in set_step q st2 v2) =
   (case sv_set (q_actor q) (q_key q) (q_value q) (q_time q) (q_stamp1 q) (q_stamp2 q) v of (r, v') \<Rightarrow> (Ended r, v'))"
  by (auto simp: sv_set_def part_store_def [symmetric] part_log_def [symmetric] part_publish_def [symmetric] change_of_def [symmetric]
      bindP_def ret_def split: prod.splits outcome.splits bool.splits)

lemma advance_at:
  assumes "i < length cs" and "cs ! i = (q, st)" and "set_step q st v = (st', v')"
  shows "advance_call i (v, cs) = (v', cs[i := (q, st')])"
  using assms by (simp add: advance_call_def)

text \<open>Three steps of one call in a row are the handler of \<^verbatim>\<open>Server\<close>, whatever the other calls are
  waiting at.\<close>

theorem set_alone_is_handler:
  assumes "i < length cs" and "cs ! i = (q, In_store)"
    and "sv_set (q_actor q) (q_key q) (q_value q) (q_time q) (q_stamp1 q) (q_stamp2 q) v = (r, v')"
  shows "fold advance_call [i, i, i] (v, cs) = (v', cs[i := (q, Ended r)])"
proof -
  obtain st1 v1 where s1: "set_step q In_store v = (st1, v1)" by (rule prod.exhaust)
  obtain st2 v2 where s2: "set_step q st1 v1 = (st2, v2)" by (rule prod.exhaust)
  have s3: "set_step q st2 v2 = (Ended r, v')" using set_step_alone [of q v] s1 s2 assms(3) by simp
  show ?thesis using assms(1) advance_at [OF assms(1,2) s1] advance_at [OF _ _ s2, of i "cs[i := (q, st1)]"]
      advance_at [OF _ _ s3, of i "cs[i := (q, st2)]"] by simp
qed

section \<open>Two logs on one file system\<close>

definition files_of :: "wal \<Rightarrow> string set" where
  "files_of w = {w_path w, w_path w @ ''.1''}"

text \<open>No name and no inode belongs to both logs.\<close>

definition apart :: "wal \<Rightarrow> wal \<Rightarrow> fs \<Rightarrow> bool" where
  "apart w1 w2 f \<longleftrightarrow> files_of w1 \<inter> files_of w2 = {} \<and>
     (\<forall>x \<in> files_of w1. \<forall>y \<in> files_of w2. fs_names f x = fs_names f y \<longrightarrow> fs_names f x = None)"

lemma apart_sym: "apart w1 w2 f = apart w2 w1 f"
  unfolding apart_def by (metis Int_commute)

text \<open>What an append to a good log does to the files: new data goes to the open inode only, and
  the names of the log are rebound, if at all, to the open inode or to a new one.\<close>

lemma append_files:
  assumes "wal_ok w f i" and "wal_append a k v now (w, f) = (r, w', f')"
  shows "w_path w' = w_path w \<and> fs_next f \<le> fs_next f' \<and> fs_can_open f' = fs_can_open f \<and>
    (\<forall>x. x \<notin> files_of w \<longrightarrow> fs_names f' x = fs_names f x) \<and>
    (\<forall>x j. fs_names f' x = Some j \<longrightarrow> fs_names f x = Some j \<or> j = i \<or> fs_next f \<le> j) \<and>
    (\<forall>j. j < fs_next f \<longrightarrow> j \<noteq> i \<longrightarrow> fs_data f' j = fs_data f j)"
proof -
  from assms(1) have ok: "w_file w = \<lparr>of_open = Some i, of_fail = False\<rparr>" "fs_names f (w_path w) = Some i"
    "fs_can_open f (w_path w)" by (simp_all add: wal_ok_def)
  show ?thesis using assms(2) ok
    by (cases "w_handler w")
      (auto simp: wal_append_def wal_write_def Let_def prog_simps fs_size_def fs_content_def fs_write_def
        wal_rotate_def fs_rename_def fs_create_def open_log_def stream_open_app_def stream_close_def
        wal_notify_handler_def files_of_def split: if_splits outcome.splits)
qed

text \<open>So an append to one log changes nothing that the other log is about.\<close>

lemma append_apart:
  assumes rel: "wal_rel w f sl" "wal_rel u f sl2" and ht: "handler_total w" and ap: "apart w u f"
    and run: "wal_append a k v now (w, f) = (r, w', f')"
  shows "wal_rel u f' sl2 \<and> apart w' u f'"
proof -
  from rel(1) obtain i where i: "wal_ok w f i" by (auto simp: wal_rel_def)
  from rel(2) obtain j where j: "wal_ok u f j" by (auto simp: wal_rel_def)
  note F = append_files [OF i run]
  from append_step [OF rel(1) ht, of a k v now] run have "wal_rel w' f' (seg_append (w_max w) (next_entry w a k v now) sl)"
    by auto
  then obtain i' where i': "wal_ok w' f' i'" by (auto simp: wal_rel_def)
  have names: "fs_names f' y = fs_names f y" if "y \<in> files_of u" for y
    using F ap that by (auto simp: apart_def)
  have inode: "n \<noteq> i \<and> n < fs_next f" if "y \<in> files_of u" "fs_names f y = Some n" for y n
    using that ap i by (auto simp: apart_def files_of_def wal_ok_def)
  have content: "fs_content y f' = fs_content y f" if "y \<in> files_of u" for y
    using that names [OF that] inode [OF that] F by (auto simp: fs_content_def intro!: map_option_cong)
  have mem: "w_path u \<in> files_of u" "w_path u @ ''.1'' \<in> files_of u" by (simp_all add: files_of_def)
  have "wal_ok u f' j"
    using i' j F names [OF mem(1)] names [OF mem(2)] by (simp add: wal_ok_def)
  then have "wal_rel u f' sl2" using rel(2) content [OF mem(1)] content [OF mem(2)] by (auto simp: wal_rel_def)
  moreover have "apart w' u f'"
    unfolding apart_def
  proof (intro conjI ballI impI)
    show "files_of w' \<inter> files_of u = {}" using ap F by (simp add: apart_def files_of_def)
    fix x y assume xy: "x \<in> files_of w'" "y \<in> files_of u" "fs_names f' x = fs_names f' y"
    show "fs_names f' x = None"
    proof (rule ccontr)
      assume "fs_names f' x \<noteq> None"
      then obtain n where n: "fs_names f' x = Some n" by blast
      with xy names have y: "fs_names f y = Some n" by simp
      from n F inode [OF xy(2) y] have "fs_names f x = Some n" by fastforce
      moreover have "x \<in> files_of w" using xy(1) F by (simp add: files_of_def)
      ultimately show False using ap xy(2) y by (metis apart_def option.distinct(1))
    qed
  qed
  ultimately show ?thesis by blast
qed

section \<open>A service ready for writes\<close>

text \<open>\<open>pool_room p n\<close>: the pool accepts \<open>n\<close> more tasks without waiting.\<close>

definition pool_room :: "job pool \<Rightarrow> nat \<Rightarrow> bool" where
  "pool_room p n \<longleftrightarrow> \<not> tp_done p \<and> \<not> bq_stopped (tp_queue p) \<and> length (bq_items (tp_queue p)) + n \<le> bq_max (tp_queue p)"

lemma room_submit:
  assumes "pool_room p (Suc n)"
  shows "tp_ready p" and "pool_room (snd (tp_submit t p)) n"
  using assms by (auto simp: pool_room_def tp_ready_def tp_submit_def bq_push_def bq_enqueue_def)

text \<open>Both logs are good, on files of their own, and hold \<open>sl1\<close> and \<open>sl2\<close>.\<close>

definition set_ready :: "'cb service \<Rightarrow> seglog \<Rightarrow> seglog \<Rightarrow> bool" where
  "set_ready v sl1 sl2 \<longleftrightarrow> ms_mode (sv_store v) = WriteAhead \<and>
     wal_rel (ms_wal (sv_store v)) (ms_fs (sv_store v)) sl1 \<and> handler_total (ms_wal (sv_store v)) \<and>
     wal_rel (sv_wal v) (ms_fs (sv_store v)) sl2 \<and> handler_total (sv_wal v) \<and>
     apart (ms_wal (sv_store v)) (sv_wal v) (ms_fs (sv_store v))"

lemma ms_set_pool:
  assumes "ms_set a k x ttl t wt s = (Ret True, s')"
  shows "ms_pool s' = snd (tp_submit (Notify a k x) (ms_pool s))"
proof -
  from assms obtain u s1 where "ms_log a k x wt (ms_set_entry a k x ttl t s) = (Ret u, s1)"
    and n: "bindP (ms_notify_subscribers a k x) (\<lambda>_. ret True) s1 = (Ret True, s')"
    by (auto simp: ms_set_publish ms_publish_def bindP_eq_Ret)
  from ms_log_frame [OF this(1)] have "ms_pool s1 = ms_pool s" by simp
  with n show ?thesis by (auto simp: bindP_eq_Ret ret_def ms_notify_subscribers_def zoom_def split: prod.splits)
qed

definition store_entry :: "'cb service \<Rightarrow> set_rpc \<Rightarrow> entry" where
  "store_entry v q = next_entry (ms_wal (sv_store v)) (q_actor q) (q_key q) (q_value q) (q_stamp1 q)"

definition service_entry :: "'cb service \<Rightarrow> set_rpc \<Rightarrow> entry" where
  "service_entry v q = next_entry (sv_wal v) (q_actor q) (q_key q) (q_value q) (q_stamp2 q)"

text \<open>The first step, on a service that is ready.\<close>

lemma part_store_ready:
  assumes R: "set_ready v sl1 sl2" and room: "pool_room (ms_pool (sv_store v)) (Suc n)"
  shows "\<exists>v'. part_store q v = (Ret True, v') \<and> pool_room (ms_pool (sv_store v')) n \<and>
    set_ready v' (seg_append (w_max (ms_wal (sv_store v))) (store_entry v q) sl1) sl2 \<and>
    ms_values (sv_store v') = (ms_values (sv_store v))((q_actor q, q_key q) \<mapsto> q_value q) \<and>
    w_seq (ms_wal (sv_store v')) = w_seq (ms_wal (sv_store v)) + 1 \<and>
    w_max (ms_wal (sv_store v')) = w_max (ms_wal (sv_store v)) \<and> sv_wal v' = sv_wal v \<and> sv_hub v' = sv_hub v"
proof -
  let ?s = "sv_store v"
  from R have d: "ms_mode ?s = WriteAhead" "wal_rel (ms_wal ?s) (ms_fs ?s) sl1" "handler_total (ms_wal ?s)"
    "wal_rel (sv_wal v) (ms_fs ?s) sl2" "handler_total (sv_wal v)" "apart (ms_wal ?s) (sv_wal v) (ms_fs ?s)"
    by (simp_all add: set_ready_def)
  from ms_set_good [OF d(1-3) room_submit(1) [OF room], of "q_actor q" "q_key q" "q_value q" None "q_time q" "q_stamp1 q"]
  obtain s1 where set: "ms_set (q_actor q) (q_key q) (q_value q) None (q_time q) (q_stamp1 q) ?s = (Ret True, s1)"
    by blast
  have app: "wal_append (q_actor q) (q_key q) (q_value q) (q_stamp1 q) (ms_wal ?s, ms_fs ?s) = (Ret (), ms_wal s1, ms_fs s1)"
    by (rule ms_set_write_ahead [OF d(1-3) set])
  from append_step [OF d(2,3), of "q_actor q" "q_key q" "q_value q" "q_stamp1 q"] app
  have w: "wal_rel (ms_wal s1) (ms_fs s1) (seg_append (w_max (ms_wal ?s)) (store_entry v q) sl1)"
    "w_seq (ms_wal s1) = w_seq (ms_wal ?s) + 1" "w_max (ms_wal s1) = w_max (ms_wal ?s)"
    "w_handler (ms_wal s1) = w_handler (ms_wal ?s)" by (auto simp: store_entry_def)
  have ap: "wal_rel (sv_wal v) (ms_fs s1) sl2" "apart (ms_wal s1) (sv_wal v) (ms_fs s1)"
    using append_apart [OF d(2,4,3,6) app] by simp_all
  have vals: "ms_values s1 = (ms_values ?s)((q_actor q, q_key q) \<mapsto> q_value q)"
    using ms_kv.look_put [of "(q_actor q, q_key q, q_value q, None, q_time q, q_stamp1 q)" ?s] set
    by (simp add: ms_set_call_snd del: ms_set_call.simps)
  have "set_ready (v\<lparr>sv_store := s1\<rparr>) (seg_append (w_max (ms_wal ?s)) (store_entry v q) sl1) sl2"
    using d w ap ms_set_store [OF set] by (simp add: set_ready_def handler_total_def)
  moreover have "part_store q v = (Ret True, v\<lparr>sv_store := s1\<rparr>)"
    using set by (simp add: part_store_def on_store_def zoom_def)
  ultimately show ?thesis using w vals room_submit(2) [OF room] ms_set_pool [OF set] by simp
qed

text \<open>The second step.\<close>

lemma part_log_ready:
  assumes R: "set_ready v sl1 sl2"
  shows "\<exists>v'. part_log q v = (Ret (), v') \<and>
    set_ready v' sl1 (seg_append (w_max (sv_wal v)) (service_entry v q) sl2) \<and>
    w_seq (sv_wal v') = w_seq (sv_wal v) + 1 \<and> w_max (sv_wal v') = w_max (sv_wal v) \<and>
    ms_values (sv_store v') = ms_values (sv_store v) \<and> ms_wal (sv_store v') = ms_wal (sv_store v) \<and>
    ms_pool (sv_store v') = ms_pool (sv_store v) \<and> sv_hub v' = sv_hub v"
proof -
  let ?s = "sv_store v"
  from R have d: "ms_mode ?s = WriteAhead" "wal_rel (ms_wal ?s) (ms_fs ?s) sl1" "handler_total (ms_wal ?s)"
    "wal_rel (sv_wal v) (ms_fs ?s) sl2" "handler_total (sv_wal v)" "apart (sv_wal v) (ms_wal ?s) (ms_fs ?s)"
    by (simp_all add: set_ready_def apart_sym)
  from append_step [OF d(4,5), of "q_actor q" "q_key q" "q_value q" "q_stamp2 q"] obtain w f where
    app: "wal_append (q_actor q) (q_key q) (q_value q) (q_stamp2 q) (sv_wal v, ms_fs ?s) = (Ret (), w, f)"
    and w: "wal_rel w f (seg_append (w_max (sv_wal v)) (service_entry v q) sl2)" "w_seq w = w_seq (sv_wal v) + 1"
    "w_max w = w_max (sv_wal v)" "w_handler w = w_handler (sv_wal v)" by (auto simp: service_entry_def)
  let ?v = "v\<lparr>sv_wal := w, sv_store := ?s\<lparr>ms_fs := f\<rparr>\<rparr>"
  have "part_log q v = (Ret (), ?v)" using app by (simp add: part_log_def catchP_def on_wal_def zoom_def)
  moreover have "set_ready ?v sl1 (seg_append (w_max (sv_wal v)) (service_entry v q) sl2)"
    using d w append_apart [OF d(4,2,5,6) app] by (simp add: set_ready_def handler_total_def apart_sym)
  ultimately show ?thesis using w by (intro exI [of _ ?v]) simp
qed

text \<open>The third step.\<close>

lemma part_publish_run:
  "publish_change (change_of q) (sv_hub v) = (r, h) \<Longrightarrow> part_publish q v = (r, v\<lparr>sv_hub := h\<rparr>)"
  by (simp add: part_publish_def on_hub_def zoom_def)

lemma set_ready_hub [simp]: "set_ready (v\<lparr>sv_hub := h\<rparr>) sl1 sl2 = set_ready v sl1 sl2"
  by (simp add: set_ready_def)

section \<open>Any interleaving of any number of calls\<close>

fun stage_of :: "nat \<Rightarrow> set_stage" where
  "stage_of n = (if n = 0 then In_store else if n = 1 then In_log else if n = 2 then In_publish else Ended (Ret True))"

text \<open>What the two logs are given by the calls \<open>qs\<close>, in the orders of their first and second steps.\<close>

definition store_writes :: "set_rpc list \<Rightarrow> nat list \<Rightarrow> append_call list" where
  "store_writes qs sched = map (\<lambda>i. (q_actor (qs ! i), q_key (qs ! i), q_value (qs ! i), q_stamp1 (qs ! i))) (turns 0 sched)"

definition service_writes :: "set_rpc list \<Rightarrow> nat list \<Rightarrow> append_call list" where
  "service_writes qs sched = map (\<lambda>i. (q_actor (qs ! i), q_key (qs ! i), q_value (qs ! i), q_stamp2 (qs ! i))) (turns 1 sched)"

text \<open>What the hub is given, in the order of the third steps.\<close>

definition published :: "set_rpc list \<Rightarrow> nat list \<Rightarrow> event list" where
  "published qs sched = map (\<lambda>i. Publish (change_of (qs ! i))) (turns 2 sched)"

lemma publish_idle_all: "hub_idle h \<Longrightarrow> seqP exec (map (\<lambda>i. Publish (f i)) is) h = (Ret (), h)"
  by (induction "is") simp_all

lemma published_idle: "hub_idle h \<Longrightarrow> seqP exec (published qs sched) h = (Ret (), h)"
  by (simp add: published_def publish_idle_all)

lemma entries_from_snoc:
  "entries_from n (cs @ [(a, k, x, now)]) = entries_from n cs @
     [\<lparr>e_seq = n + of_nat (length cs) + 1, e_actor = a, e_key = k, e_value = x, e_ts = now\<rparr>]"
  by (induction cs arbitrary: n) (auto simp: algebra_simps)

lemma set_turns: "set (turns n xs) \<subseteq> set xs"
  by (auto simp: turns_def)

lemma turns_distinct: "distinct (turns n xs) \<and> (\<forall>i \<in> set (turns n xs). n < count_list xs i)"
  by (induction xs rule: rev_induct) auto

lemma turns_length:
  assumes "set xs \<subseteq> {..<m}"
  shows "length (turns n xs) \<le> m"
proof -
  have "length (turns n xs) = card (set (turns n xs))" using turns_distinct by (metis distinct_card)
  also have "\<dots> \<le> card {..<m}" by (rule card_mono) (use assms set_turns in auto)
  finally show ?thesis by simp
qed

text \<open>The state that a schedule has led to.\<close>

definition reached :: "'cb service \<Rightarrow> set_rpc list \<Rightarrow> seglog \<Rightarrow> seglog \<Rightarrow> nat list \<Rightarrow> 'cb calls \<Rightarrow> bool" where
  "reached v0 qs sl1 sl2 sched = (\<lambda>(v, cs).
     (let es1 = entries_from (w_seq (ms_wal (sv_store v0))) (store_writes qs sched);
          es2 = entries_from (w_seq (sv_wal v0)) (service_writes qs sched)
      in cs = map (\<lambda>j. (qs ! j, stage_of (count_list sched j))) [0..<length qs] \<and>
        ms_values (sv_store v) = ms_values (sv_store v0) ++ log_map es1 \<and>
        set_ready v (fold (seg_append (w_max (ms_wal (sv_store v0)))) es1 sl1)
          (fold (seg_append (w_max (sv_wal v0))) es2 sl2) \<and>
        pool_room (ms_pool (sv_store v)) (length qs - length (turns 0 sched)) \<and>
        w_seq (ms_wal (sv_store v)) = w_seq (ms_wal (sv_store v0)) + of_nat (length (turns 0 sched)) \<and>
        w_max (ms_wal (sv_store v)) = w_max (ms_wal (sv_store v0)) \<and>
        w_seq (sv_wal v) = w_seq (sv_wal v0) + of_nat (length (turns 1 sched)) \<and>
        w_max (sv_wal v) = w_max (sv_wal v0) \<and>
        seqP exec (published qs sched) (sv_hub v0) = (Ret (), sv_hub v)))"

lemma stages_upd:
  assumes "i < n"
  shows "(map (\<lambda>j. (g j, stage_of (count_list xs j))) [0..<n])[i := (g i, stage_of (Suc (count_list xs i)))] =
    map (\<lambda>j. (g j, stage_of (count_list (xs @ [i]) j))) [0..<n]"
  by (rule nth_equalityI) (use assms in \<open>auto simp: nth_list_update simp del: stage_of.simps\<close>)

lemma reached_step:
  assumes R: "reached v0 qs sl1 sl2 sched (v, cs)" and i: "i < length qs" and sub: "set (sched @ [i]) \<subseteq> {..<length qs}"
    and pub: "fst (seqP exec (published qs (sched @ [i])) (sv_hub v0)) = Ret ()"
  shows "reached v0 qs sl1 sl2 (sched @ [i]) (advance_call i (v, cs))"
proof -
  let ?q = "qs ! i" and ?n = "count_list sched i"
  let ?es1 = "entries_from (w_seq (ms_wal (sv_store v0))) (store_writes qs sched)"
  let ?es2 = "entries_from (w_seq (sv_wal v0)) (service_writes qs sched)"
  let ?sl1 = "fold (seg_append (w_max (ms_wal (sv_store v0)))) ?es1 sl1"
  let ?sl2 = "fold (seg_append (w_max (sv_wal v0))) ?es2 sl2"
  from R have cs: "cs = map (\<lambda>j. (qs ! j, stage_of (count_list sched j))) [0..<length qs]"
    and vals: "ms_values (sv_store v) = ms_values (sv_store v0) ++ log_map ?es1"
    and ready: "set_ready v ?sl1 ?sl2"
    and room: "pool_room (ms_pool (sv_store v)) (length qs - length (turns 0 sched))"
    and seq: "w_seq (ms_wal (sv_store v)) = w_seq (ms_wal (sv_store v0)) + of_nat (length (turns 0 sched))"
      "w_seq (sv_wal v) = w_seq (sv_wal v0) + of_nat (length (turns 1 sched))"
    and mx: "w_max (ms_wal (sv_store v)) = w_max (ms_wal (sv_store v0))" "w_max (sv_wal v) = w_max (sv_wal v0)"
    and hub: "seqP exec (published qs sched) (sv_hub v0) = (Ret (), sv_hub v)"
    by (simp_all add: reached_def Let_def)
  have at: "cs ! i = (?q, stage_of ?n)" "i < length cs" using i cs by simp_all
  have adv: "advance_call i (v, cs) =
      (v', map (\<lambda>j. (qs ! j, stage_of (count_list (sched @ [i]) j))) [0..<length qs])"
    if "set_step ?q (stage_of ?n) v = (stage_of (Suc ?n), v')" for v'
    using advance_at [OF at(2,1) that] stages_upd [OF i, of "(!) qs" sched] cs by (simp del: stage_of.simps)
  consider "?n = 0" | "?n = 1" | "?n = 2" | "?n \<ge> 3" by linarith
  then show ?thesis
  proof cases
    case 1
    have "length (turns 0 (sched @ [i])) \<le> length qs" by (rule turns_length [OF sub])
    with 1 have "length qs - length (turns 0 sched) = Suc (length qs - length (turns 0 (sched @ [i])))" by simp
    with room have "pool_room (ms_pool (sv_store v)) (Suc (length qs - length (turns 0 (sched @ [i]))))" by simp
    from part_store_ready [OF ready this, of ?q] obtain v' where v': "part_store ?q v = (Ret True, v')"
      "pool_room (ms_pool (sv_store v')) (length qs - length (turns 0 (sched @ [i])))"
      "set_ready v' (seg_append (w_max (ms_wal (sv_store v))) (store_entry v ?q) ?sl1) ?sl2"
      "ms_values (sv_store v') = (ms_values (sv_store v))((q_actor ?q, q_key ?q) \<mapsto> q_value ?q)"
      "w_seq (ms_wal (sv_store v')) = w_seq (ms_wal (sv_store v)) + 1"
      "w_max (ms_wal (sv_store v')) = w_max (ms_wal (sv_store v))" "sv_wal v' = sv_wal v" "sv_hub v' = sv_hub v" by blast
    have es: "entries_from (w_seq (ms_wal (sv_store v0))) (store_writes qs (sched @ [i])) = ?es1 @ [store_entry v ?q]"
      using 1 by (simp add: store_writes_def entries_from_snoc store_entry_def next_entry_def seq)
    have "log_map (?es1 @ [store_entry v ?q]) = (log_map ?es1)((q_actor ?q, q_key ?q) \<mapsto> q_value ?q)"
      by (simp add: store_entry_def next_entry_def)
    moreover have "service_writes qs (sched @ [i]) = service_writes qs sched" "published qs (sched @ [i]) = published qs sched"
      using 1 by (simp_all add: service_writes_def published_def)
    moreover have "advance_call i (v, cs) =
        (v', map (\<lambda>j. (qs ! j, stage_of (count_list (sched @ [i]) j))) [0..<length qs])"
      by (rule adv) (use 1 v'(1) in simp)
    ultimately show ?thesis using 1 v' vals seq mx hub unfolding reached_def Let_def prod.case es
      by (simp add: algebra_simps del: stage_of.simps)
  next
    case 2
    from part_log_ready [OF ready, of ?q] obtain v' where v': "part_log ?q v = (Ret (), v')"
      "set_ready v' ?sl1 (seg_append (w_max (sv_wal v)) (service_entry v ?q) ?sl2)"
      "w_seq (sv_wal v') = w_seq (sv_wal v) + 1" "w_max (sv_wal v') = w_max (sv_wal v)"
      "ms_values (sv_store v') = ms_values (sv_store v)" "ms_wal (sv_store v') = ms_wal (sv_store v)"
      "ms_pool (sv_store v') = ms_pool (sv_store v)" "sv_hub v' = sv_hub v" by blast
    have es: "entries_from (w_seq (sv_wal v0)) (service_writes qs (sched @ [i])) = ?es2 @ [service_entry v ?q]"
      using 2 by (simp add: service_writes_def entries_from_snoc service_entry_def next_entry_def seq)
    have "store_writes qs (sched @ [i]) = store_writes qs sched" "published qs (sched @ [i]) = published qs sched"
      using 2 by (simp_all add: store_writes_def published_def)
    moreover have "advance_call i (v, cs) =
        (v', map (\<lambda>j. (qs ! j, stage_of (count_list (sched @ [i]) j))) [0..<length qs])"
      by (rule adv) (use 2 v'(1) in simp)
    ultimately show ?thesis using 2 v' vals seq mx room hub unfolding reached_def Let_def prod.case es
      by (simp add: algebra_simps del: stage_of.simps)
  next
    case 3
    have pub2: "published qs (sched @ [i]) = published qs sched @ [Publish (change_of ?q)]"
      using 3 by (simp add: published_def)
    obtain r h where h: "publish_change (change_of ?q) (sv_hub v) = (r, h)" by (rule prod.exhaust)
    with pub hub have r: "r = Ret ()" by (cases r) (auto simp: pub2 seqP_append)
    let ?v = "v\<lparr>sv_hub := h\<rparr>"
    have "set_step ?q (stage_of ?n) v = (stage_of (Suc ?n), ?v)"
      using 3 part_publish_run [OF h] r by simp
    from adv [OF this] show ?thesis using 3 vals ready room seq mx hub h r pub2
      by (simp add: reached_def Let_def store_writes_def service_writes_def seqP_append del: stage_of.simps)
  next
    case 4
    have "set_step ?q (stage_of ?n) v = (stage_of (Suc ?n), v)" using 4 by simp
    from adv [OF this] show ?thesis using 4 vals ready room seq mx hub
      by (simp add: reached_def Let_def store_writes_def service_writes_def published_def del: stage_of.simps)
  qed
qed

lemma reached_run:
  assumes "set_ready v sl1 sl2" and "pool_room (ms_pool (sv_store v)) (length qs)" and "set sched \<subseteq> {..<length qs}"
    and "fst (seqP exec (published qs sched) (sv_hub v)) = Ret ()"
  shows "reached v qs sl1 sl2 sched (fold advance_call sched (v, start_calls qs))"
  using assms(3,4)
proof (induction sched rule: rev_induct)
  case Nil
  have "start_calls qs = map (\<lambda>j. (qs ! j, In_store)) [0..<length qs]"
    by (rule nth_equalityI) (simp_all add: start_calls_def)
  with assms(1,2) show ?case by (simp add: reached_def Let_def store_writes_def service_writes_def published_def)
next
  case (snoc i xs)
  obtain v' cs where st: "fold advance_call xs (v, start_calls qs) = (v', cs)" by (rule prod.exhaust)
  have "\<exists>es. published qs (xs @ [i]) = published qs xs @ es" by (simp add: published_def)
  then have "fst (seqP exec (published qs xs) (sv_hub v)) = Ret ()"
    using snoc.prems(2) by (auto simp: seqP_append split: prod.splits outcome.splits)
  with snoc st have "reached v qs sl1 sl2 xs (v', cs)" by simp
  from reached_step [OF this _ snoc.prems] snoc.prems st show ?case by simp
qed

text \<open>The service that \<open>main\<close> builds where there are no log files yet is ready for writes.\<close>

lemma main_ready:
  assumes "main_service cpus f = Ret v" and "fs_wf f" and "fs_can_open f ''wal.log''" and "fs_can_open f ''custom.wal''"
    and "fs_names f ''wal.log'' = None" "fs_names f ''wal.log.1'' = None"
    and "fs_names f ''custom.wal'' = None" "fs_names f ''custom.wal.1'' = None"
  shows "set_ready v ([], None) ([], None)" and "n \<le> 4294967295 \<Longrightarrow> pool_room (ms_pool (sv_store v)) n"
    and "w_seq (ms_wal (sv_store v)) = 0 \<and> w_seq (sv_wal v) = 0 \<and> w_max (sv_wal v) = wal_default_max \<and>
      w_path (sv_wal v) = ''custom.wal'' \<and> hub_idle (sv_hub v)"
proof -
  have lt: "\<And>p j. fs_names f p = Some j \<Longrightarrow> j < fs_next f" using assms(2) by (auto simp: fs_wf_def)
  let ?f1 = "fs_create ''wal.log'' f"
  let ?w = "\<lambda>p i. \<lparr>w_path = p, w_file = \<lparr>of_open = Some i, of_fail = False\<rparr>,
    w_max = wal_default_max, w_seq = 0, w_handler = None, w_calls = []\<rparr>"
  have c0: "wal_ctor wal_default_path wal_default_max f = (Ret (), ?w ''wal.log'' (fs_next f), ?f1)"
    using assms(3,5) by (simp add: wal_ctor_def open_log_def stream_open_app_def wal_default_path_def)
  have c1: "wal_ctor ''custom.wal'' wal_default_max ?f1 =
      (Ret (), ?w ''custom.wal'' (Suc (fs_next f)), fs_create ''custom.wal'' ?f1)"
    using assms(4,7) by (simp add: wal_ctor_def open_log_def stream_open_app_def fs_create_def)
  let ?f2 = "fs_create ''custom.wal'' ?f1"
  have v: "ms_mode (sv_store v) = WriteAhead" "ms_wal (sv_store v) = ?w ''wal.log'' (fs_next f)"
    "sv_wal v = ?w ''custom.wal'' (Suc (fs_next f))" "ms_fs (sv_store v) = ?f2" "ms_pool (sv_store v) = tp_new cpus"
    "sv_hub v = hb_new"
    using assms(1) c0 c1
    by (auto simp: main_service_def default_store_def sv_create_def with_wal_def ms_new_def)
  have names: "fs_names ?f2 = (fs_names f)(''wal.log'' \<mapsto> fs_next f, ''custom.wal'' \<mapsto> Suc (fs_next f))"
    "fs_next ?f2 = Suc (Suc (fs_next f))" "fs_can_open ?f2 = fs_can_open f"
    "fs_data ?f2 (fs_next f) = []" "fs_data ?f2 (Suc (fs_next f)) = []" by (simp_all add: fs_create_def)
  have rel: "wal_rel (?w ''wal.log'' (fs_next f)) ?f2 ([], None)" "wal_rel (?w ''custom.wal'' (Suc (fs_next f))) ?f2 ([], None)"
    using assms(3-8) by (auto simp: wal_rel_def wal_ok_def names fs_content_def dest: lt intro: less_SucI)
  have "apart (?w ''wal.log'' (fs_next f)) (?w ''custom.wal'' (Suc (fs_next f))) ?f2"
    using assms(6,8) by (simp add: apart_def files_of_def names)
  with rel v show "set_ready v ([], None) ([], None)"
    by (simp add: set_ready_def handler_total_def)
  show "n \<le> 4294967295 \<Longrightarrow> pool_room (ms_pool (sv_store v)) n" using v by (simp add: pool_room_def tp_new_def)
  show "w_seq (ms_wal (sv_store v)) = 0 \<and> w_seq (sv_wal v) = 0 \<and> w_max (sv_wal v) = wal_default_max \<and>
      w_path (sv_wal v) = ''custom.wal'' \<and> hub_idle (sv_hub v)" using v by (simp add: hub_idle_def hb_new_def)
qed

lemma empty_main_ready:
  obtains v :: "string service" where "main_service 2 empty_fs = Ret v" and "set_ready v ([], None) ([], None)"
    and "pool_room (ms_pool (sv_store v)) 2" and "w_seq (ms_wal (sv_store v)) = 0" and "w_seq (sv_wal v) = 0"
    and "w_max (sv_wal v) = wal_default_max" and "w_path (sv_wal v) = ''custom.wal''" and "hub_idle (sv_hub v)"
proof -
  obtain v :: "string service" where v: "main_service 2 empty_fs = Ret v" using empty_fs_main by blast
  have e: "fs_wf empty_fs" "fs_can_open empty_fs p" "fs_names empty_fs p = None" for p
    by (simp_all add: empty_fs_def fs_wf_def)
  note R = main_ready [OF v e(1,2,2,3,3,3,3)]
  show thesis by (rule that [OF v R(1) R(2)]) (use R(3) in simp_all)
qed

text \<open>Two calls, the second overtaking the first between the store and the log.\<close>

definition overtaking :: "nat list" where
  "overtaking = [0, 1, 1, 0, 0, 1]"

lemma overtaking_simps [simp]:
  "turns 0 overtaking = [0, Suc 0]" "turns (Suc 0) overtaking = [Suc 0, 0]"
  "count_list overtaking 0 = 3" "count_list overtaking (Suc 0) = 3" "set overtaking = {0, 1}"
  by (auto simp: overtaking_def turns_def upt_rec)

text \<open>C5: Concurrent calls of \<open>Set\<close> refine sequential writes, in three orders: in every interleaving of any
  number of calls whose messages the subscribers' queues take, every call that has taken its three
  steps has reported success; the values of the store and the store's own log are those of the
  calls in the order of their first steps, the service's log is that of the calls in the order of
  their second steps, and the subscribers have been sent the changes in the order of the third; the
  store and its own log agree at every moment.\<close>

theorem concurrent_sets:
  assumes "set_ready v sl1 sl2" and "pool_room (ms_pool (sv_store v)) (length qs)" and "set sched \<subseteq> {..<length qs}"
    and "seqP exec (published qs sched) (sv_hub v) = (Ret (), h)"
    and "fold advance_call sched (v, start_calls qs) = (v', cs)"
    and "es1 = entries_from (w_seq (ms_wal (sv_store v))) (store_writes qs sched)"
    and "es2 = entries_from (w_seq (sv_wal v)) (service_writes qs sched)"
  shows "cs = map (\<lambda>j. (qs ! j, stage_of (count_list sched j))) [0..<length qs] \<and>
    ms_values (sv_store v') = ms_values (sv_store v) ++ log_map es1 \<and>
    wal_rel (ms_wal (sv_store v')) (ms_fs (sv_store v')) (fold (seg_append (w_max (ms_wal (sv_store v)))) es1 sl1) \<and>
    wal_rel (sv_wal v') (ms_fs (sv_store v')) (fold (seg_append (w_max (sv_wal v))) es2 sl2) \<and>
    sv_hub v' = h"
  using reached_run [OF assms(1-3)] assms(4-7) by (simp add: reached_def Let_def set_ready_def)

theorem concurrent_sets_witness:
  "\<exists>(v :: string service) v' cs. main_service 2 empty_fs = Ret v \<and>
     fold advance_call overtaking (v, start_calls
       [\<lparr>q_actor = ''a'', q_key = ''k'', q_value = ''1'', q_time = 0, q_stamp1 = 0, q_stamp2 = 3\<rparr>,
        \<lparr>q_actor = ''a'', q_key = ''k'', q_value = ''2'', q_time = 1, q_stamp1 = 1, q_stamp2 = 2\<rparr>]) = (v', cs) \<and>
     map snd cs = [Ended (Ret True), Ended (Ret True)] \<and> ms_values (sv_store v') (''a'', ''k'') = Some ''2''"
proof -
  obtain v :: "string service" where v: "main_service 2 empty_fs = Ret v" "set_ready v ([], None) ([], None)"
    "pool_room (ms_pool (sv_store v)) 2" "hub_idle (sv_hub v)" by (rule empty_main_ready)
  let ?qs = "[\<lparr>q_actor = ''a'', q_key = ''k'', q_value = ''1'', q_time = 0, q_stamp1 = 0, q_stamp2 = 3\<rparr>,
        \<lparr>q_actor = ''a'', q_key = ''k'', q_value = ''2'', q_time = 1, q_stamp1 = 1, q_stamp2 = 2\<rparr>]"
  obtain v' cs where run: "fold advance_call overtaking (v, start_calls ?qs) = (v', cs)" by (rule prod.exhaust)
  have "pool_room (ms_pool (sv_store v)) (length ?qs)" using v(3) by (simp add: numeral_2_eq_2)
  from concurrent_sets [OF v(2) this _ published_idle [OF v(4)] run refl refl] have
    "cs = map (\<lambda>j. (?qs ! j, stage_of (count_list overtaking j))) [0..<length ?qs]"
    "ms_values (sv_store v') = ms_values (sv_store v) ++
       log_map (entries_from (w_seq (ms_wal (sv_store v))) (store_writes ?qs overtaking))" by simp_all
  then have "map snd cs = [Ended (Ret True), Ended (Ret True)]" "ms_values (sv_store v') (''a'', ''k'') = Some ''2''"
    by (simp_all add: store_writes_def upt_rec log_map_def)
  with v(1) run show ?thesis by (intro exI [of _ v] exI [of _ v'] exI [of _ cs] conjI)
qed

section \<open>The service's log and the store\<close>

text \<open>The service's log can contradict the store: whenever two calls on one key with different
  values are in progress, the order of the log entries can be the opposite of that of the writes,
  so that both clients are told \<open>success\<close>, \<open>Get\<close> returns the second value, and the log of the
  service, the later entry winning, restores the first.\<close>

theorem service_log_disagrees:
  assumes "set_ready v (act1, rot1) (act2, rot2)" and "pool_room (ms_pool (sv_store v)) 2" and "hub_idle (sv_hub v)"
    and "q_actor q1 = q_actor q0" and "q_key q1 = q_key q0" and "q_value q1 \<noteq> q_value q0"
    and "es = entries_from (w_seq (sv_wal v)) (service_writes [q0, q1] overtaking)"
    and "length (log_text (act2 @ es)) < w_max (sv_wal v)"
    and "fold advance_call overtaking (v, start_calls [q0, q1]) = (v', cs)"
  shows "cs = [(q0, Ended (Ret True)), (q1, Ended (Ret True))] \<and>
    ms_values (sv_store v') (q_actor q0, q_key q0) = Some (q_value q1) \<and>
    fs_content (w_path (sv_wal v')) (ms_fs (sv_store v')) = Some (log_text (act2 @ es)) \<and>
    log_map (act2 @ es) (q_actor q0, q_key q0) = Some (q_value q0) \<and>
    log_map (act2 @ es) (q_actor q0, q_key q0) \<noteq> ms_values (sv_store v') (q_actor q0, q_key q0)"
proof -
  let ?sched = "overtaking" and ?qs = "[q0, q1]"
  have "pool_room (ms_pool (sv_store v)) (length ?qs)" using assms(2) by (simp add: numeral_2_eq_2)
  from reached_run [OF assms(1) this, of ?sched] published_idle [OF assms(3)] assms(9)
  have r: "reached v ?qs (act1, rot1) (act2, rot2) ?sched (v', cs)" by simp
  then have "cs = map (\<lambda>j. (?qs ! j, stage_of (count_list ?sched j))) [0..<length ?qs]"
    and vals: "ms_values (sv_store v') = ms_values (sv_store v) ++
       log_map (entries_from (w_seq (ms_wal (sv_store v))) (store_writes ?qs ?sched))"
    and wal: "wal_rel (sv_wal v') (ms_fs (sv_store v')) (act2 @ es, rot2)"
    using fold_seg_append_small [OF assms(8), of rot2] assms(7) by (auto simp: reached_def Let_def set_ready_def)
  then have "cs = [(q0, Ended (Ret True)), (q1, Ended (Ret True))]" by (simp add: upt_rec)
  moreover have "ms_values (sv_store v') (q_actor q0, q_key q0) = Some (q_value q1)"
    using assms(4,5) by (simp add: vals store_writes_def log_map_def)
  moreover have "log_map (act2 @ es) (q_actor q0, q_key q0) = Some (q_value q0)"
    by (simp add: assms(4,5,7) service_writes_def log_map_append) (simp add: log_map_def)
  ultimately show ?thesis using wal assms(6) by (simp add: wal_rel_def del: log_text_simps)
qed

theorem service_log_disagrees_witness:
  "\<exists>(v :: string service) v' cs. main_service 2 empty_fs = Ret v \<and>
     fold advance_call overtaking (v, start_calls
       [\<lparr>q_actor = ''a'', q_key = ''k'', q_value = ''1'', q_time = 0, q_stamp1 = 0, q_stamp2 = 3\<rparr>,
        \<lparr>q_actor = ''a'', q_key = ''k'', q_value = ''2'', q_time = 1, q_stamp1 = 1, q_stamp2 = 2\<rparr>]) = (v', cs) \<and>
     ms_values (sv_store v') (''a'', ''k'') = Some ''2'' \<and>
     fs_content (w_path (sv_wal v')) (ms_fs (sv_store v')) = Some (log_text
       [\<lparr>e_seq = 1, e_actor = ''a'', e_key = ''k'', e_value = ''2'', e_ts = 2\<rparr>,
        \<lparr>e_seq = 2, e_actor = ''a'', e_key = ''k'', e_value = ''1'', e_ts = 3\<rparr>])"
proof -
  obtain v :: "string service" where v: "main_service 2 empty_fs = Ret v" "set_ready v ([], None) ([], None)"
    "pool_room (ms_pool (sv_store v)) 2" "w_seq (sv_wal v) = 0" "w_max (sv_wal v) = wal_default_max" "hub_idle (sv_hub v)"
    by (rule empty_main_ready)
  let ?q0 = "\<lparr>q_actor = ''a'', q_key = ''k'', q_value = ''1'', q_time = 0, q_stamp1 = 0, q_stamp2 = 3\<rparr>"
  let ?q1 = "\<lparr>q_actor = ''a'', q_key = ''k'', q_value = ''2'', q_time = 1, q_stamp1 = 1, q_stamp2 = 2\<rparr>"
  let ?es = "[\<lparr>e_seq = 1, e_actor = ''a'', e_key = ''k'', e_value = ''2'', e_ts = 2\<rparr>,
        \<lparr>e_seq = 2, e_actor = ''a'', e_key = ''k'', e_value = ''1'', e_ts = 3\<rparr>]"
  obtain v' cs where run: "fold advance_call overtaking (v, start_calls [?q0, ?q1]) = (v', cs)" by (rule prod.exhaust)
  have es: "?es = entries_from (w_seq (sv_wal v)) (service_writes [?q0, ?q1] overtaking)"
    by (simp add: v(4) service_writes_def)
  have "length (log_text ([] @ ?es)) < w_max (sv_wal v)"
    by (simp add: v(5) log_text_def wal_line_def show_u64_def show_nat_small wal_default_max_def)
  from service_log_disagrees [OF v(2,3,6) _ _ _ es this run] v(1) run show ?thesis
    by (intro exI [of _ v] exI [of _ v'] exI [of _ cs]) (simp del: log_text_simps)
qed

text \<open>Two calls, the second overtaking the first between the log and the subscribers.\<close>

definition late_notice :: "nat list" where
  "late_notice = [0, 1, 0, 1, 1, 0]"

lemma late_notice_simps [simp]:
  "turns 0 late_notice = [0, Suc 0]" "turns (Suc 0) late_notice = [0, Suc 0]" "turns 2 late_notice = [Suc 0, 0]"
  "count_list late_notice 0 = 3" "count_list late_notice (Suc 0) = 3" "set late_notice = {0, 1}"
  by (auto simp: late_notice_def turns_def upt_rec)

text \<open>A subscriber can be left with the wrong value: whenever two calls on one key are in progress, the
  order in which they publish can be the opposite of the order in which they write, so that the
  last message of every client listening to the actor carries the first value, while the store
  and both logs have the second, and no further message corrects it.\<close>

theorem subscriber_disagrees:
  assumes "set_ready v sl1 sl2" and "pool_room (ms_pool (sv_store v)) 2"
    and "q_actor q1 = q_actor q0" and "q_key q1 = q_key q0"
    and "hub_inv n (sv_hub v)" and "reg_ok (sv_hub v)" and "i < length (hb_streams (sv_hub v))"
    and "on (hb_streams (sv_hub v) ! i)" and "st_actor (hb_streams (sv_hub v) ! i) = q_actor q0"
    and "seqP exec [Publish (change_of q1), Publish (change_of q0)] (sv_hub v) = (Ret (), h)"
    and "fold advance_call late_notice (v, start_calls [q0, q1]) = (v', cs)"
  shows "cs = [(q0, Ended (Ret True)), (q1, Ended (Ret True))] \<and>
    ms_values (sv_store v') (q_actor q0, q_key q0) = Some (q_value q1) \<and>
    bq_items (st_inbound (hb_streams (sv_hub v') ! i)) =
      bq_items (st_inbound (hb_streams (sv_hub v) ! i)) @ [change_of q1, change_of q0]"
proof -
  let ?qs = "[q0, q1]"
  have room: "pool_room (ms_pool (sv_store v)) (length ?qs)" using assms(2) by (simp add: numeral_2_eq_2)
  have pub: "published ?qs late_notice = [Publish (change_of q1), Publish (change_of q0)]"
    by (simp add: published_def)
  from reached_run [OF assms(1) room, of late_notice] pub assms(10,11)
  have r: "reached v ?qs sl1 sl2 late_notice (v', cs)" by simp
  then have "cs = map (\<lambda>j. (?qs ! j, stage_of (count_list late_notice j))) [0..<length ?qs]"
    and vals: "ms_values (sv_store v') = ms_values (sv_store v) ++
       log_map (entries_from (w_seq (ms_wal (sv_store v))) (store_writes ?qs late_notice))"
    and hub: "sv_hub v' = h" using pub assms(10) by (auto simp: reached_def Let_def)
  then have "cs = [(q0, Ended (Ret True)), (q1, Ended (Ret True))]" by (simp add: upt_rec)
  moreover have "ms_values (sv_store v') (q_actor q0, q_key q0) = Some (q_value q1)"
    using assms(3,4) by (simp add: vals store_writes_def log_map_def)
  moreover have "bq_items (st_inbound (hb_streams h ! i)) =
      bq_items (st_inbound (hb_streams (sv_hub v) ! i)) @ [change_of q1, change_of q0]"
  proof -
    obtain r1 h1 where p1: "publish_change (change_of q1) (sv_hub v) = (r1, h1)" by (rule prod.exhaust)
    with assms(10) have r1: "r1 = Ret ()" and p2: "publish_change (change_of q0) h1 = (Ret (), h)"
      by (cases r1; auto split: prod.splits outcome.splits)+
    have ch: "ch_actor (change_of q1) = q_actor q0" "ch_actor (change_of q0) = q_actor q0"
      using assms(3) by (simp_all add: change_of_def)
    from reg_publish [OF assms(5,6)] p1 r1 have h1: "reg_ok h1" "length (hb_streams h1) = length (hb_streams (sv_hub v))"
      "hb_streams h1 ! i = push_to (change_of q1) (hb_streams (sv_hub v) ! i)"
      using assms(7-9) ch by (auto simp: on_def)
    have "hub_inv n h1" using publish_keeps [OF assms(5) p1] by simp
    from reg_publish [OF this h1(1) p2] have "hb_streams h ! i = push_to (change_of q0) (hb_streams h1 ! i)"
      using h1 assms(7-9) ch by (auto simp: on_def)
    with h1(3) show ?thesis by simp
  qed
  ultimately show ?thesis using hub by simp
qed

theorem subscriber_disagrees_witness:
  "\<exists>(v :: string service) v' cs.
     fold advance_call late_notice (v, start_calls
       [\<lparr>q_actor = ''a'', q_key = ''k'', q_value = ''1'', q_time = 0, q_stamp1 = 0, q_stamp2 = 3\<rparr>,
        \<lparr>q_actor = ''a'', q_key = ''k'', q_value = ''2'', q_time = 1, q_stamp1 = 1, q_stamp2 = 2\<rparr>]) = (v', cs) \<and>
     ms_values (sv_store v') (''a'', ''k'') = Some ''2'' \<and>
     map ch_value (bq_items (st_inbound (hb_streams (sv_hub v') ! 0))) = [''2'', ''1'']"
proof -
  obtain v0 :: "string service" where v0: "main_service 2 empty_fs = Ret v0" "set_ready v0 ([], None) ([], None)"
    "pool_room (ms_pool (sv_store v0)) 2" by (rule empty_main_ready)
  let ?q0 = "\<lparr>q_actor = ''a'', q_key = ''k'', q_value = ''1'', q_time = 0, q_stamp1 = 0, q_stamp2 = 3\<rparr>"
  let ?q1 = "\<lparr>q_actor = ''a'', q_key = ''k'', q_value = ''2'', q_time = 1, q_stamp1 = 1, q_stamp2 = 2\<rparr>"
  let ?es = "[Open ''a'', Check 0 True, Get_list 0, Add 0]"
  note run = run_defs publish_defs sl_invoke_all_def tsl_for_each_def deliver_def catchP_def bq_push_def bq_enqueue_def
  obtain h0 where h0: "seqP exec ?es hb_new = (Ret (), h0)"
    and s: "length (hb_streams h0) = 1" "st_actor (hb_streams h0 ! 0) = ''a''" "on (hb_streams h0 ! 0)"
      "bq_items (st_inbound (hb_streams h0 ! 0)) = []"
      "fst (seqP exec [Publish (change_of ?q1), Publish (change_of ?q0)] h0) = Ret ()"
    by (simp add: run change_of_def on_def)
  have o: "orderly ?es hb_new" "undisturbed ?es" "length ?es < 2 ^ 64 - 1" by (simp_all add: run undisturbed_def)
  have inv: "hub_inv (length ?es) h0" by (rule reachable_inv [OF o(3) h0])
  have reg: "reg_ok h0" using history_follows [OF o(3,1,2) h0] by (simp add: follows_def)
  let ?v = "v0\<lparr>sv_hub := h0\<rparr>"
  have ready: "set_ready ?v ([], None) ([], None)" "pool_room (ms_pool (sv_store ?v)) 2" using v0 by simp_all
  obtain v' cs where adv: "fold advance_call late_notice (?v, start_calls [?q0, ?q1]) = (v', cs)" by (rule prod.exhaust)
  obtain h where "seqP exec [Publish (change_of ?q1), Publish (change_of ?q0)] h0 = (Ret (), h)"
    using s(5) by (metis prod.collapse)
  with subscriber_disagrees [OF ready _ _ _ _ _ _ _ _ adv, of "length ?es" 0 h] inv reg s(1-4) adv
  show ?thesis by (intro exI [of _ ?v] exI [of _ v'] exI [of _ cs]) (simp add: change_of_def)
qed

text \<open>How the two orders can be kept together: if no call takes its first step while another call on
  the same key is between its first and its second (a lock of the key over both would do), the
  service's log agrees with the store as soon as every call that has written the store has
  written the log. It is not enough that each of the two parts has a lock of its own.\<close>

definition same_key :: "set_rpc list \<Rightarrow> nat \<Rightarrow> nat \<Rightarrow> bool" where
  "same_key qs i j \<longleftrightarrow> q_actor (qs ! i) = q_actor (qs ! j) \<and> q_key (qs ! i) = q_key (qs ! j)"

definition exclusive :: "set_rpc list \<Rightarrow> nat list \<Rightarrow> bool" where
  "exclusive qs sched \<longleftrightarrow> (\<forall>n < length sched. count_list (take n sched) (sched ! n) = 0 \<longrightarrow>
     (\<forall>j < length qs. same_key qs (sched ! n) j \<longrightarrow> count_list (take n sched) j \<noteq> 1))"

lemma exclusive_snoc:
  "exclusive qs (xs @ [i]) \<longleftrightarrow> exclusive qs xs \<and>
     (count_list xs i = 0 \<longrightarrow> (\<forall>j < length qs. same_key qs i j \<longrightarrow> count_list xs j \<noteq> 1))"
  by (auto simp: exclusive_def nth_append less_Suc_eq)

text \<open>On each key, the order of the second steps is that of the first steps, less the one call
  that is in between, if there is one.\<close>

lemma exclusive_orders:
  assumes "set sched \<subseteq> {..<length qs}" and "exclusive qs sched" and "m < length qs"
  shows "\<exists>p. filter (same_key qs m) (turns 0 sched) = filter (same_key qs m) (turns 1 sched) @ p \<and>
    length p \<le> 1 \<and> (\<forall>j < length qs. same_key qs m j \<longrightarrow> (j \<in> set p \<longleftrightarrow> count_list sched j = 1)) \<and>
    set p \<subseteq> {j. j < length qs \<and> same_key qs m j}"
  using assms(1,2)
proof (induction sched rule: rev_induct)
  case (snoc i xs)
  then obtain p where p: "filter (same_key qs m) (turns 0 xs) = filter (same_key qs m) (turns 1 xs) @ p"
    "length p \<le> 1" "\<And>j. j < length qs \<Longrightarrow> same_key qs m j \<Longrightarrow> j \<in> set p \<longleftrightarrow> count_list xs j = 1"
    "set p \<subseteq> {j. j < length qs \<and> same_key qs m j}" by (auto simp: exclusive_snoc)
  have i: "i < length qs" using snoc.prems by simp
  show ?case
  proof (cases "same_key qs m i")
    case False
    then show ?thesis using p by (intro exI [of _ p]) auto
  next
    case True
    consider "count_list xs i = 0" | "count_list xs i = 1" | "count_list xs i \<ge> 2" by linarith
    then show ?thesis
    proof cases
      case 1
      have "j \<notin> set p" for j
      proof
        assume j: "j \<in> set p"
        with p(4) have "j < length qs" "same_key qs m j" by auto
        with True have "same_key qs i j" by (simp add: same_key_def)
        with 1 snoc.prems \<open>j < length qs\<close> have "count_list xs j \<noteq> 1" by (simp add: exclusive_snoc)
        with p(3) j \<open>j < length qs\<close> \<open>same_key qs m j\<close> show False by blast
      qed
      then have "p = []" by (metis last_in_set)
      with 1 True p i show ?thesis by (intro exI [of _ "[i]"]) auto
    next
      case 2
      with p(3) [OF i True] p(2) have "p = [i]" by (cases p) auto
      with 2 True p show ?thesis by (intro exI [of _ "[]"]) auto
    next
      case 3
      with p True show ?thesis by (intro exI [of _ p]) auto
    qed
  qed
qed simp

lemma map_of_key:
  "map_of (rev (map (\<lambda>i. (f i, g i)) xs)) x = map_of (rev (map (\<lambda>i. (f i, g i)) (filter (\<lambda>i. f i = x) xs))) x"
  by (induction xs rule: rev_induct) auto

lemma log_map_calls:
  "log_map (entries_from n (map (\<lambda>i. (a i, k i, x i, t i)) is)) = map_of (rev (map (\<lambda>i. ((a i, k i), x i)) is))"
proof -
  have "map (\<lambda>e. ((e_actor e, e_key e), e_value e)) (entries_from n (map (\<lambda>i. (a i, k i, x i, t i)) is)) =
      map (\<lambda>i. ((a i, k i), x i)) is"
    by (induction "is" arbitrary: n) simp_all
  then show ?thesis by (simp add: log_map_def)
qed

lemma exclusive_logs_agree:
  assumes "set sched \<subseteq> {..<length qs}" and "exclusive qs sched" and "\<forall>i < length qs. count_list sched i \<noteq> 1"
  shows "log_map (entries_from n1 (store_writes qs sched)) = log_map (entries_from n2 (service_writes qs sched))"
proof
  fix ak
  let ?key = "\<lambda>i. (q_actor (qs ! i), q_key (qs ! i))"
  have "filter (\<lambda>i. ?key i = ak) (turns 0 sched) = filter (\<lambda>i. ?key i = ak) (turns 1 sched)"
  proof (cases "\<exists>m < length qs. ?key m = ak")
    case True
    then obtain m where m: "m < length qs" "?key m = ak" by blast
    then have same: "(\<lambda>i. ?key i = ak) = same_key qs m" by (auto simp: same_key_def fun_eq_iff)
    from exclusive_orders [OF assms(1,2) m(1)] obtain p where
      "filter (same_key qs m) (turns 0 sched) = filter (same_key qs m) (turns 1 sched) @ p"
      and "\<forall>j < length qs. same_key qs m j \<longrightarrow> (j \<in> set p \<longleftrightarrow> count_list sched j = 1)"
      and "set p \<subseteq> {j. j < length qs \<and> same_key qs m j}" by blast
    moreover from this(2,3) assms(3) have "p = []" by (cases p) auto
    ultimately show ?thesis unfolding same by simp
  next
    case False
    have "filter (\<lambda>i. ?key i = ak) (turns n sched) = []" for n
      using False assms(1) set_turns [of n sched] by (auto simp: filter_empty_conv)
    then show ?thesis by simp
  qed
  then show "log_map (entries_from n1 (store_writes qs sched)) ak = log_map (entries_from n2 (service_writes qs sched)) ak"
    unfolding store_writes_def service_writes_def log_map_calls
    by (subst (1 2) map_of_key) simp
qed

text \<open>C15: Where calls on one key do not overlap, the service's log agrees with the store: under any
  schedule in which no call starts while another call on the same key is between its write to the
  store and its append to the service's log, once no call is in between, the entries that the
  calls have added to the service's log give exactly the values they have given the store.\<close>

theorem exclusive_sets_agree:
  assumes "set_ready v sl1 sl2" and "pool_room (ms_pool (sv_store v)) (length qs)" and "set sched \<subseteq> {..<length qs}"
    and "exclusive qs sched" and "\<forall>i < length qs. count_list sched i \<noteq> 1"
    and "fst (seqP exec (published qs sched) (sv_hub v)) = Ret ()"
    and "fold advance_call sched (v, start_calls qs) = (v', cs)"
    and "es2 = entries_from (w_seq (sv_wal v)) (service_writes qs sched)"
  shows "ms_values (sv_store v') = ms_values (sv_store v) ++ log_map es2 \<and>
    wal_rel (sv_wal v') (ms_fs (sv_store v')) (fold (seg_append (w_max (sv_wal v))) es2 sl2)"
  using reached_run [OF assms(1-3,6)] assms(7,8)
    exclusive_logs_agree [OF assms(3-5), of "w_seq (ms_wal (sv_store v))" "w_seq (sv_wal v)"]
  by (simp add: reached_def Let_def set_ready_def)

theorem exclusive_sets_agree_witness:
  "\<exists>(v :: string service) v' cs. main_service 2 empty_fs = Ret v \<and>
     fold advance_call [0, 0, 1, 1, 0, 1] (v, start_calls
       [\<lparr>q_actor = ''a'', q_key = ''k'', q_value = ''1'', q_time = 0, q_stamp1 = 0, q_stamp2 = 3\<rparr>,
        \<lparr>q_actor = ''a'', q_key = ''k'', q_value = ''2'', q_time = 1, q_stamp1 = 1, q_stamp2 = 2\<rparr>]) = (v', cs) \<and>
     ms_values (sv_store v') (''a'', ''k'') = log_map
       [\<lparr>e_seq = 1, e_actor = ''a'', e_key = ''k'', e_value = ''1'', e_ts = 3\<rparr>,
        \<lparr>e_seq = 2, e_actor = ''a'', e_key = ''k'', e_value = ''2'', e_ts = 2\<rparr>] (''a'', ''k'')"
proof -
  obtain v :: "string service" where v: "main_service 2 empty_fs = Ret v" "set_ready v ([], None) ([], None)"
    "pool_room (ms_pool (sv_store v)) 2" "w_seq (sv_wal v) = 0" "hub_idle (sv_hub v)" by (rule empty_main_ready)
  let ?qs = "[\<lparr>q_actor = ''a'', q_key = ''k'', q_value = ''1'', q_time = 0, q_stamp1 = 0, q_stamp2 = 3\<rparr>,
        \<lparr>q_actor = ''a'', q_key = ''k'', q_value = ''2'', q_time = 1, q_stamp1 = 1, q_stamp2 = 2\<rparr>]"
  define sched :: "nat list" where "sched = [0, 0, 1, 1, 0, 1]"
  obtain v' cs where run: "fold advance_call sched (v, start_calls ?qs) = (v', cs)" by (rule prod.exhaust)
  have room: "pool_room (ms_pool (sv_store v)) (length ?qs)" using v(3) by (simp add: numeral_2_eq_2)
  have sched: "set sched \<subseteq> {..<length ?qs}" "\<forall>i < length ?qs. count_list sched i \<noteq> 1" "exclusive ?qs sched"
    by (auto simp: sched_def exclusive_def less_Suc_eq)
  have t: "turns (Suc 0) sched = [0, Suc 0]" by (simp add: sched_def turns_def upt_rec)
  from exclusive_sets_agree [OF v(2) room sched(1,3,2) _ run refl] published_idle [OF v(5), of ?qs sched] have
    "ms_values (sv_store v') = ms_values (sv_store v) ++ log_map (entries_from 0 (service_writes ?qs sched))"
    by (simp add: v(4))
  then have "ms_values (sv_store v') (''a'', ''k'') = Some ''2''" by (simp add: service_writes_def t log_map_def)
  with v(1) run show ?thesis unfolding sched_def
    by (intro exI [of _ v] exI [of _ v'] exI [of _ cs]) (simp add: log_map_def)
qed

end
