(* ===== verification/Proto_Runtime.thy ===== *)
theory Proto_Runtime
  imports Prelude "HOL-Library.Multiset"
begin

unbundle bit_operations_syntax

text \<open>
  What the generated message classes of \<^verbatim>\<open>proto/iquora.pb.h\<close> and \<^verbatim>\<open>proto/iquora.pb.cc\<close> use of the
  protobuf runtime, which is not part of the repository: the record \<open>runtime\<close> is a parameter of
  every definition over messages, and \<open>runtime_ok\<close> states the documented behaviour the code
  relies on. The templates of the accessors, which the generated code repeats for every
  field, are here as well. Bytes are natural numbers; a serialisation is the list of bytes
  that is appended to the target. The UTF-8 checks only log, and arenas only place objects in
  memory: both are left out.
\<close>

section \<open>The runtime\<close>

text \<open>
  \<open>'p\<close> is an \<open>ArenaStringPtr\<close>, \<open>'u\<close> the unknown fields kept in the metadata.
  \<open>rt_force\<close> is \<open>DebugHardenForceCopyDefaultString()\<close>.
\<close>

record ('p, 'u) runtime =
  rt_init :: 'p
  rt_copy :: "'p \<Rightarrow> 'p"
  rt_get :: "'p \<Rightarrow> string"
  rt_set :: "string \<Rightarrow> 'p \<Rightarrow> 'p"
  rt_mutable :: "'p \<Rightarrow> 'p"
  rt_clear_to_empty :: "'p \<Rightarrow> 'p"
  rt_clear_non_default :: "'p \<Rightarrow> 'p"
  rt_is_default :: "'p \<Rightarrow> bool"
  rt_release :: "'p \<Rightarrow> string \<times> 'p"
  rt_set_allocated :: "string option \<Rightarrow> 'p \<Rightarrow> 'p"
  rt_force :: bool
  rt_write_string :: "nat \<Rightarrow> string \<Rightarrow> nat list"
  rt_string_size :: "string \<Rightarrow> nat"
  rt_write_bool :: "nat \<Rightarrow> bool \<Rightarrow> nat list"
  rt_write_entry :: "nat \<Rightarrow> string \<Rightarrow> string \<Rightarrow> nat list"
  rt_entry_size :: "string \<Rightarrow> string \<Rightarrow> nat"
  rt_deterministic :: bool
  rt_sort :: "(string \<times> string) list \<Rightarrow> (string \<times> string) list"
  rt_merge_map :: "(string \<times> string) list \<Rightarrow> (string \<times> string) list \<Rightarrow> (string \<times> string) list"
  rt_no_unknown :: 'u
  rt_have_unknown :: "'u \<Rightarrow> bool"
  rt_merge_unknown :: "'u \<Rightarrow> 'u \<Rightarrow> 'u"
  rt_write_unknown :: "'u \<Rightarrow> nat list"
  rt_unknown_size :: "'u \<Rightarrow> nat"

text \<open>
  Strings: reading what was set, clearing, releasing and taking over; the wire format: a field
  with a number below 16 takes one byte of tag; maps: merging into an empty map, and sorting
  the entries by key without losing any; unknown fields: merging into none.
\<close>

definition strings_ok :: "('p, 'u) runtime \<Rightarrow> bool" where
  "strings_ok rt \<longleftrightarrow>
     rt_get rt (rt_init rt) = [] \<and> (\<forall>p. rt_get rt (rt_copy rt p) = rt_get rt p) \<and> (\<forall>s p. rt_get rt (rt_set rt s p) = s) \<and>
     (\<forall>p. rt_get rt (rt_mutable rt p) = rt_get rt p) \<and>
     (\<forall>p. rt_get rt (rt_clear_to_empty rt p) = []) \<and> (\<forall>p. rt_get rt (rt_clear_non_default rt p) = []) \<and>
     (\<forall>p. rt_is_default rt p \<longrightarrow> rt_get rt p = []) \<and>
     (\<forall>p. fst (rt_release rt p) = rt_get rt p \<and> rt_get rt (snd (rt_release rt p)) = []) \<and>
     (\<forall>s p. rt_get rt (rt_set_allocated rt s p) = (case s of None \<Rightarrow> [] | Some v \<Rightarrow> v))"

definition wire_ok :: "('p, 'u) runtime \<Rightarrow> bool" where
  "wire_ok rt \<longleftrightarrow>
     (\<forall>n s. n < 16 \<longrightarrow> length (rt_write_string rt n s) = 1 + rt_string_size rt s) \<and>
     (\<forall>n b. n < 16 \<longrightarrow> length (rt_write_bool rt n b) = 2) \<and>
     (\<forall>n k v. n < 16 \<longrightarrow> length (rt_write_entry rt n k v) = 1 + rt_entry_size rt k v) \<and>
     (\<forall>kvs. mset (rt_sort rt kvs) = mset kvs) \<and>
     (\<forall>u. length (rt_write_unknown rt u) = rt_unknown_size rt u)"

definition merge_ok :: "('p, 'u) runtime \<Rightarrow> bool" where
  "merge_ok rt \<longleftrightarrow> (\<forall>kvs. rt_merge_map rt [] kvs = kvs) \<and>
     (\<forall>u. rt_merge_unknown rt (rt_no_unknown rt) u = u)"

definition runtime_ok :: "('p, 'u) runtime \<Rightarrow> bool" where
  "runtime_ok rt \<longleftrightarrow> strings_ok rt \<and> wire_ok rt \<and> merge_ok rt"

lemma runtime_strings [simp]:
  assumes "runtime_ok rt"
  shows "rt_get rt (rt_init rt) = []" "rt_get rt (rt_copy rt p) = rt_get rt p"
    "rt_get rt (rt_set rt s p) = s"
    "rt_get rt (rt_mutable rt p) = rt_get rt p" "rt_get rt (rt_clear_to_empty rt p) = []"
    "rt_get rt (rt_clear_non_default rt p) = []"
    "fst (rt_release rt p) = rt_get rt p" "rt_get rt (snd (rt_release rt p)) = []"
    "rt_get rt (rt_set_allocated rt (Some s) p) = s" "rt_get rt (rt_set_allocated rt None p) = []"
  using assms by (simp_all add: runtime_ok_def strings_ok_def)

lemma runtime_default: "runtime_ok rt \<Longrightarrow> rt_is_default rt p \<Longrightarrow> rt_get rt p = []"
  unfolding runtime_ok_def strings_ok_def by blast

lemma runtime_wire [simp]:
  assumes "runtime_ok rt"
  shows "n < 16 \<Longrightarrow> length (rt_write_string rt n s) = Suc (rt_string_size rt s)"
    and "n < 16 \<Longrightarrow> length (rt_write_bool rt n b) = 2"
    and "n < 16 \<Longrightarrow> length (rt_write_entry rt n k v) = Suc (rt_entry_size rt k v)"
    and "length (rt_write_unknown rt u) = rt_unknown_size rt u"
    and "mset (rt_sort rt kvs) = mset kvs"
proof -
  have w: "wire_ok rt" using assms by (simp add: runtime_ok_def)
  show "n < 16 \<Longrightarrow> length (rt_write_string rt n s) = Suc (rt_string_size rt s)"
    "n < 16 \<Longrightarrow> length (rt_write_bool rt n b) = 2"
    "n < 16 \<Longrightarrow> length (rt_write_entry rt n k v) = Suc (rt_entry_size rt k v)"
    using w by (simp_all only: wire_ok_def plus_1_eq_Suc)
  show "length (rt_write_unknown rt u) = rt_unknown_size rt u" "mset (rt_sort rt kvs) = mset kvs"
    using w by (simp_all only: wire_ok_def)
qed

lemma runtime_merge [simp]:
  assumes "runtime_ok rt"
  shows "rt_merge_map rt [] kvs = kvs" and "rt_merge_unknown rt (rt_no_unknown rt) u = u"
  using assms by (simp_all add: runtime_ok_def merge_ok_def)

text \<open>A concrete runtime, for the witnesses: lengths as single bytes, no unknown fields.\<close>

definition ex_runtime :: "(string option, unit) runtime" where
  "ex_runtime = \<lparr>rt_init = None, rt_copy = (\<lambda>p. p), rt_get = (\<lambda>p. case p of None \<Rightarrow> [] | Some s \<Rightarrow> s),
     rt_set = (\<lambda>s _. Some s), rt_mutable = (\<lambda>p. case p of None \<Rightarrow> Some [] | Some s \<Rightarrow> Some s),
     rt_clear_to_empty = (\<lambda>_. Some []), rt_clear_non_default = (\<lambda>_. Some []),
     rt_is_default = (\<lambda>p. p = None), rt_release = (\<lambda>p. (case p of None \<Rightarrow> [] | Some s \<Rightarrow> s, None)),
     rt_set_allocated = (\<lambda>s _. s), rt_force = False,
     rt_write_string = (\<lambda>n s. (8 * n + 2) # length s # map of_char s),
     rt_string_size = (\<lambda>s. Suc (length s)),
     rt_write_bool = (\<lambda>n b. [8 * n, if b then 1 else 0]),
     rt_write_entry = (\<lambda>n k v. (8 * n + 2) # (length k + length v + 4) #
       (10 # length k # map of_char k) @ (18 # length v # map of_char v)),
     rt_entry_size = (\<lambda>k v. length k + length v + 5),
     rt_deterministic = False, rt_sort = (\<lambda>kvs. kvs), rt_merge_map = (\<lambda>xs ys. xs @ ys),
     rt_no_unknown = (), rt_have_unknown = (\<lambda>_. False), rt_merge_unknown = (\<lambda>_ u. u), rt_write_unknown = (\<lambda>_. []),
     rt_unknown_size = (\<lambda>_. 0)\<rparr>"

lemma ex_runtime_ok: "runtime_ok ex_runtime"
  by (auto simp: runtime_ok_def strings_ok_def wire_ok_def merge_ok_def ex_runtime_def
      split: option.splits)

section \<open>Accessors\<close>

text \<open>The accessors of a string field, given its has bit and how it lies in the message.\<close>

record 'm str_field =
  sf_clear :: "'m \<Rightarrow> 'm"
  sf_get :: "'m \<Rightarrow> string"
  sf_set :: "string \<Rightarrow> 'm \<Rightarrow> 'm"
  sf_mutable :: "'m \<Rightarrow> 'm"
  sf_release :: "'m \<Rightarrow> string option \<times> 'm"
  sf_set_allocated :: "string option \<Rightarrow> 'm \<Rightarrow> 'm"

definition str_field ::
  "('p, 'u) runtime \<Rightarrow> u32 \<Rightarrow> ('m \<Rightarrow> 'p) \<Rightarrow> (('p \<Rightarrow> 'p) \<Rightarrow> 'm \<Rightarrow> 'm) \<Rightarrow>
     ('m \<Rightarrow> u32) \<Rightarrow> ((u32 \<Rightarrow> u32) \<Rightarrow> 'm \<Rightarrow> 'm) \<Rightarrow> 'm str_field" where
  "str_field rt mk field upd_field has upd_has =
     \<lparr>sf_clear = (\<lambda>m. upd_has (\<lambda>h. h AND NOT mk) (upd_field (rt_clear_to_empty rt) m)),
      sf_get = (\<lambda>m. rt_get rt (field m)),
      sf_set = (\<lambda>s m. upd_field (rt_set rt s) (upd_has (\<lambda>h. h OR mk) m)),
      sf_mutable = (\<lambda>m. upd_field (rt_mutable rt) (upd_has (\<lambda>h. h OR mk) m)),
      sf_release = (\<lambda>m. if has m AND mk = 0 then (None, m)
        else (case rt_release rt (field m) of (s, p) \<Rightarrow>
          (Some s, upd_field (\<lambda>_. if rt_force rt then rt_set rt [] p else p)
             (upd_has (\<lambda>h. h AND NOT mk) m)))),
      sf_set_allocated = (\<lambda>s m. let m1 = upd_field (rt_set_allocated rt s)
          (upd_has (\<lambda>h. case s of None \<Rightarrow> h AND NOT mk | Some _ \<Rightarrow> h OR mk) m)
        in if rt_force rt \<and> rt_is_default rt (field m1) then upd_field (rt_set rt []) m1 else m1)\<rparr>"

text \<open>The accessors of a boolean field.\<close>

record 'm bool_field =
  bf_clear :: "'m \<Rightarrow> 'm"
  bf_get :: "'m \<Rightarrow> bool"
  bf_set :: "bool \<Rightarrow> 'm \<Rightarrow> 'm"

definition bool_field ::
  "u32 \<Rightarrow> ('m \<Rightarrow> bool) \<Rightarrow> ((bool \<Rightarrow> bool) \<Rightarrow> 'm \<Rightarrow> 'm) \<Rightarrow> ((u32 \<Rightarrow> u32) \<Rightarrow> 'm \<Rightarrow> 'm) \<Rightarrow> 'm bool_field" where
  "bool_field mk field upd_field upd_has =
     \<lparr>bf_clear = (\<lambda>m. upd_has (\<lambda>h. h AND NOT mk) (upd_field (\<lambda>_. False) m)),
      bf_get = field,
      bf_set = (\<lambda>b m. upd_has (\<lambda>h. h OR mk) (upd_field (\<lambda>_. b) m))\<rparr>"

text \<open>
  The accessors of a map field, which has no has bit; writing through the pointer that
  \<open>mutable\<close> returns is \<open>mf_update\<close>. The entries are listed in the map's iteration order.
\<close>

record 'm map_field =
  mf_size :: "'m \<Rightarrow> nat"
  mf_clear :: "'m \<Rightarrow> 'm"
  mf_get :: "'m \<Rightarrow> (string \<times> string) list"
  mf_update :: "((string \<times> string) list \<Rightarrow> (string \<times> string) list) \<Rightarrow> 'm \<Rightarrow> 'm"

definition map_field ::
  "('m \<Rightarrow> (string \<times> string) list) \<Rightarrow>
     (((string \<times> string) list \<Rightarrow> (string \<times> string) list) \<Rightarrow> 'm \<Rightarrow> 'm) \<Rightarrow> 'm map_field" where
  "map_field field upd_field =
     \<lparr>mf_size = (\<lambda>m. length (field m)), mf_clear = upd_field (\<lambda>_. []), mf_get = field,
      mf_update = upd_field\<rparr>"

section \<open>The steps that \<open>Clear\<close>, \<open>_InternalSerialize\<close>, \<open>ByteSizeLong\<close> and \<open>MergeImpl\<close> repeat\<close>

text \<open>Each takes the has bits and the mask of the field.\<close>

definition clear_str :: "('p, 'u) runtime \<Rightarrow> u32 \<Rightarrow> u32 \<Rightarrow> 'p \<Rightarrow> 'p" where
  "clear_str rt h mk p = (if h AND mk \<noteq> 0 then rt_clear_non_default rt p else p)"

definition write_str :: "('p, 'u) runtime \<Rightarrow> u32 \<Rightarrow> u32 \<Rightarrow> nat \<Rightarrow> 'p \<Rightarrow> nat list" where
  "write_str rt h mk n p =
     (if h AND mk \<noteq> 0 then (if rt_get rt p \<noteq> [] then rt_write_string rt n (rt_get rt p) else []) else [])"

definition size_str :: "('p, 'u) runtime \<Rightarrow> u32 \<Rightarrow> u32 \<Rightarrow> 'p \<Rightarrow> nat" where
  "size_str rt h mk p =
     (if h AND mk \<noteq> 0 then (if rt_get rt p \<noteq> [] then 1 + rt_string_size rt (rt_get rt p) else 0) else 0)"

text \<open>\<open>_internal_set\<close> also sets the has bit, which \<open>MergeImpl\<close> sets again at its end.\<close>

definition merge_str :: "('p, 'u) runtime \<Rightarrow> u32 \<Rightarrow> u32 \<Rightarrow> 'p \<Rightarrow> 'p \<Rightarrow> 'p" where
  "merge_str rt h mk from_p to_p =
     (if h AND mk \<noteq> 0 then
        (if rt_get rt from_p \<noteq> [] then rt_set rt (rt_get rt from_p) to_p
         else if rt_is_default rt to_p then rt_set rt [] to_p else to_p)
      else to_p)"

definition write_flag :: "('p, 'u) runtime \<Rightarrow> u32 \<Rightarrow> u32 \<Rightarrow> nat \<Rightarrow> bool \<Rightarrow> nat list" where
  "write_flag rt h mk n b = (if h AND mk \<noteq> 0 then (if b then rt_write_bool rt n b else []) else [])"

definition size_flag :: "u32 \<Rightarrow> u32 \<Rightarrow> bool \<Rightarrow> nat" where
  "size_flag h mk b = (if h AND mk \<noteq> 0 then (if b then 2 else 0) else 0)"

definition merge_flag :: "u32 \<Rightarrow> u32 \<Rightarrow> bool \<Rightarrow> bool \<Rightarrow> bool" where
  "merge_flag h mk from_b to_b = (if h AND mk \<noteq> 0 then (if from_b then from_b else to_b) else to_b)"

text \<open>A map field: deterministic streams sort the entries when there is more than one.\<close>

definition write_map :: "('p, 'u) runtime \<Rightarrow> nat \<Rightarrow> (string \<times> string) list \<Rightarrow> nat list" where
  "write_map rt n kvs = (if kvs = [] then [] else
     concat (map (\<lambda>(k, v). rt_write_entry rt n k v)
       (if rt_deterministic rt \<and> 1 < length kvs then rt_sort rt kvs else kvs)))"

text \<open>Unknown fields come last; \<open>MaybeComputeUnknownFieldsSize\<close> also stores the size in the message.\<close>

definition write_unknown :: "('p, 'u) runtime \<Rightarrow> 'u \<Rightarrow> nat list" where
  "write_unknown rt u = (if rt_have_unknown rt u then rt_write_unknown rt u else [])"

definition size_unknown :: "('p, 'u) runtime \<Rightarrow> 'u \<Rightarrow> nat" where
  "size_unknown rt u = (if rt_have_unknown rt u then rt_unknown_size rt u else 0)"

definition size_map :: "('p, 'u) runtime \<Rightarrow> (string \<times> string) list \<Rightarrow> nat" where
  "size_map rt kvs = 1 * length kvs + sum_list (map (\<lambda>(k, v). rt_entry_size rt k v) kvs)"

lemma length_write_str [simp]:
  "runtime_ok rt \<Longrightarrow> n < 16 \<Longrightarrow> length (write_str rt h mk n p) = size_str rt h mk p"
  by (simp add: write_str_def size_str_def)

lemma length_write_flag [simp]:
  "runtime_ok rt \<Longrightarrow> n < 16 \<Longrightarrow> length (write_flag rt h mk n b) = size_flag h mk b"
  by (simp add: write_flag_def size_flag_def)

lemma length_write_unknown [simp]: "runtime_ok rt \<Longrightarrow> length (write_unknown rt u) = size_unknown rt u"
  by (simp add: write_unknown_def size_unknown_def)

lemma size_map_mset:
  assumes "mset xs = mset ys"
  shows "size_map rt xs = size_map rt ys"
proof -
  have "sum_list (map f xs) = sum_list (map f ys)" for f :: "_ \<Rightarrow> nat"
    by (metis assms mset_map sum_mset_sum_list)
  with mset_eq_length [OF assms] show ?thesis by (simp add: size_map_def)
qed

lemma length_write_map [simp]:
  assumes "runtime_ok rt" and "n < 16"
  shows "length (write_map rt n kvs) = size_map rt kvs"
proof -
  have entries: "length (concat (map (\<lambda>(k, v). rt_write_entry rt n k v) xs)) = size_map rt xs" for xs
    using assms by (induction xs) (auto simp: size_map_def)
  have "size_map rt (rt_sort rt kvs) = size_map rt kvs"
    by (rule size_map_mset) (simp add: assms)
  with entries show ?thesis by (simp add: write_map_def size_map_def)
qed

section \<open>Has bits\<close>

text \<open>The tests of a group of bits, before those of its members.\<close>

lemma and_disj_zero: "(h :: u32) AND (a OR b) = 0 \<longleftrightarrow> h AND a = 0 \<and> h AND b = 0"
  by (auto simp: bit_eq_iff bit_and_iff bit_or_iff)

lemma has_bits_zero:
  "(h :: u32) AND 3 = 0 \<longleftrightarrow> h AND 1 = 0 \<and> h AND 2 = 0"
  "h AND 7 = 0 \<longleftrightarrow> h AND 1 = 0 \<and> h AND 2 = 0 \<and> h AND 4 = 0"
  "h AND 15 = 0 \<longleftrightarrow> h AND 1 = 0 \<and> h AND 2 = 0 \<and> h AND 4 = 0 \<and> h AND 8 = 0"
  using and_disj_zero [of h 1 2] and_disj_zero [of h 3 4] and_disj_zero [of h 7 8] by simp_all

text \<open>Every string field whose has bit is unset is empty: what \<open>Clear\<close> relies on.\<close>

definition str_wf :: "('p, 'u) runtime \<Rightarrow> u32 \<Rightarrow> u32 \<Rightarrow> 'p \<Rightarrow> bool" where
  "str_wf rt h mk p \<longleftrightarrow> (h AND mk = 0 \<longrightarrow> rt_get rt p = [])"

definition flag_wf :: "u32 \<Rightarrow> u32 \<Rightarrow> bool \<Rightarrow> bool" where
  "flag_wf h mk b \<longleftrightarrow> (h AND mk = 0 \<longrightarrow> \<not> b)"

lemma clear_str_empty [simp]:
  "runtime_ok rt \<Longrightarrow> str_wf rt h mk p \<Longrightarrow> rt_get rt (clear_str rt h mk p) = []"
  by (simp add: clear_str_def str_wf_def)

lemma get_merge_str:
  "runtime_ok rt \<Longrightarrow> rt_get rt (merge_str rt h mk p q) =
     (if h AND mk \<noteq> 0 \<and> rt_get rt p \<noteq> [] then rt_get rt p else rt_get rt q)"
  using runtime_default [of rt q] by (auto simp: merge_str_def)

lemma merge_flag_eq: "merge_flag h mk a b = (if h AND mk \<noteq> 0 \<and> a then True else b)"
  by (simp add: merge_flag_def)

lemma merge_str_empty [simp]:
  "runtime_ok rt \<Longrightarrow> str_wf rt h mk p \<Longrightarrow> rt_get rt q = [] \<Longrightarrow> rt_get rt (merge_str rt h mk p q) = rt_get rt p"
  by (auto simp: get_merge_str str_wf_def)

lemma merge_flag_empty [simp]: "flag_wf h mk a \<Longrightarrow> merge_flag h mk a False = a"
  by (auto simp: merge_flag_eq flag_wf_def)

lemma or_and_zero [simp]: "(a OR b) AND (mk :: u32) = 0 \<longleftrightarrow> a AND mk = 0 \<and> b AND mk = 0"
  by (auto simp: bit_eq_iff bit_and_iff bit_or_iff)

lemma merge_str_wf [simp]:
  "runtime_ok rt \<Longrightarrow> str_wf rt g mk q \<Longrightarrow> str_wf rt h mk p \<Longrightarrow>
    str_wf rt (g OR h) mk (merge_str rt h mk p q)"
  by (auto simp: get_merge_str str_wf_def)

lemma merge_flag_wf [simp]:
  "flag_wf g mk b \<Longrightarrow> flag_wf (g OR h) mk (merge_flag h mk a b)"
  by (auto simp: merge_flag_eq flag_wf_def)

lemma str_wf_empty [simp]: "rt_get rt p = [] \<Longrightarrow> str_wf rt h mk p"
  by (simp add: str_wf_def)

lemma flag_wf_False [simp]: "flag_wf h mk False"
  by (simp add: flag_wf_def)

lemma write_str_cong:
  "rt_get rt p = rt_get rt q \<Longrightarrow> write_str rt h mk n p = write_str rt h mk n q"
  by (simp add: write_str_def)

text \<open>Outside the group that is tested first, the members' steps do nothing.\<close>

lemma unset_steps [simp]:
  "h AND mk = 0 \<Longrightarrow> clear_str rt h mk p = p" "h AND mk = 0 \<Longrightarrow> size_str rt h mk p = 0"
  "h AND mk = 0 \<Longrightarrow> size_flag h mk b = 0" "h AND mk = 0 \<Longrightarrow> merge_str rt h mk p q = q"
  "h AND mk = 0 \<Longrightarrow> merge_flag h mk a b = b"
  by (simp_all add: clear_str_def size_str_def size_flag_def merge_str_def merge_flag_def)

section \<open>Accessors and has bits\<close>

text \<open>The mutators of a string or a boolean field keep a predicate on messages.\<close>

definition str_field_keeps :: "('m \<Rightarrow> bool) \<Rightarrow> 'm str_field \<Rightarrow> bool" where
  "str_field_keeps P acc \<longleftrightarrow> (\<forall>m. P m \<longrightarrow> P (sf_clear acc m) \<and> (\<forall>s. P (sf_set acc s m)) \<and>
     P (sf_mutable acc m) \<and> P (snd (sf_release acc m)) \<and> (\<forall>v. P (sf_set_allocated acc v m)))"

definition bool_field_keeps :: "('m \<Rightarrow> bool) \<Rightarrow> 'm bool_field \<Rightarrow> bool" where
  "bool_field_keeps P acc \<longleftrightarrow> (\<forall>m. P m \<longrightarrow> P (bf_clear acc m) \<and> (\<forall>b. P (bf_set acc b m)))"

lemma and_group [simp]:
  "((h :: u32) AND a) AND b = h AND (a AND b)"
  by (rule and.assoc)

lemmas acc_simps = str_field_def bool_field_def str_wf_def flag_wf_def str_field_keeps_def bool_field_keeps_def


section \<open>The interface of a message\<close>

text \<open>
  What the library and the server use of a message class: \<open>view\<close> is its observable state (has
  bits, values of the fields, unknown fields), \<open>wf\<close> the has-bit invariant, \<open>ok\<close> that the
  runtime behaves as documented.
\<close>

locale proto_message =
  fixes ok :: bool
    and new :: "'m"
    and clear :: "'m \<Rightarrow> 'm"
    and merge :: "'m \<Rightarrow> 'm \<Rightarrow> 'm"
    and ser :: "'m \<Rightarrow> nat list"
    and msize :: "'m \<Rightarrow> nat \<times> 'm"
    and view :: "'m \<Rightarrow> 'v"
    and wf :: "'m \<Rightarrow> bool"
  assumes new_wf: "ok \<Longrightarrow> wf new"
    and clear_wf: "ok \<Longrightarrow> wf m \<Longrightarrow> wf (clear m)"
    and clear_view: "ok \<Longrightarrow> wf m \<Longrightarrow> view (clear m) = view new"
    and merge_wf: "ok \<Longrightarrow> wf m \<Longrightarrow> wf f \<Longrightarrow> wf (merge f m)"
    and merge_new: "ok \<Longrightarrow> wf f \<Longrightarrow> view m = view new \<Longrightarrow> view (merge f m) = view f"
    and ser_view: "view m = view m' \<Longrightarrow> ser m = ser m'"
    and size_ser: "ok \<Longrightarrow> fst (msize m) = length (ser m)"
    and size_view: "view (snd (msize m)) = view m"
begin

lemma copy_view: "ok \<Longrightarrow> wf m \<Longrightarrow> wf f \<Longrightarrow> view (merge f (clear m)) = view f"
  by (simp add: merge_new clear_view)

lemma copy_ser: "ok \<Longrightarrow> wf m \<Longrightarrow> wf f \<Longrightarrow> ser (merge f (clear m)) = ser f"
  by (intro ser_view copy_view)

lemma copy_wf: "ok \<Longrightarrow> wf m \<Longrightarrow> wf f \<Longrightarrow> wf (merge f (clear m))"
  by (intro merge_wf clear_wf)

lemma size_stable: "ok \<Longrightarrow> fst (msize (snd (msize m))) = fst (msize m)"
  using ser_view [OF size_view, of m] by (simp add: size_ser)

end

end
