(* ===== verification/Proto_Messages.thy ===== *)
theory Proto_Messages
  imports Proto_Runtime
begin

unbundle bit_operations_syntax

text \<open>
  The ten message classes of \<^verbatim>\<open>proto/iquora.pb.h\<close> and \<^verbatim>\<open>proto/iquora.pb.cc\<close>, over the runtime of
  \<^verbatim>\<open>Proto_Runtime\<close>. Per message: the record of its implementation, the default and the copy
  constructor, \<open>Clear\<close>, \<open>_InternalSerialize\<close>, \<open>ByteSizeLong\<close>, \<open>MergeImpl\<close> (first argument: the
  message to merge from), \<open>CopyFrom\<close> and \<open>InternalSwap\<close>, then the accessors of each field
  (\<open>..._acc\<close>), the observable state and the has-bit invariant. Each class is an instance of the
  interface \<open>proto_message\<close>. Parsing is done by the runtime from a table; tables, descriptors
  and reflection are data for the runtime and are not modelled.
\<close>

section \<open>\<open>GetRequest\<close>\<close>

record ('p, 'u) GetRequest =
  GetRequest_has :: u32
  GetRequest_actor_id :: "'p"
  GetRequest_key :: "'p"
  GetRequest_unknown :: 'u
  GetRequest_cached :: nat

definition GetRequest_new :: "('p, 'u) runtime \<Rightarrow> ('p, 'u) GetRequest" where
  "GetRequest_new rt = \<lparr>GetRequest_has = 0, GetRequest_actor_id = rt_init rt, GetRequest_key = rt_init rt,
     GetRequest_unknown = rt_no_unknown rt, GetRequest_cached = 0\<rparr>"

definition GetRequest_Clear :: "('p, 'u) runtime \<Rightarrow> ('p, 'u) GetRequest \<Rightarrow> ('p, 'u) GetRequest" where
  "GetRequest_Clear rt m =
     (let h = GetRequest_has m;
          m1 = (if h AND 3 \<noteq> 0 then m\<lparr>GetRequest_actor_id := clear_str rt h 1 (GetRequest_actor_id m), GetRequest_key := clear_str rt h 2 (GetRequest_key m)\<rparr> else m)
      in m1\<lparr>GetRequest_has := 0, GetRequest_unknown := rt_no_unknown rt\<rparr>)"

definition GetRequest_InternalSerialize :: "('p, 'u) runtime \<Rightarrow> ('p, 'u) GetRequest \<Rightarrow> nat list" where
  "GetRequest_InternalSerialize rt m =
     write_str rt (GetRequest_has m) 1 1 (GetRequest_actor_id m) @
     write_str rt (GetRequest_has m) 2 2 (GetRequest_key m) @
     write_unknown rt (GetRequest_unknown m)"

definition GetRequest_ByteSizeLong :: "('p, 'u) runtime \<Rightarrow> ('p, 'u) GetRequest \<Rightarrow> nat \<times> ('p, 'u) GetRequest" where
  "GetRequest_ByteSizeLong rt m =
     (let h = GetRequest_has m;
          n = (if h AND 3 \<noteq> 0 then size_str rt h 1 (GetRequest_actor_id m) + size_str rt h 2 (GetRequest_key m) else 0) +
            size_unknown rt (GetRequest_unknown m)
      in (n, m\<lparr>GetRequest_cached := n\<rparr>))"

definition GetRequest_MergeImpl :: "('p, 'u) runtime \<Rightarrow> ('p, 'u) GetRequest \<Rightarrow> ('p, 'u) GetRequest \<Rightarrow> ('p, 'u) GetRequest" where
  "GetRequest_MergeImpl rt from_m m =
     (let h = GetRequest_has from_m;
          m1 = (if h AND 3 \<noteq> 0 then m\<lparr>
              GetRequest_actor_id := merge_str rt h 1 (GetRequest_actor_id from_m) (GetRequest_actor_id m),
              GetRequest_key := merge_str rt h 2 (GetRequest_key from_m) (GetRequest_key m)\<rparr> else m)
      in m1\<lparr>GetRequest_has := GetRequest_has m OR h,
            GetRequest_unknown := rt_merge_unknown rt (GetRequest_unknown m) (GetRequest_unknown from_m)\<rparr>)"

definition GetRequest_copy_new :: "('p, 'u) runtime \<Rightarrow> ('p, 'u) GetRequest \<Rightarrow> ('p, 'u) GetRequest" where
  "GetRequest_copy_new rt from_m = \<lparr>GetRequest_has = GetRequest_has from_m,
     GetRequest_actor_id = rt_copy rt (GetRequest_actor_id from_m), GetRequest_key = rt_copy rt (GetRequest_key from_m),
     GetRequest_unknown = rt_merge_unknown rt (rt_no_unknown rt) (GetRequest_unknown from_m), GetRequest_cached = 0\<rparr>"

definition GetRequest_CopyFrom :: "('p, 'u) runtime \<Rightarrow> bool \<Rightarrow> ('p, 'u) GetRequest \<Rightarrow> ('p, 'u) GetRequest \<Rightarrow> ('p, 'u) GetRequest" where
  "GetRequest_CopyFrom rt same from_m m = (if same then m else GetRequest_MergeImpl rt from_m (GetRequest_Clear rt m))"

definition GetRequest_InternalSwap :: "('p, 'u) GetRequest \<times> ('p, 'u) GetRequest \<Rightarrow> ('p, 'u) GetRequest \<times> ('p, 'u) GetRequest" where
  "GetRequest_InternalSwap = (\<lambda>(a, b). (b\<lparr>GetRequest_cached := GetRequest_cached a\<rparr>, a\<lparr>GetRequest_cached := GetRequest_cached b\<rparr>))"

definition GetRequest_actor_id_acc :: "('p, 'u) runtime \<Rightarrow> ('p, 'u) GetRequest str_field" where
  "GetRequest_actor_id_acc rt = str_field rt 1 GetRequest_actor_id GetRequest_actor_id_update GetRequest_has GetRequest_has_update"

definition GetRequest_key_acc :: "('p, 'u) runtime \<Rightarrow> ('p, 'u) GetRequest str_field" where
  "GetRequest_key_acc rt = str_field rt 2 GetRequest_key GetRequest_key_update GetRequest_has GetRequest_has_update"

definition GetRequest_view :: "('p, 'u) runtime \<Rightarrow> ('p, 'u) GetRequest \<Rightarrow> u32 \<times> 'u \<times> string \<times> string" where
  "GetRequest_view rt m = (GetRequest_has m, GetRequest_unknown m, rt_get rt (GetRequest_actor_id m), rt_get rt (GetRequest_key m))"

definition GetRequest_wf :: "('p, 'u) runtime \<Rightarrow> ('p, 'u) GetRequest \<Rightarrow> bool" where
  "GetRequest_wf rt m \<longleftrightarrow> str_wf rt (GetRequest_has m) 1 (GetRequest_actor_id m) \<and> str_wf rt (GetRequest_has m) 2 (GetRequest_key m)"

lemmas GetRequest_defs = GetRequest_new_def GetRequest_Clear_def GetRequest_InternalSerialize_def GetRequest_ByteSizeLong_def GetRequest_MergeImpl_def GetRequest_view_def GetRequest_wf_def

lemma GetRequest_Clear_view:
  "runtime_ok rt \<Longrightarrow> GetRequest_wf rt m \<Longrightarrow> GetRequest_view rt (GetRequest_Clear rt m) = GetRequest_view rt (GetRequest_new rt)"
  by (cases "GetRequest_has m AND 3 = 0") (auto simp: GetRequest_defs Let_def has_bits_zero str_wf_def)

lemma GetRequest_MergeImpl_eq:
  "GetRequest_MergeImpl rt f m = m\<lparr>GetRequest_actor_id := merge_str rt (GetRequest_has f) 1 (GetRequest_actor_id f) (GetRequest_actor_id m), GetRequest_key := merge_str rt (GetRequest_has f) 2 (GetRequest_key f) (GetRequest_key m),
     GetRequest_has := GetRequest_has m OR GetRequest_has f, GetRequest_unknown := rt_merge_unknown rt (GetRequest_unknown m) (GetRequest_unknown f)\<rparr>"
  by (auto simp: GetRequest_MergeImpl_def Let_def has_bits_zero)

lemma GetRequest_size_ser:
  "runtime_ok rt \<Longrightarrow> fst (GetRequest_ByteSizeLong rt m) = length (GetRequest_InternalSerialize rt m)"
  by (auto simp: GetRequest_ByteSizeLong_def GetRequest_InternalSerialize_def Let_def has_bits_zero)

interpretation getRequest: proto_message "runtime_ok rt" "GetRequest_new rt" "GetRequest_Clear rt" "GetRequest_MergeImpl rt"
  "GetRequest_InternalSerialize rt" "GetRequest_ByteSizeLong rt" "GetRequest_view rt" "GetRequest_wf rt"
  for rt :: "('p, 'u) runtime"
proof unfold_locales
  show "runtime_ok rt \<Longrightarrow> GetRequest_wf rt (GetRequest_new rt)"
    by (simp add: GetRequest_wf_def GetRequest_new_def)
next
  fix m m' f :: "('p, 'u) GetRequest"
  show "runtime_ok rt \<Longrightarrow> GetRequest_wf rt m \<Longrightarrow> GetRequest_wf rt (GetRequest_Clear rt m)"
    using GetRequest_Clear_view [of rt m] by (simp add: GetRequest_view_def GetRequest_wf_def GetRequest_new_def)
  show "runtime_ok rt \<Longrightarrow> GetRequest_wf rt m \<Longrightarrow> GetRequest_view rt (GetRequest_Clear rt m) = GetRequest_view rt (GetRequest_new rt)"
    by (rule GetRequest_Clear_view)
  show "runtime_ok rt \<Longrightarrow> GetRequest_wf rt m \<Longrightarrow> GetRequest_wf rt f \<Longrightarrow> GetRequest_wf rt (GetRequest_MergeImpl rt f m)"
    by (simp add: GetRequest_MergeImpl_eq GetRequest_wf_def)
  show "runtime_ok rt \<Longrightarrow> GetRequest_wf rt f \<Longrightarrow> GetRequest_view rt m = GetRequest_view rt (GetRequest_new rt) \<Longrightarrow>
      GetRequest_view rt (GetRequest_MergeImpl rt f m) = GetRequest_view rt f"
    by (simp add: GetRequest_MergeImpl_eq GetRequest_wf_def GetRequest_view_def GetRequest_new_def)
  show "GetRequest_view rt m = GetRequest_view rt m' \<Longrightarrow> GetRequest_InternalSerialize rt m = GetRequest_InternalSerialize rt m'"
    by (auto simp: GetRequest_view_def GetRequest_InternalSerialize_def write_str_def)
  show "runtime_ok rt \<Longrightarrow> fst (GetRequest_ByteSizeLong rt m) = length (GetRequest_InternalSerialize rt m)"
    by (rule GetRequest_size_ser)
  show "GetRequest_view rt (snd (GetRequest_ByteSizeLong rt m)) = GetRequest_view rt m"
    by (simp add: GetRequest_ByteSizeLong_def GetRequest_view_def Let_def)
qed

section \<open>\<open>GetResponse\<close>\<close>

record ('p, 'u) GetResponse =
  GetResponse_has :: u32
  GetResponse_value :: "'p"
  GetResponse_found :: "bool"
  GetResponse_unknown :: 'u
  GetResponse_cached :: nat

definition GetResponse_new :: "('p, 'u) runtime \<Rightarrow> ('p, 'u) GetResponse" where
  "GetResponse_new rt = \<lparr>GetResponse_has = 0, GetResponse_value = rt_init rt, GetResponse_found = False,
     GetResponse_unknown = rt_no_unknown rt, GetResponse_cached = 0\<rparr>"

definition GetResponse_Clear :: "('p, 'u) runtime \<Rightarrow> ('p, 'u) GetResponse \<Rightarrow> ('p, 'u) GetResponse" where
  "GetResponse_Clear rt m =
     (let h = GetResponse_has m;
          m1 = m\<lparr>GetResponse_value := clear_str rt h 1 (GetResponse_value m)\<rparr>
      in m1\<lparr>GetResponse_found := False, GetResponse_has := 0, GetResponse_unknown := rt_no_unknown rt\<rparr>)"

definition GetResponse_InternalSerialize :: "('p, 'u) runtime \<Rightarrow> ('p, 'u) GetResponse \<Rightarrow> nat list" where
  "GetResponse_InternalSerialize rt m =
     write_str rt (GetResponse_has m) 1 1 (GetResponse_value m) @
     write_flag rt (GetResponse_has m) 2 2 (GetResponse_found m) @
     write_unknown rt (GetResponse_unknown m)"

definition GetResponse_ByteSizeLong :: "('p, 'u) runtime \<Rightarrow> ('p, 'u) GetResponse \<Rightarrow> nat \<times> ('p, 'u) GetResponse" where
  "GetResponse_ByteSizeLong rt m =
     (let h = GetResponse_has m;
          n = (if h AND 3 \<noteq> 0 then size_str rt h 1 (GetResponse_value m) + size_flag h 2 (GetResponse_found m) else 0) +
            size_unknown rt (GetResponse_unknown m)
      in (n, m\<lparr>GetResponse_cached := n\<rparr>))"

definition GetResponse_MergeImpl :: "('p, 'u) runtime \<Rightarrow> ('p, 'u) GetResponse \<Rightarrow> ('p, 'u) GetResponse \<Rightarrow> ('p, 'u) GetResponse" where
  "GetResponse_MergeImpl rt from_m m =
     (let h = GetResponse_has from_m;
          m1 = (if h AND 3 \<noteq> 0 then m\<lparr>
              GetResponse_value := merge_str rt h 1 (GetResponse_value from_m) (GetResponse_value m),
              GetResponse_found := merge_flag h 2 (GetResponse_found from_m) (GetResponse_found m)\<rparr> else m)
      in m1\<lparr>GetResponse_has := GetResponse_has m OR h,
            GetResponse_unknown := rt_merge_unknown rt (GetResponse_unknown m) (GetResponse_unknown from_m)\<rparr>)"

definition GetResponse_copy_new :: "('p, 'u) runtime \<Rightarrow> ('p, 'u) GetResponse \<Rightarrow> ('p, 'u) GetResponse" where
  "GetResponse_copy_new rt from_m = \<lparr>GetResponse_has = GetResponse_has from_m,
     GetResponse_value = rt_copy rt (GetResponse_value from_m), GetResponse_found = (GetResponse_found from_m),
     GetResponse_unknown = rt_merge_unknown rt (rt_no_unknown rt) (GetResponse_unknown from_m), GetResponse_cached = 0\<rparr>"

definition GetResponse_CopyFrom :: "('p, 'u) runtime \<Rightarrow> bool \<Rightarrow> ('p, 'u) GetResponse \<Rightarrow> ('p, 'u) GetResponse \<Rightarrow> ('p, 'u) GetResponse" where
  "GetResponse_CopyFrom rt same from_m m = (if same then m else GetResponse_MergeImpl rt from_m (GetResponse_Clear rt m))"

definition GetResponse_InternalSwap :: "('p, 'u) GetResponse \<times> ('p, 'u) GetResponse \<Rightarrow> ('p, 'u) GetResponse \<times> ('p, 'u) GetResponse" where
  "GetResponse_InternalSwap = (\<lambda>(a, b). (b\<lparr>GetResponse_cached := GetResponse_cached a\<rparr>, a\<lparr>GetResponse_cached := GetResponse_cached b\<rparr>))"

definition GetResponse_value_acc :: "('p, 'u) runtime \<Rightarrow> ('p, 'u) GetResponse str_field" where
  "GetResponse_value_acc rt = str_field rt 1 GetResponse_value GetResponse_value_update GetResponse_has GetResponse_has_update"

definition GetResponse_found_acc :: "('p, 'u) GetResponse bool_field" where
  "GetResponse_found_acc = bool_field 2 GetResponse_found GetResponse_found_update GetResponse_has_update"

definition GetResponse_view :: "('p, 'u) runtime \<Rightarrow> ('p, 'u) GetResponse \<Rightarrow> u32 \<times> 'u \<times> string \<times> bool" where
  "GetResponse_view rt m = (GetResponse_has m, GetResponse_unknown m, rt_get rt (GetResponse_value m), GetResponse_found m)"

definition GetResponse_wf :: "('p, 'u) runtime \<Rightarrow> ('p, 'u) GetResponse \<Rightarrow> bool" where
  "GetResponse_wf rt m \<longleftrightarrow> str_wf rt (GetResponse_has m) 1 (GetResponse_value m) \<and> flag_wf (GetResponse_has m) 2 (GetResponse_found m)"

lemmas GetResponse_defs = GetResponse_new_def GetResponse_Clear_def GetResponse_InternalSerialize_def GetResponse_ByteSizeLong_def GetResponse_MergeImpl_def GetResponse_view_def GetResponse_wf_def

lemma GetResponse_Clear_view:
  "runtime_ok rt \<Longrightarrow> GetResponse_wf rt m \<Longrightarrow> GetResponse_view rt (GetResponse_Clear rt m) = GetResponse_view rt (GetResponse_new rt)"
  by (cases "GetResponse_has m AND 1 = 0") (auto simp: GetResponse_defs Let_def has_bits_zero str_wf_def)

lemma GetResponse_MergeImpl_eq:
  "GetResponse_MergeImpl rt f m = m\<lparr>GetResponse_value := merge_str rt (GetResponse_has f) 1 (GetResponse_value f) (GetResponse_value m), GetResponse_found := merge_flag (GetResponse_has f) 2 (GetResponse_found f) (GetResponse_found m),
     GetResponse_has := GetResponse_has m OR GetResponse_has f, GetResponse_unknown := rt_merge_unknown rt (GetResponse_unknown m) (GetResponse_unknown f)\<rparr>"
  by (auto simp: GetResponse_MergeImpl_def Let_def has_bits_zero)

lemma GetResponse_size_ser:
  "runtime_ok rt \<Longrightarrow> fst (GetResponse_ByteSizeLong rt m) = length (GetResponse_InternalSerialize rt m)"
  by (auto simp: GetResponse_ByteSizeLong_def GetResponse_InternalSerialize_def Let_def has_bits_zero)

interpretation getResponse: proto_message "runtime_ok rt" "GetResponse_new rt" "GetResponse_Clear rt" "GetResponse_MergeImpl rt"
  "GetResponse_InternalSerialize rt" "GetResponse_ByteSizeLong rt" "GetResponse_view rt" "GetResponse_wf rt"
  for rt :: "('p, 'u) runtime"
proof unfold_locales
  show "runtime_ok rt \<Longrightarrow> GetResponse_wf rt (GetResponse_new rt)"
    by (simp add: GetResponse_wf_def GetResponse_new_def)
next
  fix m m' f :: "('p, 'u) GetResponse"
  show "runtime_ok rt \<Longrightarrow> GetResponse_wf rt m \<Longrightarrow> GetResponse_wf rt (GetResponse_Clear rt m)"
    using GetResponse_Clear_view [of rt m] by (simp add: GetResponse_view_def GetResponse_wf_def GetResponse_new_def)
  show "runtime_ok rt \<Longrightarrow> GetResponse_wf rt m \<Longrightarrow> GetResponse_view rt (GetResponse_Clear rt m) = GetResponse_view rt (GetResponse_new rt)"
    by (rule GetResponse_Clear_view)
  show "runtime_ok rt \<Longrightarrow> GetResponse_wf rt m \<Longrightarrow> GetResponse_wf rt f \<Longrightarrow> GetResponse_wf rt (GetResponse_MergeImpl rt f m)"
    by (simp add: GetResponse_MergeImpl_eq GetResponse_wf_def)
  show "runtime_ok rt \<Longrightarrow> GetResponse_wf rt f \<Longrightarrow> GetResponse_view rt m = GetResponse_view rt (GetResponse_new rt) \<Longrightarrow>
      GetResponse_view rt (GetResponse_MergeImpl rt f m) = GetResponse_view rt f"
    by (simp add: GetResponse_MergeImpl_eq GetResponse_wf_def GetResponse_view_def GetResponse_new_def)
  show "GetResponse_view rt m = GetResponse_view rt m' \<Longrightarrow> GetResponse_InternalSerialize rt m = GetResponse_InternalSerialize rt m'"
    by (auto simp: GetResponse_view_def GetResponse_InternalSerialize_def write_str_def)
  show "runtime_ok rt \<Longrightarrow> fst (GetResponse_ByteSizeLong rt m) = length (GetResponse_InternalSerialize rt m)"
    by (rule GetResponse_size_ser)
  show "GetResponse_view rt (snd (GetResponse_ByteSizeLong rt m)) = GetResponse_view rt m"
    by (simp add: GetResponse_ByteSizeLong_def GetResponse_view_def Let_def)
qed

section \<open>\<open>SetRequest\<close>\<close>

record ('p, 'u) SetRequest =
  SetRequest_has :: u32
  SetRequest_actor_id :: "'p"
  SetRequest_key :: "'p"
  SetRequest_value :: "'p"
  SetRequest_unknown :: 'u
  SetRequest_cached :: nat

definition SetRequest_new :: "('p, 'u) runtime \<Rightarrow> ('p, 'u) SetRequest" where
  "SetRequest_new rt = \<lparr>SetRequest_has = 0, SetRequest_actor_id = rt_init rt, SetRequest_key = rt_init rt, SetRequest_value = rt_init rt,
     SetRequest_unknown = rt_no_unknown rt, SetRequest_cached = 0\<rparr>"

definition SetRequest_Clear :: "('p, 'u) runtime \<Rightarrow> ('p, 'u) SetRequest \<Rightarrow> ('p, 'u) SetRequest" where
  "SetRequest_Clear rt m =
     (let h = SetRequest_has m;
          m1 = (if h AND 7 \<noteq> 0 then m\<lparr>SetRequest_actor_id := clear_str rt h 1 (SetRequest_actor_id m), SetRequest_key := clear_str rt h 2 (SetRequest_key m), SetRequest_value := clear_str rt h 4 (SetRequest_value m)\<rparr> else m)
      in m1\<lparr>SetRequest_has := 0, SetRequest_unknown := rt_no_unknown rt\<rparr>)"

definition SetRequest_InternalSerialize :: "('p, 'u) runtime \<Rightarrow> ('p, 'u) SetRequest \<Rightarrow> nat list" where
  "SetRequest_InternalSerialize rt m =
     write_str rt (SetRequest_has m) 1 1 (SetRequest_actor_id m) @
     write_str rt (SetRequest_has m) 2 2 (SetRequest_key m) @
     write_str rt (SetRequest_has m) 4 3 (SetRequest_value m) @
     write_unknown rt (SetRequest_unknown m)"

definition SetRequest_ByteSizeLong :: "('p, 'u) runtime \<Rightarrow> ('p, 'u) SetRequest \<Rightarrow> nat \<times> ('p, 'u) SetRequest" where
  "SetRequest_ByteSizeLong rt m =
     (let h = SetRequest_has m;
          n = (if h AND 7 \<noteq> 0 then size_str rt h 1 (SetRequest_actor_id m) + size_str rt h 2 (SetRequest_key m) + size_str rt h 4 (SetRequest_value m) else 0) +
            size_unknown rt (SetRequest_unknown m)
      in (n, m\<lparr>SetRequest_cached := n\<rparr>))"

definition SetRequest_MergeImpl :: "('p, 'u) runtime \<Rightarrow> ('p, 'u) SetRequest \<Rightarrow> ('p, 'u) SetRequest \<Rightarrow> ('p, 'u) SetRequest" where
  "SetRequest_MergeImpl rt from_m m =
     (let h = SetRequest_has from_m;
          m1 = (if h AND 7 \<noteq> 0 then m\<lparr>
              SetRequest_actor_id := merge_str rt h 1 (SetRequest_actor_id from_m) (SetRequest_actor_id m),
              SetRequest_key := merge_str rt h 2 (SetRequest_key from_m) (SetRequest_key m),
              SetRequest_value := merge_str rt h 4 (SetRequest_value from_m) (SetRequest_value m)\<rparr> else m)
      in m1\<lparr>SetRequest_has := SetRequest_has m OR h,
            SetRequest_unknown := rt_merge_unknown rt (SetRequest_unknown m) (SetRequest_unknown from_m)\<rparr>)"

definition SetRequest_copy_new :: "('p, 'u) runtime \<Rightarrow> ('p, 'u) SetRequest \<Rightarrow> ('p, 'u) SetRequest" where
  "SetRequest_copy_new rt from_m = \<lparr>SetRequest_has = SetRequest_has from_m,
     SetRequest_actor_id = rt_copy rt (SetRequest_actor_id from_m), SetRequest_key = rt_copy rt (SetRequest_key from_m), SetRequest_value = rt_copy rt (SetRequest_value from_m),
     SetRequest_unknown = rt_merge_unknown rt (rt_no_unknown rt) (SetRequest_unknown from_m), SetRequest_cached = 0\<rparr>"

definition SetRequest_CopyFrom :: "('p, 'u) runtime \<Rightarrow> bool \<Rightarrow> ('p, 'u) SetRequest \<Rightarrow> ('p, 'u) SetRequest \<Rightarrow> ('p, 'u) SetRequest" where
  "SetRequest_CopyFrom rt same from_m m = (if same then m else SetRequest_MergeImpl rt from_m (SetRequest_Clear rt m))"

definition SetRequest_InternalSwap :: "('p, 'u) SetRequest \<times> ('p, 'u) SetRequest \<Rightarrow> ('p, 'u) SetRequest \<times> ('p, 'u) SetRequest" where
  "SetRequest_InternalSwap = (\<lambda>(a, b). (b\<lparr>SetRequest_cached := SetRequest_cached a\<rparr>, a\<lparr>SetRequest_cached := SetRequest_cached b\<rparr>))"

definition SetRequest_actor_id_acc :: "('p, 'u) runtime \<Rightarrow> ('p, 'u) SetRequest str_field" where
  "SetRequest_actor_id_acc rt = str_field rt 1 SetRequest_actor_id SetRequest_actor_id_update SetRequest_has SetRequest_has_update"

definition SetRequest_key_acc :: "('p, 'u) runtime \<Rightarrow> ('p, 'u) SetRequest str_field" where
  "SetRequest_key_acc rt = str_field rt 2 SetRequest_key SetRequest_key_update SetRequest_has SetRequest_has_update"

definition SetRequest_value_acc :: "('p, 'u) runtime \<Rightarrow> ('p, 'u) SetRequest str_field" where
  "SetRequest_value_acc rt = str_field rt 4 SetRequest_value SetRequest_value_update SetRequest_has SetRequest_has_update"

definition SetRequest_view :: "('p, 'u) runtime \<Rightarrow> ('p, 'u) SetRequest \<Rightarrow> u32 \<times> 'u \<times> string \<times> string \<times> string" where
  "SetRequest_view rt m = (SetRequest_has m, SetRequest_unknown m, rt_get rt (SetRequest_actor_id m), rt_get rt (SetRequest_key m), rt_get rt (SetRequest_value m))"

definition SetRequest_wf :: "('p, 'u) runtime \<Rightarrow> ('p, 'u) SetRequest \<Rightarrow> bool" where
  "SetRequest_wf rt m \<longleftrightarrow> str_wf rt (SetRequest_has m) 1 (SetRequest_actor_id m) \<and> str_wf rt (SetRequest_has m) 2 (SetRequest_key m) \<and> str_wf rt (SetRequest_has m) 4 (SetRequest_value m)"

lemmas SetRequest_defs = SetRequest_new_def SetRequest_Clear_def SetRequest_InternalSerialize_def SetRequest_ByteSizeLong_def SetRequest_MergeImpl_def SetRequest_view_def SetRequest_wf_def

lemma SetRequest_Clear_view:
  "runtime_ok rt \<Longrightarrow> SetRequest_wf rt m \<Longrightarrow> SetRequest_view rt (SetRequest_Clear rt m) = SetRequest_view rt (SetRequest_new rt)"
  by (cases "SetRequest_has m AND 7 = 0") (auto simp: SetRequest_defs Let_def has_bits_zero str_wf_def)

lemma SetRequest_MergeImpl_eq:
  "SetRequest_MergeImpl rt f m = m\<lparr>SetRequest_actor_id := merge_str rt (SetRequest_has f) 1 (SetRequest_actor_id f) (SetRequest_actor_id m), SetRequest_key := merge_str rt (SetRequest_has f) 2 (SetRequest_key f) (SetRequest_key m), SetRequest_value := merge_str rt (SetRequest_has f) 4 (SetRequest_value f) (SetRequest_value m),
     SetRequest_has := SetRequest_has m OR SetRequest_has f, SetRequest_unknown := rt_merge_unknown rt (SetRequest_unknown m) (SetRequest_unknown f)\<rparr>"
  by (auto simp: SetRequest_MergeImpl_def Let_def has_bits_zero)

lemma SetRequest_size_ser:
  "runtime_ok rt \<Longrightarrow> fst (SetRequest_ByteSizeLong rt m) = length (SetRequest_InternalSerialize rt m)"
  by (auto simp: SetRequest_ByteSizeLong_def SetRequest_InternalSerialize_def Let_def has_bits_zero)

interpretation setRequest: proto_message "runtime_ok rt" "SetRequest_new rt" "SetRequest_Clear rt" "SetRequest_MergeImpl rt"
  "SetRequest_InternalSerialize rt" "SetRequest_ByteSizeLong rt" "SetRequest_view rt" "SetRequest_wf rt"
  for rt :: "('p, 'u) runtime"
proof unfold_locales
  show "runtime_ok rt \<Longrightarrow> SetRequest_wf rt (SetRequest_new rt)"
    by (simp add: SetRequest_wf_def SetRequest_new_def)
next
  fix m m' f :: "('p, 'u) SetRequest"
  show "runtime_ok rt \<Longrightarrow> SetRequest_wf rt m \<Longrightarrow> SetRequest_wf rt (SetRequest_Clear rt m)"
    using SetRequest_Clear_view [of rt m] by (simp add: SetRequest_view_def SetRequest_wf_def SetRequest_new_def)
  show "runtime_ok rt \<Longrightarrow> SetRequest_wf rt m \<Longrightarrow> SetRequest_view rt (SetRequest_Clear rt m) = SetRequest_view rt (SetRequest_new rt)"
    by (rule SetRequest_Clear_view)
  show "runtime_ok rt \<Longrightarrow> SetRequest_wf rt m \<Longrightarrow> SetRequest_wf rt f \<Longrightarrow> SetRequest_wf rt (SetRequest_MergeImpl rt f m)"
    by (simp add: SetRequest_MergeImpl_eq SetRequest_wf_def)
  show "runtime_ok rt \<Longrightarrow> SetRequest_wf rt f \<Longrightarrow> SetRequest_view rt m = SetRequest_view rt (SetRequest_new rt) \<Longrightarrow>
      SetRequest_view rt (SetRequest_MergeImpl rt f m) = SetRequest_view rt f"
    by (simp add: SetRequest_MergeImpl_eq SetRequest_wf_def SetRequest_view_def SetRequest_new_def)
  show "SetRequest_view rt m = SetRequest_view rt m' \<Longrightarrow> SetRequest_InternalSerialize rt m = SetRequest_InternalSerialize rt m'"
    by (auto simp: SetRequest_view_def SetRequest_InternalSerialize_def write_str_def)
  show "runtime_ok rt \<Longrightarrow> fst (SetRequest_ByteSizeLong rt m) = length (SetRequest_InternalSerialize rt m)"
    by (rule SetRequest_size_ser)
  show "SetRequest_view rt (snd (SetRequest_ByteSizeLong rt m)) = SetRequest_view rt m"
    by (simp add: SetRequest_ByteSizeLong_def SetRequest_view_def Let_def)
qed

section \<open>\<open>SetResponse\<close>\<close>

record 'u SetResponse =
  SetResponse_has :: u32
  SetResponse_success :: "bool"
  SetResponse_unknown :: 'u
  SetResponse_cached :: nat

definition SetResponse_new :: "('p, 'u) runtime \<Rightarrow> 'u SetResponse" where
  "SetResponse_new rt = \<lparr>SetResponse_has = 0, SetResponse_success = False,
     SetResponse_unknown = rt_no_unknown rt, SetResponse_cached = 0\<rparr>"

definition SetResponse_Clear :: "('p, 'u) runtime \<Rightarrow> 'u SetResponse \<Rightarrow> 'u SetResponse" where
  "SetResponse_Clear rt m =
     (let h = SetResponse_has m;
          m1 = m
      in m1\<lparr>SetResponse_success := False, SetResponse_has := 0, SetResponse_unknown := rt_no_unknown rt\<rparr>)"

definition SetResponse_InternalSerialize :: "('p, 'u) runtime \<Rightarrow> 'u SetResponse \<Rightarrow> nat list" where
  "SetResponse_InternalSerialize rt m =
     write_flag rt (SetResponse_has m) 1 1 (SetResponse_success m) @
     write_unknown rt (SetResponse_unknown m)"

definition SetResponse_ByteSizeLong :: "('p, 'u) runtime \<Rightarrow> 'u SetResponse \<Rightarrow> nat \<times> 'u SetResponse" where
  "SetResponse_ByteSizeLong rt m =
     (let h = SetResponse_has m;
          n = size_flag h 1 (SetResponse_success m) +
            size_unknown rt (SetResponse_unknown m)
      in (n, m\<lparr>SetResponse_cached := n\<rparr>))"

definition SetResponse_MergeImpl :: "('p, 'u) runtime \<Rightarrow> 'u SetResponse \<Rightarrow> 'u SetResponse \<Rightarrow> 'u SetResponse" where
  "SetResponse_MergeImpl rt from_m m =
     (let h = SetResponse_has from_m;
          m1 = m\<lparr>SetResponse_success := merge_flag h 1 (SetResponse_success from_m) (SetResponse_success m)\<rparr>
      in m1\<lparr>SetResponse_has := SetResponse_has m OR h,
            SetResponse_unknown := rt_merge_unknown rt (SetResponse_unknown m) (SetResponse_unknown from_m)\<rparr>)"

definition SetResponse_copy_new :: "('p, 'u) runtime \<Rightarrow> 'u SetResponse \<Rightarrow> 'u SetResponse" where
  "SetResponse_copy_new rt from_m = from_m\<lparr>SetResponse_unknown := rt_merge_unknown rt (rt_no_unknown rt) (SetResponse_unknown from_m)\<rparr>"

definition SetResponse_CopyFrom :: "('p, 'u) runtime \<Rightarrow> bool \<Rightarrow> 'u SetResponse \<Rightarrow> 'u SetResponse \<Rightarrow> 'u SetResponse" where
  "SetResponse_CopyFrom rt same from_m m = (if same then m else SetResponse_MergeImpl rt from_m (SetResponse_Clear rt m))"

definition SetResponse_InternalSwap :: "'u SetResponse \<times> 'u SetResponse \<Rightarrow> 'u SetResponse \<times> 'u SetResponse" where
  "SetResponse_InternalSwap = (\<lambda>(a, b). (b\<lparr>SetResponse_cached := SetResponse_cached a\<rparr>, a\<lparr>SetResponse_cached := SetResponse_cached b\<rparr>))"

definition SetResponse_success_acc :: "'u SetResponse bool_field" where
  "SetResponse_success_acc = bool_field 1 SetResponse_success SetResponse_success_update SetResponse_has_update"

definition SetResponse_view :: "('p, 'u) runtime \<Rightarrow> 'u SetResponse \<Rightarrow> u32 \<times> 'u \<times> bool" where
  "SetResponse_view rt m = (SetResponse_has m, SetResponse_unknown m, SetResponse_success m)"

definition SetResponse_wf :: "('p, 'u) runtime \<Rightarrow> 'u SetResponse \<Rightarrow> bool" where
  "SetResponse_wf rt m \<longleftrightarrow> flag_wf (SetResponse_has m) 1 (SetResponse_success m)"

lemmas SetResponse_defs = SetResponse_new_def SetResponse_Clear_def SetResponse_InternalSerialize_def SetResponse_ByteSizeLong_def SetResponse_MergeImpl_def SetResponse_view_def SetResponse_wf_def

lemma SetResponse_Clear_view:
  "runtime_ok rt \<Longrightarrow> SetResponse_wf rt m \<Longrightarrow> SetResponse_view rt (SetResponse_Clear rt m) = SetResponse_view rt (SetResponse_new rt)"
  by (cases "SetResponse_has m AND 1 = 0") (auto simp: SetResponse_defs Let_def has_bits_zero str_wf_def)

lemma SetResponse_MergeImpl_eq:
  "SetResponse_MergeImpl rt f m = m\<lparr>SetResponse_success := merge_flag (SetResponse_has f) 1 (SetResponse_success f) (SetResponse_success m),
     SetResponse_has := SetResponse_has m OR SetResponse_has f, SetResponse_unknown := rt_merge_unknown rt (SetResponse_unknown m) (SetResponse_unknown f)\<rparr>"
  by (simp add: SetResponse_MergeImpl_def Let_def)

lemma SetResponse_size_ser:
  "runtime_ok rt \<Longrightarrow> fst (SetResponse_ByteSizeLong rt m) = length (SetResponse_InternalSerialize rt m)"
  by (auto simp: SetResponse_ByteSizeLong_def SetResponse_InternalSerialize_def Let_def has_bits_zero)

interpretation setResponse: proto_message "runtime_ok rt" "SetResponse_new rt" "SetResponse_Clear rt" "SetResponse_MergeImpl rt"
  "SetResponse_InternalSerialize rt" "SetResponse_ByteSizeLong rt" "SetResponse_view rt" "SetResponse_wf rt"
  for rt :: "('p, 'u) runtime"
proof unfold_locales
  show "runtime_ok rt \<Longrightarrow> SetResponse_wf rt (SetResponse_new rt)"
    by (simp add: SetResponse_wf_def SetResponse_new_def)
next
  fix m m' f :: "'u SetResponse"
  show "runtime_ok rt \<Longrightarrow> SetResponse_wf rt m \<Longrightarrow> SetResponse_wf rt (SetResponse_Clear rt m)"
    using SetResponse_Clear_view [of rt m] by (simp add: SetResponse_view_def SetResponse_wf_def SetResponse_new_def)
  show "runtime_ok rt \<Longrightarrow> SetResponse_wf rt m \<Longrightarrow> SetResponse_view rt (SetResponse_Clear rt m) = SetResponse_view rt (SetResponse_new rt)"
    by (rule SetResponse_Clear_view)
  show "runtime_ok rt \<Longrightarrow> SetResponse_wf rt m \<Longrightarrow> SetResponse_wf rt f \<Longrightarrow> SetResponse_wf rt (SetResponse_MergeImpl rt f m)"
    by (simp add: SetResponse_MergeImpl_eq SetResponse_wf_def)
  show "runtime_ok rt \<Longrightarrow> SetResponse_wf rt f \<Longrightarrow> SetResponse_view rt m = SetResponse_view rt (SetResponse_new rt) \<Longrightarrow>
      SetResponse_view rt (SetResponse_MergeImpl rt f m) = SetResponse_view rt f"
    by (simp add: SetResponse_MergeImpl_eq SetResponse_wf_def SetResponse_view_def SetResponse_new_def)
  show "SetResponse_view rt m = SetResponse_view rt m' \<Longrightarrow> SetResponse_InternalSerialize rt m = SetResponse_InternalSerialize rt m'"
    by (auto simp: SetResponse_view_def SetResponse_InternalSerialize_def write_str_def)
  show "runtime_ok rt \<Longrightarrow> fst (SetResponse_ByteSizeLong rt m) = length (SetResponse_InternalSerialize rt m)"
    by (rule SetResponse_size_ser)
  show "SetResponse_view rt (snd (SetResponse_ByteSizeLong rt m)) = SetResponse_view rt m"
    by (simp add: SetResponse_ByteSizeLong_def SetResponse_view_def Let_def)
qed

section \<open>\<open>SubscribeRequest\<close>\<close>

record ('p, 'u) SubscribeRequest =
  SubscribeRequest_has :: u32
  SubscribeRequest_actor_id :: "'p"
  SubscribeRequest_unknown :: 'u
  SubscribeRequest_cached :: nat

definition SubscribeRequest_new :: "('p, 'u) runtime \<Rightarrow> ('p, 'u) SubscribeRequest" where
  "SubscribeRequest_new rt = \<lparr>SubscribeRequest_has = 0, SubscribeRequest_actor_id = rt_init rt,
     SubscribeRequest_unknown = rt_no_unknown rt, SubscribeRequest_cached = 0\<rparr>"

definition SubscribeRequest_Clear :: "('p, 'u) runtime \<Rightarrow> ('p, 'u) SubscribeRequest \<Rightarrow> ('p, 'u) SubscribeRequest" where
  "SubscribeRequest_Clear rt m =
     (let h = SubscribeRequest_has m;
          m1 = m\<lparr>SubscribeRequest_actor_id := clear_str rt h 1 (SubscribeRequest_actor_id m)\<rparr>
      in m1\<lparr>SubscribeRequest_has := 0, SubscribeRequest_unknown := rt_no_unknown rt\<rparr>)"

definition SubscribeRequest_InternalSerialize :: "('p, 'u) runtime \<Rightarrow> ('p, 'u) SubscribeRequest \<Rightarrow> nat list" where
  "SubscribeRequest_InternalSerialize rt m =
     write_str rt (SubscribeRequest_has m) 1 1 (SubscribeRequest_actor_id m) @
     write_unknown rt (SubscribeRequest_unknown m)"

definition SubscribeRequest_ByteSizeLong :: "('p, 'u) runtime \<Rightarrow> ('p, 'u) SubscribeRequest \<Rightarrow> nat \<times> ('p, 'u) SubscribeRequest" where
  "SubscribeRequest_ByteSizeLong rt m =
     (let h = SubscribeRequest_has m;
          n = size_str rt h 1 (SubscribeRequest_actor_id m) +
            size_unknown rt (SubscribeRequest_unknown m)
      in (n, m\<lparr>SubscribeRequest_cached := n\<rparr>))"

definition SubscribeRequest_MergeImpl :: "('p, 'u) runtime \<Rightarrow> ('p, 'u) SubscribeRequest \<Rightarrow> ('p, 'u) SubscribeRequest \<Rightarrow> ('p, 'u) SubscribeRequest" where
  "SubscribeRequest_MergeImpl rt from_m m =
     (let h = SubscribeRequest_has from_m;
          m1 = m\<lparr>SubscribeRequest_actor_id := merge_str rt h 1 (SubscribeRequest_actor_id from_m) (SubscribeRequest_actor_id m)\<rparr>
      in m1\<lparr>SubscribeRequest_has := SubscribeRequest_has m OR h,
            SubscribeRequest_unknown := rt_merge_unknown rt (SubscribeRequest_unknown m) (SubscribeRequest_unknown from_m)\<rparr>)"

definition SubscribeRequest_copy_new :: "('p, 'u) runtime \<Rightarrow> ('p, 'u) SubscribeRequest \<Rightarrow> ('p, 'u) SubscribeRequest" where
  "SubscribeRequest_copy_new rt from_m = \<lparr>SubscribeRequest_has = SubscribeRequest_has from_m,
     SubscribeRequest_actor_id = rt_copy rt (SubscribeRequest_actor_id from_m),
     SubscribeRequest_unknown = rt_merge_unknown rt (rt_no_unknown rt) (SubscribeRequest_unknown from_m), SubscribeRequest_cached = 0\<rparr>"

definition SubscribeRequest_CopyFrom :: "('p, 'u) runtime \<Rightarrow> bool \<Rightarrow> ('p, 'u) SubscribeRequest \<Rightarrow> ('p, 'u) SubscribeRequest \<Rightarrow> ('p, 'u) SubscribeRequest" where
  "SubscribeRequest_CopyFrom rt same from_m m = (if same then m else SubscribeRequest_MergeImpl rt from_m (SubscribeRequest_Clear rt m))"

definition SubscribeRequest_InternalSwap :: "('p, 'u) SubscribeRequest \<times> ('p, 'u) SubscribeRequest \<Rightarrow> ('p, 'u) SubscribeRequest \<times> ('p, 'u) SubscribeRequest" where
  "SubscribeRequest_InternalSwap = (\<lambda>(a, b). (b\<lparr>SubscribeRequest_cached := SubscribeRequest_cached a\<rparr>, a\<lparr>SubscribeRequest_cached := SubscribeRequest_cached b\<rparr>))"

definition SubscribeRequest_actor_id_acc :: "('p, 'u) runtime \<Rightarrow> ('p, 'u) SubscribeRequest str_field" where
  "SubscribeRequest_actor_id_acc rt = str_field rt 1 SubscribeRequest_actor_id SubscribeRequest_actor_id_update SubscribeRequest_has SubscribeRequest_has_update"

definition SubscribeRequest_view :: "('p, 'u) runtime \<Rightarrow> ('p, 'u) SubscribeRequest \<Rightarrow> u32 \<times> 'u \<times> string" where
  "SubscribeRequest_view rt m = (SubscribeRequest_has m, SubscribeRequest_unknown m, rt_get rt (SubscribeRequest_actor_id m))"

definition SubscribeRequest_wf :: "('p, 'u) runtime \<Rightarrow> ('p, 'u) SubscribeRequest \<Rightarrow> bool" where
  "SubscribeRequest_wf rt m \<longleftrightarrow> str_wf rt (SubscribeRequest_has m) 1 (SubscribeRequest_actor_id m)"

lemmas SubscribeRequest_defs = SubscribeRequest_new_def SubscribeRequest_Clear_def SubscribeRequest_InternalSerialize_def SubscribeRequest_ByteSizeLong_def SubscribeRequest_MergeImpl_def SubscribeRequest_view_def SubscribeRequest_wf_def

lemma SubscribeRequest_Clear_view:
  "runtime_ok rt \<Longrightarrow> SubscribeRequest_wf rt m \<Longrightarrow> SubscribeRequest_view rt (SubscribeRequest_Clear rt m) = SubscribeRequest_view rt (SubscribeRequest_new rt)"
  by (cases "SubscribeRequest_has m AND 1 = 0") (auto simp: SubscribeRequest_defs Let_def has_bits_zero str_wf_def)

lemma SubscribeRequest_MergeImpl_eq:
  "SubscribeRequest_MergeImpl rt f m = m\<lparr>SubscribeRequest_actor_id := merge_str rt (SubscribeRequest_has f) 1 (SubscribeRequest_actor_id f) (SubscribeRequest_actor_id m),
     SubscribeRequest_has := SubscribeRequest_has m OR SubscribeRequest_has f, SubscribeRequest_unknown := rt_merge_unknown rt (SubscribeRequest_unknown m) (SubscribeRequest_unknown f)\<rparr>"
  by (simp add: SubscribeRequest_MergeImpl_def Let_def)

lemma SubscribeRequest_size_ser:
  "runtime_ok rt \<Longrightarrow> fst (SubscribeRequest_ByteSizeLong rt m) = length (SubscribeRequest_InternalSerialize rt m)"
  by (auto simp: SubscribeRequest_ByteSizeLong_def SubscribeRequest_InternalSerialize_def Let_def has_bits_zero)

interpretation subscribeRequest: proto_message "runtime_ok rt" "SubscribeRequest_new rt" "SubscribeRequest_Clear rt" "SubscribeRequest_MergeImpl rt"
  "SubscribeRequest_InternalSerialize rt" "SubscribeRequest_ByteSizeLong rt" "SubscribeRequest_view rt" "SubscribeRequest_wf rt"
  for rt :: "('p, 'u) runtime"
proof unfold_locales
  show "runtime_ok rt \<Longrightarrow> SubscribeRequest_wf rt (SubscribeRequest_new rt)"
    by (simp add: SubscribeRequest_wf_def SubscribeRequest_new_def)
next
  fix m m' f :: "('p, 'u) SubscribeRequest"
  show "runtime_ok rt \<Longrightarrow> SubscribeRequest_wf rt m \<Longrightarrow> SubscribeRequest_wf rt (SubscribeRequest_Clear rt m)"
    using SubscribeRequest_Clear_view [of rt m] by (simp add: SubscribeRequest_view_def SubscribeRequest_wf_def SubscribeRequest_new_def)
  show "runtime_ok rt \<Longrightarrow> SubscribeRequest_wf rt m \<Longrightarrow> SubscribeRequest_view rt (SubscribeRequest_Clear rt m) = SubscribeRequest_view rt (SubscribeRequest_new rt)"
    by (rule SubscribeRequest_Clear_view)
  show "runtime_ok rt \<Longrightarrow> SubscribeRequest_wf rt m \<Longrightarrow> SubscribeRequest_wf rt f \<Longrightarrow> SubscribeRequest_wf rt (SubscribeRequest_MergeImpl rt f m)"
    by (simp add: SubscribeRequest_MergeImpl_eq SubscribeRequest_wf_def)
  show "runtime_ok rt \<Longrightarrow> SubscribeRequest_wf rt f \<Longrightarrow> SubscribeRequest_view rt m = SubscribeRequest_view rt (SubscribeRequest_new rt) \<Longrightarrow>
      SubscribeRequest_view rt (SubscribeRequest_MergeImpl rt f m) = SubscribeRequest_view rt f"
    by (simp add: SubscribeRequest_MergeImpl_eq SubscribeRequest_wf_def SubscribeRequest_view_def SubscribeRequest_new_def)
  show "SubscribeRequest_view rt m = SubscribeRequest_view rt m' \<Longrightarrow> SubscribeRequest_InternalSerialize rt m = SubscribeRequest_InternalSerialize rt m'"
    by (auto simp: SubscribeRequest_view_def SubscribeRequest_InternalSerialize_def write_str_def)
  show "runtime_ok rt \<Longrightarrow> fst (SubscribeRequest_ByteSizeLong rt m) = length (SubscribeRequest_InternalSerialize rt m)"
    by (rule SubscribeRequest_size_ser)
  show "SubscribeRequest_view rt (snd (SubscribeRequest_ByteSizeLong rt m)) = SubscribeRequest_view rt m"
    by (simp add: SubscribeRequest_ByteSizeLong_def SubscribeRequest_view_def Let_def)
qed

section \<open>\<open>SpawnActorRequest\<close>\<close>

record ('p, 'u) SpawnActorRequest =
  SpawnActorRequest_has :: u32
  SpawnActorRequest_actor_id :: "'p"
  SpawnActorRequest_initial_state :: "(string \<times> string) list"
  SpawnActorRequest_unknown :: 'u
  SpawnActorRequest_cached :: nat

definition SpawnActorRequest_new :: "('p, 'u) runtime \<Rightarrow> ('p, 'u) SpawnActorRequest" where
  "SpawnActorRequest_new rt = \<lparr>SpawnActorRequest_has = 0, SpawnActorRequest_actor_id = rt_init rt, SpawnActorRequest_initial_state = [],
     SpawnActorRequest_unknown = rt_no_unknown rt, SpawnActorRequest_cached = 0\<rparr>"

definition SpawnActorRequest_Clear :: "('p, 'u) runtime \<Rightarrow> ('p, 'u) SpawnActorRequest \<Rightarrow> ('p, 'u) SpawnActorRequest" where
  "SpawnActorRequest_Clear rt m =
     (let h = SpawnActorRequest_has m;
          m1 = m\<lparr>SpawnActorRequest_initial_state := []\<rparr>\<lparr>SpawnActorRequest_actor_id := clear_str rt h 1 (SpawnActorRequest_actor_id m)\<rparr>
      in m1\<lparr>SpawnActorRequest_has := 0, SpawnActorRequest_unknown := rt_no_unknown rt\<rparr>)"

definition SpawnActorRequest_InternalSerialize :: "('p, 'u) runtime \<Rightarrow> ('p, 'u) SpawnActorRequest \<Rightarrow> nat list" where
  "SpawnActorRequest_InternalSerialize rt m =
     write_str rt (SpawnActorRequest_has m) 1 1 (SpawnActorRequest_actor_id m) @
     write_map rt 2 (SpawnActorRequest_initial_state m) @
     write_unknown rt (SpawnActorRequest_unknown m)"

definition SpawnActorRequest_ByteSizeLong :: "('p, 'u) runtime \<Rightarrow> ('p, 'u) SpawnActorRequest \<Rightarrow> nat \<times> ('p, 'u) SpawnActorRequest" where
  "SpawnActorRequest_ByteSizeLong rt m =
     (let h = SpawnActorRequest_has m;
          n = size_map rt (SpawnActorRequest_initial_state m) + size_str rt h 1 (SpawnActorRequest_actor_id m) +
            size_unknown rt (SpawnActorRequest_unknown m)
      in (n, m\<lparr>SpawnActorRequest_cached := n\<rparr>))"

definition SpawnActorRequest_MergeImpl :: "('p, 'u) runtime \<Rightarrow> ('p, 'u) SpawnActorRequest \<Rightarrow> ('p, 'u) SpawnActorRequest \<Rightarrow> ('p, 'u) SpawnActorRequest" where
  "SpawnActorRequest_MergeImpl rt from_m m =
     (let h = SpawnActorRequest_has from_m;
          m1 = m\<lparr>SpawnActorRequest_initial_state := rt_merge_map rt (SpawnActorRequest_initial_state m) (SpawnActorRequest_initial_state from_m)\<rparr>\<lparr>SpawnActorRequest_actor_id := merge_str rt h 1 (SpawnActorRequest_actor_id from_m) (SpawnActorRequest_actor_id m)\<rparr>
      in m1\<lparr>SpawnActorRequest_has := SpawnActorRequest_has m OR h,
            SpawnActorRequest_unknown := rt_merge_unknown rt (SpawnActorRequest_unknown m) (SpawnActorRequest_unknown from_m)\<rparr>)"

definition SpawnActorRequest_copy_new :: "('p, 'u) runtime \<Rightarrow> ('p, 'u) SpawnActorRequest \<Rightarrow> ('p, 'u) SpawnActorRequest" where
  "SpawnActorRequest_copy_new rt from_m = \<lparr>SpawnActorRequest_has = SpawnActorRequest_has from_m,
     SpawnActorRequest_actor_id = rt_copy rt (SpawnActorRequest_actor_id from_m), SpawnActorRequest_initial_state = (SpawnActorRequest_initial_state from_m),
     SpawnActorRequest_unknown = rt_merge_unknown rt (rt_no_unknown rt) (SpawnActorRequest_unknown from_m), SpawnActorRequest_cached = 0\<rparr>"

definition SpawnActorRequest_CopyFrom :: "('p, 'u) runtime \<Rightarrow> bool \<Rightarrow> ('p, 'u) SpawnActorRequest \<Rightarrow> ('p, 'u) SpawnActorRequest \<Rightarrow> ('p, 'u) SpawnActorRequest" where
  "SpawnActorRequest_CopyFrom rt same from_m m = (if same then m else SpawnActorRequest_MergeImpl rt from_m (SpawnActorRequest_Clear rt m))"

definition SpawnActorRequest_InternalSwap :: "('p, 'u) SpawnActorRequest \<times> ('p, 'u) SpawnActorRequest \<Rightarrow> ('p, 'u) SpawnActorRequest \<times> ('p, 'u) SpawnActorRequest" where
  "SpawnActorRequest_InternalSwap = (\<lambda>(a, b). (b\<lparr>SpawnActorRequest_cached := SpawnActorRequest_cached a\<rparr>, a\<lparr>SpawnActorRequest_cached := SpawnActorRequest_cached b\<rparr>))"

definition SpawnActorRequest_actor_id_acc :: "('p, 'u) runtime \<Rightarrow> ('p, 'u) SpawnActorRequest str_field" where
  "SpawnActorRequest_actor_id_acc rt = str_field rt 1 SpawnActorRequest_actor_id SpawnActorRequest_actor_id_update SpawnActorRequest_has SpawnActorRequest_has_update"

definition SpawnActorRequest_initial_state_acc :: "('p, 'u) SpawnActorRequest map_field" where
  "SpawnActorRequest_initial_state_acc = map_field SpawnActorRequest_initial_state SpawnActorRequest_initial_state_update"

definition SpawnActorRequest_view :: "('p, 'u) runtime \<Rightarrow> ('p, 'u) SpawnActorRequest \<Rightarrow> u32 \<times> 'u \<times> string \<times> (string \<times> string) list" where
  "SpawnActorRequest_view rt m = (SpawnActorRequest_has m, SpawnActorRequest_unknown m, rt_get rt (SpawnActorRequest_actor_id m), SpawnActorRequest_initial_state m)"

definition SpawnActorRequest_wf :: "('p, 'u) runtime \<Rightarrow> ('p, 'u) SpawnActorRequest \<Rightarrow> bool" where
  "SpawnActorRequest_wf rt m \<longleftrightarrow> str_wf rt (SpawnActorRequest_has m) 1 (SpawnActorRequest_actor_id m)"

lemmas SpawnActorRequest_defs = SpawnActorRequest_new_def SpawnActorRequest_Clear_def SpawnActorRequest_InternalSerialize_def SpawnActorRequest_ByteSizeLong_def SpawnActorRequest_MergeImpl_def SpawnActorRequest_view_def SpawnActorRequest_wf_def

lemma SpawnActorRequest_Clear_view:
  "runtime_ok rt \<Longrightarrow> SpawnActorRequest_wf rt m \<Longrightarrow> SpawnActorRequest_view rt (SpawnActorRequest_Clear rt m) = SpawnActorRequest_view rt (SpawnActorRequest_new rt)"
  by (cases "SpawnActorRequest_has m AND 1 = 0") (auto simp: SpawnActorRequest_defs Let_def has_bits_zero str_wf_def)

lemma SpawnActorRequest_MergeImpl_eq:
  "SpawnActorRequest_MergeImpl rt f m = m\<lparr>SpawnActorRequest_actor_id := merge_str rt (SpawnActorRequest_has f) 1 (SpawnActorRequest_actor_id f) (SpawnActorRequest_actor_id m), SpawnActorRequest_initial_state := rt_merge_map rt (SpawnActorRequest_initial_state m) (SpawnActorRequest_initial_state f),
     SpawnActorRequest_has := SpawnActorRequest_has m OR SpawnActorRequest_has f, SpawnActorRequest_unknown := rt_merge_unknown rt (SpawnActorRequest_unknown m) (SpawnActorRequest_unknown f)\<rparr>"
  by (simp add: SpawnActorRequest_MergeImpl_def Let_def)

lemma SpawnActorRequest_size_ser:
  "runtime_ok rt \<Longrightarrow> fst (SpawnActorRequest_ByteSizeLong rt m) = length (SpawnActorRequest_InternalSerialize rt m)"
  by (auto simp: SpawnActorRequest_ByteSizeLong_def SpawnActorRequest_InternalSerialize_def Let_def has_bits_zero)

interpretation spawnActorRequest: proto_message "runtime_ok rt" "SpawnActorRequest_new rt" "SpawnActorRequest_Clear rt" "SpawnActorRequest_MergeImpl rt"
  "SpawnActorRequest_InternalSerialize rt" "SpawnActorRequest_ByteSizeLong rt" "SpawnActorRequest_view rt" "SpawnActorRequest_wf rt"
  for rt :: "('p, 'u) runtime"
proof unfold_locales
  show "runtime_ok rt \<Longrightarrow> SpawnActorRequest_wf rt (SpawnActorRequest_new rt)"
    by (simp add: SpawnActorRequest_wf_def SpawnActorRequest_new_def)
next
  fix m m' f :: "('p, 'u) SpawnActorRequest"
  show "runtime_ok rt \<Longrightarrow> SpawnActorRequest_wf rt m \<Longrightarrow> SpawnActorRequest_wf rt (SpawnActorRequest_Clear rt m)"
    using SpawnActorRequest_Clear_view [of rt m] by (simp add: SpawnActorRequest_view_def SpawnActorRequest_wf_def SpawnActorRequest_new_def)
  show "runtime_ok rt \<Longrightarrow> SpawnActorRequest_wf rt m \<Longrightarrow> SpawnActorRequest_view rt (SpawnActorRequest_Clear rt m) = SpawnActorRequest_view rt (SpawnActorRequest_new rt)"
    by (rule SpawnActorRequest_Clear_view)
  show "runtime_ok rt \<Longrightarrow> SpawnActorRequest_wf rt m \<Longrightarrow> SpawnActorRequest_wf rt f \<Longrightarrow> SpawnActorRequest_wf rt (SpawnActorRequest_MergeImpl rt f m)"
    by (simp add: SpawnActorRequest_MergeImpl_eq SpawnActorRequest_wf_def)
  show "runtime_ok rt \<Longrightarrow> SpawnActorRequest_wf rt f \<Longrightarrow> SpawnActorRequest_view rt m = SpawnActorRequest_view rt (SpawnActorRequest_new rt) \<Longrightarrow>
      SpawnActorRequest_view rt (SpawnActorRequest_MergeImpl rt f m) = SpawnActorRequest_view rt f"
    by (simp add: SpawnActorRequest_MergeImpl_eq SpawnActorRequest_wf_def SpawnActorRequest_view_def SpawnActorRequest_new_def)
  show "SpawnActorRequest_view rt m = SpawnActorRequest_view rt m' \<Longrightarrow> SpawnActorRequest_InternalSerialize rt m = SpawnActorRequest_InternalSerialize rt m'"
    by (auto simp: SpawnActorRequest_view_def SpawnActorRequest_InternalSerialize_def write_str_def)
  show "runtime_ok rt \<Longrightarrow> fst (SpawnActorRequest_ByteSizeLong rt m) = length (SpawnActorRequest_InternalSerialize rt m)"
    by (rule SpawnActorRequest_size_ser)
  show "SpawnActorRequest_view rt (snd (SpawnActorRequest_ByteSizeLong rt m)) = SpawnActorRequest_view rt m"
    by (simp add: SpawnActorRequest_ByteSizeLong_def SpawnActorRequest_view_def Let_def)
qed

section \<open>\<open>SpawnActorResponse\<close>\<close>

record ('p, 'u) SpawnActorResponse =
  SpawnActorResponse_has :: u32
  SpawnActorResponse_success :: "bool"
  SpawnActorResponse_error_message :: "'p"
  SpawnActorResponse_unknown :: 'u
  SpawnActorResponse_cached :: nat

definition SpawnActorResponse_new :: "('p, 'u) runtime \<Rightarrow> ('p, 'u) SpawnActorResponse" where
  "SpawnActorResponse_new rt = \<lparr>SpawnActorResponse_has = 0, SpawnActorResponse_success = False, SpawnActorResponse_error_message = rt_init rt,
     SpawnActorResponse_unknown = rt_no_unknown rt, SpawnActorResponse_cached = 0\<rparr>"

definition SpawnActorResponse_Clear :: "('p, 'u) runtime \<Rightarrow> ('p, 'u) SpawnActorResponse \<Rightarrow> ('p, 'u) SpawnActorResponse" where
  "SpawnActorResponse_Clear rt m =
     (let h = SpawnActorResponse_has m;
          m1 = m\<lparr>SpawnActorResponse_error_message := clear_str rt h 1 (SpawnActorResponse_error_message m)\<rparr>
      in m1\<lparr>SpawnActorResponse_success := False, SpawnActorResponse_has := 0, SpawnActorResponse_unknown := rt_no_unknown rt\<rparr>)"

definition SpawnActorResponse_InternalSerialize :: "('p, 'u) runtime \<Rightarrow> ('p, 'u) SpawnActorResponse \<Rightarrow> nat list" where
  "SpawnActorResponse_InternalSerialize rt m =
     write_flag rt (SpawnActorResponse_has m) 2 1 (SpawnActorResponse_success m) @
     write_str rt (SpawnActorResponse_has m) 1 2 (SpawnActorResponse_error_message m) @
     write_unknown rt (SpawnActorResponse_unknown m)"

definition SpawnActorResponse_ByteSizeLong :: "('p, 'u) runtime \<Rightarrow> ('p, 'u) SpawnActorResponse \<Rightarrow> nat \<times> ('p, 'u) SpawnActorResponse" where
  "SpawnActorResponse_ByteSizeLong rt m =
     (let h = SpawnActorResponse_has m;
          n = (if h AND 3 \<noteq> 0 then size_str rt h 1 (SpawnActorResponse_error_message m) + size_flag h 2 (SpawnActorResponse_success m) else 0) +
            size_unknown rt (SpawnActorResponse_unknown m)
      in (n, m\<lparr>SpawnActorResponse_cached := n\<rparr>))"

definition SpawnActorResponse_MergeImpl :: "('p, 'u) runtime \<Rightarrow> ('p, 'u) SpawnActorResponse \<Rightarrow> ('p, 'u) SpawnActorResponse \<Rightarrow> ('p, 'u) SpawnActorResponse" where
  "SpawnActorResponse_MergeImpl rt from_m m =
     (let h = SpawnActorResponse_has from_m;
          m1 = (if h AND 3 \<noteq> 0 then m\<lparr>
              SpawnActorResponse_error_message := merge_str rt h 1 (SpawnActorResponse_error_message from_m) (SpawnActorResponse_error_message m),
              SpawnActorResponse_success := merge_flag h 2 (SpawnActorResponse_success from_m) (SpawnActorResponse_success m)\<rparr> else m)
      in m1\<lparr>SpawnActorResponse_has := SpawnActorResponse_has m OR h,
            SpawnActorResponse_unknown := rt_merge_unknown rt (SpawnActorResponse_unknown m) (SpawnActorResponse_unknown from_m)\<rparr>)"

definition SpawnActorResponse_copy_new :: "('p, 'u) runtime \<Rightarrow> ('p, 'u) SpawnActorResponse \<Rightarrow> ('p, 'u) SpawnActorResponse" where
  "SpawnActorResponse_copy_new rt from_m = \<lparr>SpawnActorResponse_has = SpawnActorResponse_has from_m,
     SpawnActorResponse_success = (SpawnActorResponse_success from_m), SpawnActorResponse_error_message = rt_copy rt (SpawnActorResponse_error_message from_m),
     SpawnActorResponse_unknown = rt_merge_unknown rt (rt_no_unknown rt) (SpawnActorResponse_unknown from_m), SpawnActorResponse_cached = 0\<rparr>"

definition SpawnActorResponse_CopyFrom :: "('p, 'u) runtime \<Rightarrow> bool \<Rightarrow> ('p, 'u) SpawnActorResponse \<Rightarrow> ('p, 'u) SpawnActorResponse \<Rightarrow> ('p, 'u) SpawnActorResponse" where
  "SpawnActorResponse_CopyFrom rt same from_m m = (if same then m else SpawnActorResponse_MergeImpl rt from_m (SpawnActorResponse_Clear rt m))"

definition SpawnActorResponse_InternalSwap :: "('p, 'u) SpawnActorResponse \<times> ('p, 'u) SpawnActorResponse \<Rightarrow> ('p, 'u) SpawnActorResponse \<times> ('p, 'u) SpawnActorResponse" where
  "SpawnActorResponse_InternalSwap = (\<lambda>(a, b). (b\<lparr>SpawnActorResponse_cached := SpawnActorResponse_cached a\<rparr>, a\<lparr>SpawnActorResponse_cached := SpawnActorResponse_cached b\<rparr>))"

definition SpawnActorResponse_success_acc :: "('p, 'u) SpawnActorResponse bool_field" where
  "SpawnActorResponse_success_acc = bool_field 2 SpawnActorResponse_success SpawnActorResponse_success_update SpawnActorResponse_has_update"

definition SpawnActorResponse_error_message_acc :: "('p, 'u) runtime \<Rightarrow> ('p, 'u) SpawnActorResponse str_field" where
  "SpawnActorResponse_error_message_acc rt = str_field rt 1 SpawnActorResponse_error_message SpawnActorResponse_error_message_update SpawnActorResponse_has SpawnActorResponse_has_update"

definition SpawnActorResponse_view :: "('p, 'u) runtime \<Rightarrow> ('p, 'u) SpawnActorResponse \<Rightarrow> u32 \<times> 'u \<times> bool \<times> string" where
  "SpawnActorResponse_view rt m = (SpawnActorResponse_has m, SpawnActorResponse_unknown m, SpawnActorResponse_success m, rt_get rt (SpawnActorResponse_error_message m))"

definition SpawnActorResponse_wf :: "('p, 'u) runtime \<Rightarrow> ('p, 'u) SpawnActorResponse \<Rightarrow> bool" where
  "SpawnActorResponse_wf rt m \<longleftrightarrow> str_wf rt (SpawnActorResponse_has m) 1 (SpawnActorResponse_error_message m) \<and> flag_wf (SpawnActorResponse_has m) 2 (SpawnActorResponse_success m)"

lemmas SpawnActorResponse_defs = SpawnActorResponse_new_def SpawnActorResponse_Clear_def SpawnActorResponse_InternalSerialize_def SpawnActorResponse_ByteSizeLong_def SpawnActorResponse_MergeImpl_def SpawnActorResponse_view_def SpawnActorResponse_wf_def

lemma SpawnActorResponse_Clear_view:
  "runtime_ok rt \<Longrightarrow> SpawnActorResponse_wf rt m \<Longrightarrow> SpawnActorResponse_view rt (SpawnActorResponse_Clear rt m) = SpawnActorResponse_view rt (SpawnActorResponse_new rt)"
  by (cases "SpawnActorResponse_has m AND 1 = 0") (auto simp: SpawnActorResponse_defs Let_def has_bits_zero str_wf_def)

lemma SpawnActorResponse_MergeImpl_eq:
  "SpawnActorResponse_MergeImpl rt f m = m\<lparr>SpawnActorResponse_error_message := merge_str rt (SpawnActorResponse_has f) 1 (SpawnActorResponse_error_message f) (SpawnActorResponse_error_message m), SpawnActorResponse_success := merge_flag (SpawnActorResponse_has f) 2 (SpawnActorResponse_success f) (SpawnActorResponse_success m),
     SpawnActorResponse_has := SpawnActorResponse_has m OR SpawnActorResponse_has f, SpawnActorResponse_unknown := rt_merge_unknown rt (SpawnActorResponse_unknown m) (SpawnActorResponse_unknown f)\<rparr>"
  by (auto simp: SpawnActorResponse_MergeImpl_def Let_def has_bits_zero)

lemma SpawnActorResponse_size_ser:
  "runtime_ok rt \<Longrightarrow> fst (SpawnActorResponse_ByteSizeLong rt m) = length (SpawnActorResponse_InternalSerialize rt m)"
  by (auto simp: SpawnActorResponse_ByteSizeLong_def SpawnActorResponse_InternalSerialize_def Let_def has_bits_zero)

interpretation spawnActorResponse: proto_message "runtime_ok rt" "SpawnActorResponse_new rt" "SpawnActorResponse_Clear rt" "SpawnActorResponse_MergeImpl rt"
  "SpawnActorResponse_InternalSerialize rt" "SpawnActorResponse_ByteSizeLong rt" "SpawnActorResponse_view rt" "SpawnActorResponse_wf rt"
  for rt :: "('p, 'u) runtime"
proof unfold_locales
  show "runtime_ok rt \<Longrightarrow> SpawnActorResponse_wf rt (SpawnActorResponse_new rt)"
    by (simp add: SpawnActorResponse_wf_def SpawnActorResponse_new_def)
next
  fix m m' f :: "('p, 'u) SpawnActorResponse"
  show "runtime_ok rt \<Longrightarrow> SpawnActorResponse_wf rt m \<Longrightarrow> SpawnActorResponse_wf rt (SpawnActorResponse_Clear rt m)"
    using SpawnActorResponse_Clear_view [of rt m] by (simp add: SpawnActorResponse_view_def SpawnActorResponse_wf_def SpawnActorResponse_new_def)
  show "runtime_ok rt \<Longrightarrow> SpawnActorResponse_wf rt m \<Longrightarrow> SpawnActorResponse_view rt (SpawnActorResponse_Clear rt m) = SpawnActorResponse_view rt (SpawnActorResponse_new rt)"
    by (rule SpawnActorResponse_Clear_view)
  show "runtime_ok rt \<Longrightarrow> SpawnActorResponse_wf rt m \<Longrightarrow> SpawnActorResponse_wf rt f \<Longrightarrow> SpawnActorResponse_wf rt (SpawnActorResponse_MergeImpl rt f m)"
    by (simp add: SpawnActorResponse_MergeImpl_eq SpawnActorResponse_wf_def)
  show "runtime_ok rt \<Longrightarrow> SpawnActorResponse_wf rt f \<Longrightarrow> SpawnActorResponse_view rt m = SpawnActorResponse_view rt (SpawnActorResponse_new rt) \<Longrightarrow>
      SpawnActorResponse_view rt (SpawnActorResponse_MergeImpl rt f m) = SpawnActorResponse_view rt f"
    by (simp add: SpawnActorResponse_MergeImpl_eq SpawnActorResponse_wf_def SpawnActorResponse_view_def SpawnActorResponse_new_def)
  show "SpawnActorResponse_view rt m = SpawnActorResponse_view rt m' \<Longrightarrow> SpawnActorResponse_InternalSerialize rt m = SpawnActorResponse_InternalSerialize rt m'"
    by (auto simp: SpawnActorResponse_view_def SpawnActorResponse_InternalSerialize_def write_str_def)
  show "runtime_ok rt \<Longrightarrow> fst (SpawnActorResponse_ByteSizeLong rt m) = length (SpawnActorResponse_InternalSerialize rt m)"
    by (rule SpawnActorResponse_size_ser)
  show "SpawnActorResponse_view rt (snd (SpawnActorResponse_ByteSizeLong rt m)) = SpawnActorResponse_view rt m"
    by (simp add: SpawnActorResponse_ByteSizeLong_def SpawnActorResponse_view_def Let_def)
qed

section \<open>\<open>TerminateActorRequest\<close>\<close>

record ('p, 'u) TerminateActorRequest =
  TerminateActorRequest_has :: u32
  TerminateActorRequest_actor_id :: "'p"
  TerminateActorRequest_force :: "bool"
  TerminateActorRequest_unknown :: 'u
  TerminateActorRequest_cached :: nat

definition TerminateActorRequest_new :: "('p, 'u) runtime \<Rightarrow> ('p, 'u) TerminateActorRequest" where
  "TerminateActorRequest_new rt = \<lparr>TerminateActorRequest_has = 0, TerminateActorRequest_actor_id = rt_init rt, TerminateActorRequest_force = False,
     TerminateActorRequest_unknown = rt_no_unknown rt, TerminateActorRequest_cached = 0\<rparr>"

definition TerminateActorRequest_Clear :: "('p, 'u) runtime \<Rightarrow> ('p, 'u) TerminateActorRequest \<Rightarrow> ('p, 'u) TerminateActorRequest" where
  "TerminateActorRequest_Clear rt m =
     (let h = TerminateActorRequest_has m;
          m1 = m\<lparr>TerminateActorRequest_actor_id := clear_str rt h 1 (TerminateActorRequest_actor_id m)\<rparr>
      in m1\<lparr>TerminateActorRequest_force := False, TerminateActorRequest_has := 0, TerminateActorRequest_unknown := rt_no_unknown rt\<rparr>)"

definition TerminateActorRequest_InternalSerialize :: "('p, 'u) runtime \<Rightarrow> ('p, 'u) TerminateActorRequest \<Rightarrow> nat list" where
  "TerminateActorRequest_InternalSerialize rt m =
     write_str rt (TerminateActorRequest_has m) 1 1 (TerminateActorRequest_actor_id m) @
     write_flag rt (TerminateActorRequest_has m) 2 2 (TerminateActorRequest_force m) @
     write_unknown rt (TerminateActorRequest_unknown m)"

definition TerminateActorRequest_ByteSizeLong :: "('p, 'u) runtime \<Rightarrow> ('p, 'u) TerminateActorRequest \<Rightarrow> nat \<times> ('p, 'u) TerminateActorRequest" where
  "TerminateActorRequest_ByteSizeLong rt m =
     (let h = TerminateActorRequest_has m;
          n = (if h AND 3 \<noteq> 0 then size_str rt h 1 (TerminateActorRequest_actor_id m) + size_flag h 2 (TerminateActorRequest_force m) else 0) +
            size_unknown rt (TerminateActorRequest_unknown m)
      in (n, m\<lparr>TerminateActorRequest_cached := n\<rparr>))"

definition TerminateActorRequest_MergeImpl :: "('p, 'u) runtime \<Rightarrow> ('p, 'u) TerminateActorRequest \<Rightarrow> ('p, 'u) TerminateActorRequest \<Rightarrow> ('p, 'u) TerminateActorRequest" where
  "TerminateActorRequest_MergeImpl rt from_m m =
     (let h = TerminateActorRequest_has from_m;
          m1 = (if h AND 3 \<noteq> 0 then m\<lparr>
              TerminateActorRequest_actor_id := merge_str rt h 1 (TerminateActorRequest_actor_id from_m) (TerminateActorRequest_actor_id m),
              TerminateActorRequest_force := merge_flag h 2 (TerminateActorRequest_force from_m) (TerminateActorRequest_force m)\<rparr> else m)
      in m1\<lparr>TerminateActorRequest_has := TerminateActorRequest_has m OR h,
            TerminateActorRequest_unknown := rt_merge_unknown rt (TerminateActorRequest_unknown m) (TerminateActorRequest_unknown from_m)\<rparr>)"

definition TerminateActorRequest_copy_new :: "('p, 'u) runtime \<Rightarrow> ('p, 'u) TerminateActorRequest \<Rightarrow> ('p, 'u) TerminateActorRequest" where
  "TerminateActorRequest_copy_new rt from_m = \<lparr>TerminateActorRequest_has = TerminateActorRequest_has from_m,
     TerminateActorRequest_actor_id = rt_copy rt (TerminateActorRequest_actor_id from_m), TerminateActorRequest_force = (TerminateActorRequest_force from_m),
     TerminateActorRequest_unknown = rt_merge_unknown rt (rt_no_unknown rt) (TerminateActorRequest_unknown from_m), TerminateActorRequest_cached = 0\<rparr>"

definition TerminateActorRequest_CopyFrom :: "('p, 'u) runtime \<Rightarrow> bool \<Rightarrow> ('p, 'u) TerminateActorRequest \<Rightarrow> ('p, 'u) TerminateActorRequest \<Rightarrow> ('p, 'u) TerminateActorRequest" where
  "TerminateActorRequest_CopyFrom rt same from_m m = (if same then m else TerminateActorRequest_MergeImpl rt from_m (TerminateActorRequest_Clear rt m))"

definition TerminateActorRequest_InternalSwap :: "('p, 'u) TerminateActorRequest \<times> ('p, 'u) TerminateActorRequest \<Rightarrow> ('p, 'u) TerminateActorRequest \<times> ('p, 'u) TerminateActorRequest" where
  "TerminateActorRequest_InternalSwap = (\<lambda>(a, b). (b\<lparr>TerminateActorRequest_cached := TerminateActorRequest_cached a\<rparr>, a\<lparr>TerminateActorRequest_cached := TerminateActorRequest_cached b\<rparr>))"

definition TerminateActorRequest_actor_id_acc :: "('p, 'u) runtime \<Rightarrow> ('p, 'u) TerminateActorRequest str_field" where
  "TerminateActorRequest_actor_id_acc rt = str_field rt 1 TerminateActorRequest_actor_id TerminateActorRequest_actor_id_update TerminateActorRequest_has TerminateActorRequest_has_update"

definition TerminateActorRequest_force_acc :: "('p, 'u) TerminateActorRequest bool_field" where
  "TerminateActorRequest_force_acc = bool_field 2 TerminateActorRequest_force TerminateActorRequest_force_update TerminateActorRequest_has_update"

definition TerminateActorRequest_view :: "('p, 'u) runtime \<Rightarrow> ('p, 'u) TerminateActorRequest \<Rightarrow> u32 \<times> 'u \<times> string \<times> bool" where
  "TerminateActorRequest_view rt m = (TerminateActorRequest_has m, TerminateActorRequest_unknown m, rt_get rt (TerminateActorRequest_actor_id m), TerminateActorRequest_force m)"

definition TerminateActorRequest_wf :: "('p, 'u) runtime \<Rightarrow> ('p, 'u) TerminateActorRequest \<Rightarrow> bool" where
  "TerminateActorRequest_wf rt m \<longleftrightarrow> str_wf rt (TerminateActorRequest_has m) 1 (TerminateActorRequest_actor_id m) \<and> flag_wf (TerminateActorRequest_has m) 2 (TerminateActorRequest_force m)"

lemmas TerminateActorRequest_defs = TerminateActorRequest_new_def TerminateActorRequest_Clear_def TerminateActorRequest_InternalSerialize_def TerminateActorRequest_ByteSizeLong_def TerminateActorRequest_MergeImpl_def TerminateActorRequest_view_def TerminateActorRequest_wf_def

lemma TerminateActorRequest_Clear_view:
  "runtime_ok rt \<Longrightarrow> TerminateActorRequest_wf rt m \<Longrightarrow> TerminateActorRequest_view rt (TerminateActorRequest_Clear rt m) = TerminateActorRequest_view rt (TerminateActorRequest_new rt)"
  by (cases "TerminateActorRequest_has m AND 1 = 0") (auto simp: TerminateActorRequest_defs Let_def has_bits_zero str_wf_def)

lemma TerminateActorRequest_MergeImpl_eq:
  "TerminateActorRequest_MergeImpl rt f m = m\<lparr>TerminateActorRequest_actor_id := merge_str rt (TerminateActorRequest_has f) 1 (TerminateActorRequest_actor_id f) (TerminateActorRequest_actor_id m), TerminateActorRequest_force := merge_flag (TerminateActorRequest_has f) 2 (TerminateActorRequest_force f) (TerminateActorRequest_force m),
     TerminateActorRequest_has := TerminateActorRequest_has m OR TerminateActorRequest_has f, TerminateActorRequest_unknown := rt_merge_unknown rt (TerminateActorRequest_unknown m) (TerminateActorRequest_unknown f)\<rparr>"
  by (auto simp: TerminateActorRequest_MergeImpl_def Let_def has_bits_zero)

lemma TerminateActorRequest_size_ser:
  "runtime_ok rt \<Longrightarrow> fst (TerminateActorRequest_ByteSizeLong rt m) = length (TerminateActorRequest_InternalSerialize rt m)"
  by (auto simp: TerminateActorRequest_ByteSizeLong_def TerminateActorRequest_InternalSerialize_def Let_def has_bits_zero)

interpretation terminateActorRequest: proto_message "runtime_ok rt" "TerminateActorRequest_new rt" "TerminateActorRequest_Clear rt" "TerminateActorRequest_MergeImpl rt"
  "TerminateActorRequest_InternalSerialize rt" "TerminateActorRequest_ByteSizeLong rt" "TerminateActorRequest_view rt" "TerminateActorRequest_wf rt"
  for rt :: "('p, 'u) runtime"
proof unfold_locales
  show "runtime_ok rt \<Longrightarrow> TerminateActorRequest_wf rt (TerminateActorRequest_new rt)"
    by (simp add: TerminateActorRequest_wf_def TerminateActorRequest_new_def)
next
  fix m m' f :: "('p, 'u) TerminateActorRequest"
  show "runtime_ok rt \<Longrightarrow> TerminateActorRequest_wf rt m \<Longrightarrow> TerminateActorRequest_wf rt (TerminateActorRequest_Clear rt m)"
    using TerminateActorRequest_Clear_view [of rt m] by (simp add: TerminateActorRequest_view_def TerminateActorRequest_wf_def TerminateActorRequest_new_def)
  show "runtime_ok rt \<Longrightarrow> TerminateActorRequest_wf rt m \<Longrightarrow> TerminateActorRequest_view rt (TerminateActorRequest_Clear rt m) = TerminateActorRequest_view rt (TerminateActorRequest_new rt)"
    by (rule TerminateActorRequest_Clear_view)
  show "runtime_ok rt \<Longrightarrow> TerminateActorRequest_wf rt m \<Longrightarrow> TerminateActorRequest_wf rt f \<Longrightarrow> TerminateActorRequest_wf rt (TerminateActorRequest_MergeImpl rt f m)"
    by (simp add: TerminateActorRequest_MergeImpl_eq TerminateActorRequest_wf_def)
  show "runtime_ok rt \<Longrightarrow> TerminateActorRequest_wf rt f \<Longrightarrow> TerminateActorRequest_view rt m = TerminateActorRequest_view rt (TerminateActorRequest_new rt) \<Longrightarrow>
      TerminateActorRequest_view rt (TerminateActorRequest_MergeImpl rt f m) = TerminateActorRequest_view rt f"
    by (simp add: TerminateActorRequest_MergeImpl_eq TerminateActorRequest_wf_def TerminateActorRequest_view_def TerminateActorRequest_new_def)
  show "TerminateActorRequest_view rt m = TerminateActorRequest_view rt m' \<Longrightarrow> TerminateActorRequest_InternalSerialize rt m = TerminateActorRequest_InternalSerialize rt m'"
    by (auto simp: TerminateActorRequest_view_def TerminateActorRequest_InternalSerialize_def write_str_def)
  show "runtime_ok rt \<Longrightarrow> fst (TerminateActorRequest_ByteSizeLong rt m) = length (TerminateActorRequest_InternalSerialize rt m)"
    by (rule TerminateActorRequest_size_ser)
  show "TerminateActorRequest_view rt (snd (TerminateActorRequest_ByteSizeLong rt m)) = TerminateActorRequest_view rt m"
    by (simp add: TerminateActorRequest_ByteSizeLong_def TerminateActorRequest_view_def Let_def)
qed

section \<open>\<open>TerminateActorResponse\<close>\<close>

record ('p, 'u) TerminateActorResponse =
  TerminateActorResponse_has :: u32
  TerminateActorResponse_success :: "bool"
  TerminateActorResponse_error_message :: "'p"
  TerminateActorResponse_unknown :: 'u
  TerminateActorResponse_cached :: nat

definition TerminateActorResponse_new :: "('p, 'u) runtime \<Rightarrow> ('p, 'u) TerminateActorResponse" where
  "TerminateActorResponse_new rt = \<lparr>TerminateActorResponse_has = 0, TerminateActorResponse_success = False, TerminateActorResponse_error_message = rt_init rt,
     TerminateActorResponse_unknown = rt_no_unknown rt, TerminateActorResponse_cached = 0\<rparr>"

definition TerminateActorResponse_Clear :: "('p, 'u) runtime \<Rightarrow> ('p, 'u) TerminateActorResponse \<Rightarrow> ('p, 'u) TerminateActorResponse" where
  "TerminateActorResponse_Clear rt m =
     (let h = TerminateActorResponse_has m;
          m1 = m\<lparr>TerminateActorResponse_error_message := clear_str rt h 1 (TerminateActorResponse_error_message m)\<rparr>
      in m1\<lparr>TerminateActorResponse_success := False, TerminateActorResponse_has := 0, TerminateActorResponse_unknown := rt_no_unknown rt\<rparr>)"

definition TerminateActorResponse_InternalSerialize :: "('p, 'u) runtime \<Rightarrow> ('p, 'u) TerminateActorResponse \<Rightarrow> nat list" where
  "TerminateActorResponse_InternalSerialize rt m =
     write_flag rt (TerminateActorResponse_has m) 2 1 (TerminateActorResponse_success m) @
     write_str rt (TerminateActorResponse_has m) 1 2 (TerminateActorResponse_error_message m) @
     write_unknown rt (TerminateActorResponse_unknown m)"

definition TerminateActorResponse_ByteSizeLong :: "('p, 'u) runtime \<Rightarrow> ('p, 'u) TerminateActorResponse \<Rightarrow> nat \<times> ('p, 'u) TerminateActorResponse" where
  "TerminateActorResponse_ByteSizeLong rt m =
     (let h = TerminateActorResponse_has m;
          n = (if h AND 3 \<noteq> 0 then size_str rt h 1 (TerminateActorResponse_error_message m) + size_flag h 2 (TerminateActorResponse_success m) else 0) +
            size_unknown rt (TerminateActorResponse_unknown m)
      in (n, m\<lparr>TerminateActorResponse_cached := n\<rparr>))"

definition TerminateActorResponse_MergeImpl :: "('p, 'u) runtime \<Rightarrow> ('p, 'u) TerminateActorResponse \<Rightarrow> ('p, 'u) TerminateActorResponse \<Rightarrow> ('p, 'u) TerminateActorResponse" where
  "TerminateActorResponse_MergeImpl rt from_m m =
     (let h = TerminateActorResponse_has from_m;
          m1 = (if h AND 3 \<noteq> 0 then m\<lparr>
              TerminateActorResponse_error_message := merge_str rt h 1 (TerminateActorResponse_error_message from_m) (TerminateActorResponse_error_message m),
              TerminateActorResponse_success := merge_flag h 2 (TerminateActorResponse_success from_m) (TerminateActorResponse_success m)\<rparr> else m)
      in m1\<lparr>TerminateActorResponse_has := TerminateActorResponse_has m OR h,
            TerminateActorResponse_unknown := rt_merge_unknown rt (TerminateActorResponse_unknown m) (TerminateActorResponse_unknown from_m)\<rparr>)"

definition TerminateActorResponse_copy_new :: "('p, 'u) runtime \<Rightarrow> ('p, 'u) TerminateActorResponse \<Rightarrow> ('p, 'u) TerminateActorResponse" where
  "TerminateActorResponse_copy_new rt from_m = \<lparr>TerminateActorResponse_has = TerminateActorResponse_has from_m,
     TerminateActorResponse_success = (TerminateActorResponse_success from_m), TerminateActorResponse_error_message = rt_copy rt (TerminateActorResponse_error_message from_m),
     TerminateActorResponse_unknown = rt_merge_unknown rt (rt_no_unknown rt) (TerminateActorResponse_unknown from_m), TerminateActorResponse_cached = 0\<rparr>"

definition TerminateActorResponse_CopyFrom :: "('p, 'u) runtime \<Rightarrow> bool \<Rightarrow> ('p, 'u) TerminateActorResponse \<Rightarrow> ('p, 'u) TerminateActorResponse \<Rightarrow> ('p, 'u) TerminateActorResponse" where
  "TerminateActorResponse_CopyFrom rt same from_m m = (if same then m else TerminateActorResponse_MergeImpl rt from_m (TerminateActorResponse_Clear rt m))"

definition TerminateActorResponse_InternalSwap :: "('p, 'u) TerminateActorResponse \<times> ('p, 'u) TerminateActorResponse \<Rightarrow> ('p, 'u) TerminateActorResponse \<times> ('p, 'u) TerminateActorResponse" where
  "TerminateActorResponse_InternalSwap = (\<lambda>(a, b). (b\<lparr>TerminateActorResponse_cached := TerminateActorResponse_cached a\<rparr>, a\<lparr>TerminateActorResponse_cached := TerminateActorResponse_cached b\<rparr>))"

definition TerminateActorResponse_success_acc :: "('p, 'u) TerminateActorResponse bool_field" where
  "TerminateActorResponse_success_acc = bool_field 2 TerminateActorResponse_success TerminateActorResponse_success_update TerminateActorResponse_has_update"

definition TerminateActorResponse_error_message_acc :: "('p, 'u) runtime \<Rightarrow> ('p, 'u) TerminateActorResponse str_field" where
  "TerminateActorResponse_error_message_acc rt = str_field rt 1 TerminateActorResponse_error_message TerminateActorResponse_error_message_update TerminateActorResponse_has TerminateActorResponse_has_update"

definition TerminateActorResponse_view :: "('p, 'u) runtime \<Rightarrow> ('p, 'u) TerminateActorResponse \<Rightarrow> u32 \<times> 'u \<times> bool \<times> string" where
  "TerminateActorResponse_view rt m = (TerminateActorResponse_has m, TerminateActorResponse_unknown m, TerminateActorResponse_success m, rt_get rt (TerminateActorResponse_error_message m))"

definition TerminateActorResponse_wf :: "('p, 'u) runtime \<Rightarrow> ('p, 'u) TerminateActorResponse \<Rightarrow> bool" where
  "TerminateActorResponse_wf rt m \<longleftrightarrow> str_wf rt (TerminateActorResponse_has m) 1 (TerminateActorResponse_error_message m) \<and> flag_wf (TerminateActorResponse_has m) 2 (TerminateActorResponse_success m)"

lemmas TerminateActorResponse_defs = TerminateActorResponse_new_def TerminateActorResponse_Clear_def TerminateActorResponse_InternalSerialize_def TerminateActorResponse_ByteSizeLong_def TerminateActorResponse_MergeImpl_def TerminateActorResponse_view_def TerminateActorResponse_wf_def

lemma TerminateActorResponse_Clear_view:
  "runtime_ok rt \<Longrightarrow> TerminateActorResponse_wf rt m \<Longrightarrow> TerminateActorResponse_view rt (TerminateActorResponse_Clear rt m) = TerminateActorResponse_view rt (TerminateActorResponse_new rt)"
  by (cases "TerminateActorResponse_has m AND 1 = 0") (auto simp: TerminateActorResponse_defs Let_def has_bits_zero str_wf_def)

lemma TerminateActorResponse_MergeImpl_eq:
  "TerminateActorResponse_MergeImpl rt f m = m\<lparr>TerminateActorResponse_error_message := merge_str rt (TerminateActorResponse_has f) 1 (TerminateActorResponse_error_message f) (TerminateActorResponse_error_message m), TerminateActorResponse_success := merge_flag (TerminateActorResponse_has f) 2 (TerminateActorResponse_success f) (TerminateActorResponse_success m),
     TerminateActorResponse_has := TerminateActorResponse_has m OR TerminateActorResponse_has f, TerminateActorResponse_unknown := rt_merge_unknown rt (TerminateActorResponse_unknown m) (TerminateActorResponse_unknown f)\<rparr>"
  by (auto simp: TerminateActorResponse_MergeImpl_def Let_def has_bits_zero)

lemma TerminateActorResponse_size_ser:
  "runtime_ok rt \<Longrightarrow> fst (TerminateActorResponse_ByteSizeLong rt m) = length (TerminateActorResponse_InternalSerialize rt m)"
  by (auto simp: TerminateActorResponse_ByteSizeLong_def TerminateActorResponse_InternalSerialize_def Let_def has_bits_zero)

interpretation terminateActorResponse: proto_message "runtime_ok rt" "TerminateActorResponse_new rt" "TerminateActorResponse_Clear rt" "TerminateActorResponse_MergeImpl rt"
  "TerminateActorResponse_InternalSerialize rt" "TerminateActorResponse_ByteSizeLong rt" "TerminateActorResponse_view rt" "TerminateActorResponse_wf rt"
  for rt :: "('p, 'u) runtime"
proof unfold_locales
  show "runtime_ok rt \<Longrightarrow> TerminateActorResponse_wf rt (TerminateActorResponse_new rt)"
    by (simp add: TerminateActorResponse_wf_def TerminateActorResponse_new_def)
next
  fix m m' f :: "('p, 'u) TerminateActorResponse"
  show "runtime_ok rt \<Longrightarrow> TerminateActorResponse_wf rt m \<Longrightarrow> TerminateActorResponse_wf rt (TerminateActorResponse_Clear rt m)"
    using TerminateActorResponse_Clear_view [of rt m] by (simp add: TerminateActorResponse_view_def TerminateActorResponse_wf_def TerminateActorResponse_new_def)
  show "runtime_ok rt \<Longrightarrow> TerminateActorResponse_wf rt m \<Longrightarrow> TerminateActorResponse_view rt (TerminateActorResponse_Clear rt m) = TerminateActorResponse_view rt (TerminateActorResponse_new rt)"
    by (rule TerminateActorResponse_Clear_view)
  show "runtime_ok rt \<Longrightarrow> TerminateActorResponse_wf rt m \<Longrightarrow> TerminateActorResponse_wf rt f \<Longrightarrow> TerminateActorResponse_wf rt (TerminateActorResponse_MergeImpl rt f m)"
    by (simp add: TerminateActorResponse_MergeImpl_eq TerminateActorResponse_wf_def)
  show "runtime_ok rt \<Longrightarrow> TerminateActorResponse_wf rt f \<Longrightarrow> TerminateActorResponse_view rt m = TerminateActorResponse_view rt (TerminateActorResponse_new rt) \<Longrightarrow>
      TerminateActorResponse_view rt (TerminateActorResponse_MergeImpl rt f m) = TerminateActorResponse_view rt f"
    by (simp add: TerminateActorResponse_MergeImpl_eq TerminateActorResponse_wf_def TerminateActorResponse_view_def TerminateActorResponse_new_def)
  show "TerminateActorResponse_view rt m = TerminateActorResponse_view rt m' \<Longrightarrow> TerminateActorResponse_InternalSerialize rt m = TerminateActorResponse_InternalSerialize rt m'"
    by (auto simp: TerminateActorResponse_view_def TerminateActorResponse_InternalSerialize_def write_str_def)
  show "runtime_ok rt \<Longrightarrow> fst (TerminateActorResponse_ByteSizeLong rt m) = length (TerminateActorResponse_InternalSerialize rt m)"
    by (rule TerminateActorResponse_size_ser)
  show "TerminateActorResponse_view rt (snd (TerminateActorResponse_ByteSizeLong rt m)) = TerminateActorResponse_view rt m"
    by (simp add: TerminateActorResponse_ByteSizeLong_def TerminateActorResponse_view_def Let_def)
qed

section \<open>\<open>SubscribeResponse\<close>\<close>

record ('p, 'u) SubscribeResponse =
  SubscribeResponse_has :: u32
  SubscribeResponse_actor_id :: "'p"
  SubscribeResponse_key :: "'p"
  SubscribeResponse_value :: "'p"
  SubscribeResponse_event_type :: "'p"
  SubscribeResponse_unknown :: 'u
  SubscribeResponse_cached :: nat

definition SubscribeResponse_new :: "('p, 'u) runtime \<Rightarrow> ('p, 'u) SubscribeResponse" where
  "SubscribeResponse_new rt = \<lparr>SubscribeResponse_has = 0, SubscribeResponse_actor_id = rt_init rt, SubscribeResponse_key = rt_init rt, SubscribeResponse_value = rt_init rt, SubscribeResponse_event_type = rt_init rt,
     SubscribeResponse_unknown = rt_no_unknown rt, SubscribeResponse_cached = 0\<rparr>"

definition SubscribeResponse_Clear :: "('p, 'u) runtime \<Rightarrow> ('p, 'u) SubscribeResponse \<Rightarrow> ('p, 'u) SubscribeResponse" where
  "SubscribeResponse_Clear rt m =
     (let h = SubscribeResponse_has m;
          m1 = (if h AND 15 \<noteq> 0 then m\<lparr>SubscribeResponse_actor_id := clear_str rt h 1 (SubscribeResponse_actor_id m), SubscribeResponse_key := clear_str rt h 2 (SubscribeResponse_key m), SubscribeResponse_value := clear_str rt h 4 (SubscribeResponse_value m), SubscribeResponse_event_type := clear_str rt h 8 (SubscribeResponse_event_type m)\<rparr> else m)
      in m1\<lparr>SubscribeResponse_has := 0, SubscribeResponse_unknown := rt_no_unknown rt\<rparr>)"

definition SubscribeResponse_InternalSerialize :: "('p, 'u) runtime \<Rightarrow> ('p, 'u) SubscribeResponse \<Rightarrow> nat list" where
  "SubscribeResponse_InternalSerialize rt m =
     write_str rt (SubscribeResponse_has m) 1 1 (SubscribeResponse_actor_id m) @
     write_str rt (SubscribeResponse_has m) 2 2 (SubscribeResponse_key m) @
     write_str rt (SubscribeResponse_has m) 4 3 (SubscribeResponse_value m) @
     write_str rt (SubscribeResponse_has m) 8 4 (SubscribeResponse_event_type m) @
     write_unknown rt (SubscribeResponse_unknown m)"

definition SubscribeResponse_ByteSizeLong :: "('p, 'u) runtime \<Rightarrow> ('p, 'u) SubscribeResponse \<Rightarrow> nat \<times> ('p, 'u) SubscribeResponse" where
  "SubscribeResponse_ByteSizeLong rt m =
     (let h = SubscribeResponse_has m;
          n = (if h AND 15 \<noteq> 0 then size_str rt h 1 (SubscribeResponse_actor_id m) + size_str rt h 2 (SubscribeResponse_key m) + size_str rt h 4 (SubscribeResponse_value m) + size_str rt h 8 (SubscribeResponse_event_type m) else 0) +
            size_unknown rt (SubscribeResponse_unknown m)
      in (n, m\<lparr>SubscribeResponse_cached := n\<rparr>))"

definition SubscribeResponse_MergeImpl :: "('p, 'u) runtime \<Rightarrow> ('p, 'u) SubscribeResponse \<Rightarrow> ('p, 'u) SubscribeResponse \<Rightarrow> ('p, 'u) SubscribeResponse" where
  "SubscribeResponse_MergeImpl rt from_m m =
     (let h = SubscribeResponse_has from_m;
          m1 = (if h AND 15 \<noteq> 0 then m\<lparr>
              SubscribeResponse_actor_id := merge_str rt h 1 (SubscribeResponse_actor_id from_m) (SubscribeResponse_actor_id m),
              SubscribeResponse_key := merge_str rt h 2 (SubscribeResponse_key from_m) (SubscribeResponse_key m),
              SubscribeResponse_value := merge_str rt h 4 (SubscribeResponse_value from_m) (SubscribeResponse_value m),
              SubscribeResponse_event_type := merge_str rt h 8 (SubscribeResponse_event_type from_m) (SubscribeResponse_event_type m)\<rparr> else m)
      in m1\<lparr>SubscribeResponse_has := SubscribeResponse_has m OR h,
            SubscribeResponse_unknown := rt_merge_unknown rt (SubscribeResponse_unknown m) (SubscribeResponse_unknown from_m)\<rparr>)"

definition SubscribeResponse_copy_new :: "('p, 'u) runtime \<Rightarrow> ('p, 'u) SubscribeResponse \<Rightarrow> ('p, 'u) SubscribeResponse" where
  "SubscribeResponse_copy_new rt from_m = \<lparr>SubscribeResponse_has = SubscribeResponse_has from_m,
     SubscribeResponse_actor_id = rt_copy rt (SubscribeResponse_actor_id from_m), SubscribeResponse_key = rt_copy rt (SubscribeResponse_key from_m), SubscribeResponse_value = rt_copy rt (SubscribeResponse_value from_m), SubscribeResponse_event_type = rt_copy rt (SubscribeResponse_event_type from_m),
     SubscribeResponse_unknown = rt_merge_unknown rt (rt_no_unknown rt) (SubscribeResponse_unknown from_m), SubscribeResponse_cached = 0\<rparr>"

definition SubscribeResponse_CopyFrom :: "('p, 'u) runtime \<Rightarrow> bool \<Rightarrow> ('p, 'u) SubscribeResponse \<Rightarrow> ('p, 'u) SubscribeResponse \<Rightarrow> ('p, 'u) SubscribeResponse" where
  "SubscribeResponse_CopyFrom rt same from_m m = (if same then m else SubscribeResponse_MergeImpl rt from_m (SubscribeResponse_Clear rt m))"

definition SubscribeResponse_InternalSwap :: "('p, 'u) SubscribeResponse \<times> ('p, 'u) SubscribeResponse \<Rightarrow> ('p, 'u) SubscribeResponse \<times> ('p, 'u) SubscribeResponse" where
  "SubscribeResponse_InternalSwap = (\<lambda>(a, b). (b\<lparr>SubscribeResponse_cached := SubscribeResponse_cached a\<rparr>, a\<lparr>SubscribeResponse_cached := SubscribeResponse_cached b\<rparr>))"

definition SubscribeResponse_actor_id_acc :: "('p, 'u) runtime \<Rightarrow> ('p, 'u) SubscribeResponse str_field" where
  "SubscribeResponse_actor_id_acc rt = str_field rt 1 SubscribeResponse_actor_id SubscribeResponse_actor_id_update SubscribeResponse_has SubscribeResponse_has_update"

definition SubscribeResponse_key_acc :: "('p, 'u) runtime \<Rightarrow> ('p, 'u) SubscribeResponse str_field" where
  "SubscribeResponse_key_acc rt = str_field rt 2 SubscribeResponse_key SubscribeResponse_key_update SubscribeResponse_has SubscribeResponse_has_update"

definition SubscribeResponse_value_acc :: "('p, 'u) runtime \<Rightarrow> ('p, 'u) SubscribeResponse str_field" where
  "SubscribeResponse_value_acc rt = str_field rt 4 SubscribeResponse_value SubscribeResponse_value_update SubscribeResponse_has SubscribeResponse_has_update"

definition SubscribeResponse_event_type_acc :: "('p, 'u) runtime \<Rightarrow> ('p, 'u) SubscribeResponse str_field" where
  "SubscribeResponse_event_type_acc rt = str_field rt 8 SubscribeResponse_event_type SubscribeResponse_event_type_update SubscribeResponse_has SubscribeResponse_has_update"

definition SubscribeResponse_view :: "('p, 'u) runtime \<Rightarrow> ('p, 'u) SubscribeResponse \<Rightarrow> u32 \<times> 'u \<times> string \<times> string \<times> string \<times> string" where
  "SubscribeResponse_view rt m = (SubscribeResponse_has m, SubscribeResponse_unknown m, rt_get rt (SubscribeResponse_actor_id m), rt_get rt (SubscribeResponse_key m), rt_get rt (SubscribeResponse_value m), rt_get rt (SubscribeResponse_event_type m))"

definition SubscribeResponse_wf :: "('p, 'u) runtime \<Rightarrow> ('p, 'u) SubscribeResponse \<Rightarrow> bool" where
  "SubscribeResponse_wf rt m \<longleftrightarrow> str_wf rt (SubscribeResponse_has m) 1 (SubscribeResponse_actor_id m) \<and> str_wf rt (SubscribeResponse_has m) 2 (SubscribeResponse_key m) \<and> str_wf rt (SubscribeResponse_has m) 4 (SubscribeResponse_value m) \<and> str_wf rt (SubscribeResponse_has m) 8 (SubscribeResponse_event_type m)"

lemmas SubscribeResponse_defs = SubscribeResponse_new_def SubscribeResponse_Clear_def SubscribeResponse_InternalSerialize_def SubscribeResponse_ByteSizeLong_def SubscribeResponse_MergeImpl_def SubscribeResponse_view_def SubscribeResponse_wf_def

lemma SubscribeResponse_Clear_view:
  "runtime_ok rt \<Longrightarrow> SubscribeResponse_wf rt m \<Longrightarrow> SubscribeResponse_view rt (SubscribeResponse_Clear rt m) = SubscribeResponse_view rt (SubscribeResponse_new rt)"
  by (cases "SubscribeResponse_has m AND 15 = 0") (auto simp: SubscribeResponse_defs Let_def has_bits_zero str_wf_def)

lemma SubscribeResponse_MergeImpl_eq:
  "SubscribeResponse_MergeImpl rt f m = m\<lparr>SubscribeResponse_actor_id := merge_str rt (SubscribeResponse_has f) 1 (SubscribeResponse_actor_id f) (SubscribeResponse_actor_id m), SubscribeResponse_key := merge_str rt (SubscribeResponse_has f) 2 (SubscribeResponse_key f) (SubscribeResponse_key m), SubscribeResponse_value := merge_str rt (SubscribeResponse_has f) 4 (SubscribeResponse_value f) (SubscribeResponse_value m), SubscribeResponse_event_type := merge_str rt (SubscribeResponse_has f) 8 (SubscribeResponse_event_type f) (SubscribeResponse_event_type m),
     SubscribeResponse_has := SubscribeResponse_has m OR SubscribeResponse_has f, SubscribeResponse_unknown := rt_merge_unknown rt (SubscribeResponse_unknown m) (SubscribeResponse_unknown f)\<rparr>"
  by (auto simp: SubscribeResponse_MergeImpl_def Let_def has_bits_zero)

lemma SubscribeResponse_size_ser:
  "runtime_ok rt \<Longrightarrow> fst (SubscribeResponse_ByteSizeLong rt m) = length (SubscribeResponse_InternalSerialize rt m)"
  by (auto simp: SubscribeResponse_ByteSizeLong_def SubscribeResponse_InternalSerialize_def Let_def has_bits_zero)

interpretation subscribeResponse: proto_message "runtime_ok rt" "SubscribeResponse_new rt" "SubscribeResponse_Clear rt" "SubscribeResponse_MergeImpl rt"
  "SubscribeResponse_InternalSerialize rt" "SubscribeResponse_ByteSizeLong rt" "SubscribeResponse_view rt" "SubscribeResponse_wf rt"
  for rt :: "('p, 'u) runtime"
proof unfold_locales
  show "runtime_ok rt \<Longrightarrow> SubscribeResponse_wf rt (SubscribeResponse_new rt)"
    by (simp add: SubscribeResponse_wf_def SubscribeResponse_new_def)
next
  fix m m' f :: "('p, 'u) SubscribeResponse"
  show "runtime_ok rt \<Longrightarrow> SubscribeResponse_wf rt m \<Longrightarrow> SubscribeResponse_wf rt (SubscribeResponse_Clear rt m)"
    using SubscribeResponse_Clear_view [of rt m] by (simp add: SubscribeResponse_view_def SubscribeResponse_wf_def SubscribeResponse_new_def)
  show "runtime_ok rt \<Longrightarrow> SubscribeResponse_wf rt m \<Longrightarrow> SubscribeResponse_view rt (SubscribeResponse_Clear rt m) = SubscribeResponse_view rt (SubscribeResponse_new rt)"
    by (rule SubscribeResponse_Clear_view)
  show "runtime_ok rt \<Longrightarrow> SubscribeResponse_wf rt m \<Longrightarrow> SubscribeResponse_wf rt f \<Longrightarrow> SubscribeResponse_wf rt (SubscribeResponse_MergeImpl rt f m)"
    by (simp add: SubscribeResponse_MergeImpl_eq SubscribeResponse_wf_def)
  show "runtime_ok rt \<Longrightarrow> SubscribeResponse_wf rt f \<Longrightarrow> SubscribeResponse_view rt m = SubscribeResponse_view rt (SubscribeResponse_new rt) \<Longrightarrow>
      SubscribeResponse_view rt (SubscribeResponse_MergeImpl rt f m) = SubscribeResponse_view rt f"
    by (simp add: SubscribeResponse_MergeImpl_eq SubscribeResponse_wf_def SubscribeResponse_view_def SubscribeResponse_new_def)
  show "SubscribeResponse_view rt m = SubscribeResponse_view rt m' \<Longrightarrow> SubscribeResponse_InternalSerialize rt m = SubscribeResponse_InternalSerialize rt m'"
    by (auto simp: SubscribeResponse_view_def SubscribeResponse_InternalSerialize_def write_str_def)
  show "runtime_ok rt \<Longrightarrow> fst (SubscribeResponse_ByteSizeLong rt m) = length (SubscribeResponse_InternalSerialize rt m)"
    by (rule SubscribeResponse_size_ser)
  show "SubscribeResponse_view rt (snd (SubscribeResponse_ByteSizeLong rt m)) = SubscribeResponse_view rt m"
    by (simp add: SubscribeResponse_ByteSizeLong_def SubscribeResponse_view_def Let_def)
qed

section \<open>Properties of the message classes\<close>

text \<open>\<open>ByteSizeLong\<close> is exact for every message class: whatever the has bits, the values and
  the unknown fields are, it returns the number of bytes that \<open>_InternalSerialize\<close> writes.\<close>

theorem byte_size_exact:
  assumes "runtime_ok rt"
  shows
    "fst (GetRequest_ByteSizeLong rt a) = length (GetRequest_InternalSerialize rt a) \<and>
     fst (GetResponse_ByteSizeLong rt b) = length (GetResponse_InternalSerialize rt b) \<and>
     fst (SetRequest_ByteSizeLong rt c) = length (SetRequest_InternalSerialize rt c) \<and>
     fst (SetResponse_ByteSizeLong rt d) = length (SetResponse_InternalSerialize rt d) \<and>
     fst (SubscribeRequest_ByteSizeLong rt e) = length (SubscribeRequest_InternalSerialize rt e) \<and>
     fst (SpawnActorRequest_ByteSizeLong rt f) = length (SpawnActorRequest_InternalSerialize rt f) \<and>
     fst (SpawnActorResponse_ByteSizeLong rt g) = length (SpawnActorResponse_InternalSerialize rt g) \<and>
     fst (TerminateActorRequest_ByteSizeLong rt h) = length (TerminateActorRequest_InternalSerialize rt h) \<and>
     fst (TerminateActorResponse_ByteSizeLong rt i) = length (TerminateActorResponse_InternalSerialize rt i) \<and>
     fst (SubscribeResponse_ByteSizeLong rt j) = length (SubscribeResponse_InternalSerialize rt j)"
  by (intro conjI getRequest.size_ser [OF assms]
    getResponse.size_ser [OF assms]
    setRequest.size_ser [OF assms]
    setResponse.size_ser [OF assms]
    subscribeRequest.size_ser [OF assms]
    spawnActorRequest.size_ser [OF assms]
    spawnActorResponse.size_ser [OF assms]
    terminateActorRequest.size_ser [OF assms]
    terminateActorResponse.size_ser [OF assms]
    subscribeResponse.size_ser [OF assms])

theorem byte_size_exact_witness:
  "fst (GetRequest_ByteSizeLong ex_runtime (sf_set (GetRequest_key_acc ex_runtime) ''cart''
     (GetRequest_new ex_runtime))) = 6"
  using byte_size_exact [OF ex_runtime_ok, of "sf_set (GetRequest_key_acc ex_runtime) ''cart''
    (GetRequest_new ex_runtime)"]
  by (simp add: GetRequest_key_acc_def str_field_def GetRequest_new_def ex_runtime_def
      GetRequest_InternalSerialize_def write_str_def write_unknown_def)

text \<open>\<open>CopyFrom\<close> copies: for every message class, if both messages satisfy the has-bit
  invariant, the target serialises to the same bytes as the source afterwards and satisfies the
  invariant, whatever it held before; copying a message onto itself changes nothing.\<close>

theorem copy_from_copies:
  assumes "runtime_ok rt"
    and "GetRequest_wf rt a" "GetRequest_wf rt a'"
    and "GetResponse_wf rt b" "GetResponse_wf rt b'"
    and "SetRequest_wf rt c" "SetRequest_wf rt c'"
    and "SetResponse_wf rt d" "SetResponse_wf rt d'"
    and "SubscribeRequest_wf rt e" "SubscribeRequest_wf rt e'"
    and "SpawnActorRequest_wf rt f" "SpawnActorRequest_wf rt f'"
    and "SpawnActorResponse_wf rt g" "SpawnActorResponse_wf rt g'"
    and "TerminateActorRequest_wf rt h" "TerminateActorRequest_wf rt h'"
    and "TerminateActorResponse_wf rt i" "TerminateActorResponse_wf rt i'"
    and "SubscribeResponse_wf rt j" "SubscribeResponse_wf rt j'"
  shows
    "GetRequest_InternalSerialize rt (GetRequest_CopyFrom rt False a' a) = GetRequest_InternalSerialize rt a' \<and>
     GetRequest_wf rt (GetRequest_CopyFrom rt False a' a) \<and> GetRequest_CopyFrom rt True a' a = a \<and>
     GetResponse_InternalSerialize rt (GetResponse_CopyFrom rt False b' b) = GetResponse_InternalSerialize rt b' \<and>
     GetResponse_wf rt (GetResponse_CopyFrom rt False b' b) \<and> GetResponse_CopyFrom rt True b' b = b \<and>
     SetRequest_InternalSerialize rt (SetRequest_CopyFrom rt False c' c) = SetRequest_InternalSerialize rt c' \<and>
     SetRequest_wf rt (SetRequest_CopyFrom rt False c' c) \<and> SetRequest_CopyFrom rt True c' c = c \<and>
     SetResponse_InternalSerialize rt (SetResponse_CopyFrom rt False d' d) = SetResponse_InternalSerialize rt d' \<and>
     SetResponse_wf rt (SetResponse_CopyFrom rt False d' d) \<and> SetResponse_CopyFrom rt True d' d = d \<and>
     SubscribeRequest_InternalSerialize rt (SubscribeRequest_CopyFrom rt False e' e) = SubscribeRequest_InternalSerialize rt e' \<and>
     SubscribeRequest_wf rt (SubscribeRequest_CopyFrom rt False e' e) \<and> SubscribeRequest_CopyFrom rt True e' e = e \<and>
     SpawnActorRequest_InternalSerialize rt (SpawnActorRequest_CopyFrom rt False f' f) = SpawnActorRequest_InternalSerialize rt f' \<and>
     SpawnActorRequest_wf rt (SpawnActorRequest_CopyFrom rt False f' f) \<and> SpawnActorRequest_CopyFrom rt True f' f = f \<and>
     SpawnActorResponse_InternalSerialize rt (SpawnActorResponse_CopyFrom rt False g' g) = SpawnActorResponse_InternalSerialize rt g' \<and>
     SpawnActorResponse_wf rt (SpawnActorResponse_CopyFrom rt False g' g) \<and> SpawnActorResponse_CopyFrom rt True g' g = g \<and>
     TerminateActorRequest_InternalSerialize rt (TerminateActorRequest_CopyFrom rt False h' h) = TerminateActorRequest_InternalSerialize rt h' \<and>
     TerminateActorRequest_wf rt (TerminateActorRequest_CopyFrom rt False h' h) \<and> TerminateActorRequest_CopyFrom rt True h' h = h \<and>
     TerminateActorResponse_InternalSerialize rt (TerminateActorResponse_CopyFrom rt False i' i) = TerminateActorResponse_InternalSerialize rt i' \<and>
     TerminateActorResponse_wf rt (TerminateActorResponse_CopyFrom rt False i' i) \<and> TerminateActorResponse_CopyFrom rt True i' i = i \<and>
     SubscribeResponse_InternalSerialize rt (SubscribeResponse_CopyFrom rt False j' j) = SubscribeResponse_InternalSerialize rt j' \<and>
     SubscribeResponse_wf rt (SubscribeResponse_CopyFrom rt False j' j) \<and> SubscribeResponse_CopyFrom rt True j' j = j"
  using assms(2-)
  by (simp add: GetRequest_CopyFrom_def getRequest.copy_ser [OF assms(1)] getRequest.copy_wf [OF assms(1)]
    GetResponse_CopyFrom_def getResponse.copy_ser [OF assms(1)] getResponse.copy_wf [OF assms(1)]
    SetRequest_CopyFrom_def setRequest.copy_ser [OF assms(1)] setRequest.copy_wf [OF assms(1)]
    SetResponse_CopyFrom_def setResponse.copy_ser [OF assms(1)] setResponse.copy_wf [OF assms(1)]
    SubscribeRequest_CopyFrom_def subscribeRequest.copy_ser [OF assms(1)] subscribeRequest.copy_wf [OF assms(1)]
    SpawnActorRequest_CopyFrom_def spawnActorRequest.copy_ser [OF assms(1)] spawnActorRequest.copy_wf [OF assms(1)]
    SpawnActorResponse_CopyFrom_def spawnActorResponse.copy_ser [OF assms(1)] spawnActorResponse.copy_wf [OF assms(1)]
    TerminateActorRequest_CopyFrom_def terminateActorRequest.copy_ser [OF assms(1)] terminateActorRequest.copy_wf [OF assms(1)]
    TerminateActorResponse_CopyFrom_def terminateActorResponse.copy_ser [OF assms(1)] terminateActorResponse.copy_wf [OF assms(1)]
    SubscribeResponse_CopyFrom_def subscribeResponse.copy_ser [OF assms(1)] subscribeResponse.copy_wf [OF assms(1)])

theorem copy_from_copies_witness:
  "SpawnActorResponse_InternalSerialize ex_runtime (SpawnActorResponse_CopyFrom ex_runtime False
     (sf_set (SpawnActorResponse_error_message_acc ex_runtime) ''no'' (SpawnActorResponse_new ex_runtime))
     (bf_set SpawnActorResponse_success_acc True (SpawnActorResponse_new ex_runtime))) = [18, 2, 110, 111]"
proof -
  let ?from = "sf_set (SpawnActorResponse_error_message_acc ex_runtime) ''no'' (SpawnActorResponse_new ex_runtime)"
  let ?to = "bf_set SpawnActorResponse_success_acc True (SpawnActorResponse_new ex_runtime)"
  have wf: "SpawnActorResponse_wf ex_runtime ?from" "SpawnActorResponse_wf ex_runtime ?to"
    by (simp_all add: SpawnActorResponse_error_message_acc_def SpawnActorResponse_success_acc_def str_field_def
        bool_field_def SpawnActorResponse_new_def SpawnActorResponse_wf_def str_wf_def flag_wf_def ex_runtime_def)
  have "SpawnActorResponse_InternalSerialize ex_runtime (SpawnActorResponse_CopyFrom ex_runtime False ?from ?to) =
      SpawnActorResponse_InternalSerialize ex_runtime ?from"
    using copy_from_copies [of ex_runtime "GetRequest_new ex_runtime" "GetRequest_new ex_runtime"
      "GetResponse_new ex_runtime" "GetResponse_new ex_runtime"
      "SetRequest_new ex_runtime" "SetRequest_new ex_runtime"
      "SetResponse_new ex_runtime" "SetResponse_new ex_runtime"
      "SubscribeRequest_new ex_runtime" "SubscribeRequest_new ex_runtime"
      "SpawnActorRequest_new ex_runtime" "SpawnActorRequest_new ex_runtime"
      ?to ?from
      "TerminateActorRequest_new ex_runtime" "TerminateActorRequest_new ex_runtime"
      "TerminateActorResponse_new ex_runtime" "TerminateActorResponse_new ex_runtime"
      "SubscribeResponse_new ex_runtime" "SubscribeResponse_new ex_runtime",
      OF ex_runtime_ok getRequest.new_wf [OF ex_runtime_ok] getRequest.new_wf [OF ex_runtime_ok]
      getResponse.new_wf [OF ex_runtime_ok] getResponse.new_wf [OF ex_runtime_ok]
      setRequest.new_wf [OF ex_runtime_ok] setRequest.new_wf [OF ex_runtime_ok]
      setResponse.new_wf [OF ex_runtime_ok] setResponse.new_wf [OF ex_runtime_ok]
      subscribeRequest.new_wf [OF ex_runtime_ok] subscribeRequest.new_wf [OF ex_runtime_ok]
      spawnActorRequest.new_wf [OF ex_runtime_ok] spawnActorRequest.new_wf [OF ex_runtime_ok]
      wf(2) wf(1)
      terminateActorRequest.new_wf [OF ex_runtime_ok] terminateActorRequest.new_wf [OF ex_runtime_ok]
      terminateActorResponse.new_wf [OF ex_runtime_ok] terminateActorResponse.new_wf [OF ex_runtime_ok]
      subscribeResponse.new_wf [OF ex_runtime_ok] subscribeResponse.new_wf [OF ex_runtime_ok]]
    by blast
  also have "\<dots> = [18, 2, 110, 111]"
    by (simp add: SpawnActorResponse_error_message_acc_def str_field_def SpawnActorResponse_new_def
        SpawnActorResponse_InternalSerialize_def write_str_def write_flag_def write_unknown_def ex_runtime_def)
  finally show ?thesis .
qed

section \<open>Accessors and has bits\<close>

lemma GetRequest_actor_id_acc_keeps: "runtime_ok rt \<Longrightarrow> str_field_keeps (GetRequest_wf rt) (GetRequest_actor_id_acc rt)"
  by (auto simp: GetRequest_actor_id_acc_def GetRequest_wf_def acc_simps Let_def split_beta split: option.splits)

lemma GetRequest_key_acc_keeps: "runtime_ok rt \<Longrightarrow> str_field_keeps (GetRequest_wf rt) (GetRequest_key_acc rt)"
  by (auto simp: GetRequest_key_acc_def GetRequest_wf_def acc_simps Let_def split_beta split: option.splits)

lemma GetResponse_value_acc_keeps: "runtime_ok rt \<Longrightarrow> str_field_keeps (GetResponse_wf rt) (GetResponse_value_acc rt)"
  by (auto simp: GetResponse_value_acc_def GetResponse_wf_def acc_simps Let_def split_beta split: option.splits)

lemma GetResponse_found_acc_keeps: "runtime_ok rt \<Longrightarrow> bool_field_keeps (GetResponse_wf rt) (GetResponse_found_acc)"
  by (auto simp: GetResponse_found_acc_def GetResponse_wf_def acc_simps Let_def split_beta split: option.splits)

lemma SetRequest_actor_id_acc_keeps: "runtime_ok rt \<Longrightarrow> str_field_keeps (SetRequest_wf rt) (SetRequest_actor_id_acc rt)"
  by (auto simp: SetRequest_actor_id_acc_def SetRequest_wf_def acc_simps Let_def split_beta split: option.splits)

lemma SetRequest_key_acc_keeps: "runtime_ok rt \<Longrightarrow> str_field_keeps (SetRequest_wf rt) (SetRequest_key_acc rt)"
  by (auto simp: SetRequest_key_acc_def SetRequest_wf_def acc_simps Let_def split_beta split: option.splits)

lemma SetRequest_value_acc_keeps: "runtime_ok rt \<Longrightarrow> str_field_keeps (SetRequest_wf rt) (SetRequest_value_acc rt)"
  by (auto simp: SetRequest_value_acc_def SetRequest_wf_def acc_simps Let_def split_beta split: option.splits)

lemma SetResponse_success_acc_keeps: "runtime_ok rt \<Longrightarrow> bool_field_keeps (SetResponse_wf rt) (SetResponse_success_acc)"
  by (auto simp: SetResponse_success_acc_def SetResponse_wf_def acc_simps Let_def split_beta split: option.splits)

lemma SubscribeRequest_actor_id_acc_keeps: "runtime_ok rt \<Longrightarrow> str_field_keeps (SubscribeRequest_wf rt) (SubscribeRequest_actor_id_acc rt)"
  by (auto simp: SubscribeRequest_actor_id_acc_def SubscribeRequest_wf_def acc_simps Let_def split_beta split: option.splits)

lemma SpawnActorRequest_actor_id_acc_keeps: "runtime_ok rt \<Longrightarrow> str_field_keeps (SpawnActorRequest_wf rt) (SpawnActorRequest_actor_id_acc rt)"
  by (auto simp: SpawnActorRequest_actor_id_acc_def SpawnActorRequest_wf_def acc_simps Let_def split_beta split: option.splits)

lemma SpawnActorResponse_success_acc_keeps: "runtime_ok rt \<Longrightarrow> bool_field_keeps (SpawnActorResponse_wf rt) (SpawnActorResponse_success_acc)"
  by (auto simp: SpawnActorResponse_success_acc_def SpawnActorResponse_wf_def acc_simps Let_def split_beta split: option.splits)

lemma SpawnActorResponse_error_message_acc_keeps: "runtime_ok rt \<Longrightarrow> str_field_keeps (SpawnActorResponse_wf rt) (SpawnActorResponse_error_message_acc rt)"
  by (auto simp: SpawnActorResponse_error_message_acc_def SpawnActorResponse_wf_def acc_simps Let_def split_beta split: option.splits)

lemma TerminateActorRequest_actor_id_acc_keeps: "runtime_ok rt \<Longrightarrow> str_field_keeps (TerminateActorRequest_wf rt) (TerminateActorRequest_actor_id_acc rt)"
  by (auto simp: TerminateActorRequest_actor_id_acc_def TerminateActorRequest_wf_def acc_simps Let_def split_beta split: option.splits)

lemma TerminateActorRequest_force_acc_keeps: "runtime_ok rt \<Longrightarrow> bool_field_keeps (TerminateActorRequest_wf rt) (TerminateActorRequest_force_acc)"
  by (auto simp: TerminateActorRequest_force_acc_def TerminateActorRequest_wf_def acc_simps Let_def split_beta split: option.splits)

lemma TerminateActorResponse_success_acc_keeps: "runtime_ok rt \<Longrightarrow> bool_field_keeps (TerminateActorResponse_wf rt) (TerminateActorResponse_success_acc)"
  by (auto simp: TerminateActorResponse_success_acc_def TerminateActorResponse_wf_def acc_simps Let_def split_beta split: option.splits)

lemma TerminateActorResponse_error_message_acc_keeps: "runtime_ok rt \<Longrightarrow> str_field_keeps (TerminateActorResponse_wf rt) (TerminateActorResponse_error_message_acc rt)"
  by (auto simp: TerminateActorResponse_error_message_acc_def TerminateActorResponse_wf_def acc_simps Let_def split_beta split: option.splits)

lemma SubscribeResponse_actor_id_acc_keeps: "runtime_ok rt \<Longrightarrow> str_field_keeps (SubscribeResponse_wf rt) (SubscribeResponse_actor_id_acc rt)"
  by (auto simp: SubscribeResponse_actor_id_acc_def SubscribeResponse_wf_def acc_simps Let_def split_beta split: option.splits)

lemma SubscribeResponse_key_acc_keeps: "runtime_ok rt \<Longrightarrow> str_field_keeps (SubscribeResponse_wf rt) (SubscribeResponse_key_acc rt)"
  by (auto simp: SubscribeResponse_key_acc_def SubscribeResponse_wf_def acc_simps Let_def split_beta split: option.splits)

lemma SubscribeResponse_value_acc_keeps: "runtime_ok rt \<Longrightarrow> str_field_keeps (SubscribeResponse_wf rt) (SubscribeResponse_value_acc rt)"
  by (auto simp: SubscribeResponse_value_acc_def SubscribeResponse_wf_def acc_simps Let_def split_beta split: option.splits)

lemma SubscribeResponse_event_type_acc_keeps: "runtime_ok rt \<Longrightarrow> str_field_keeps (SubscribeResponse_wf rt) (SubscribeResponse_event_type_acc rt)"
  by (auto simp: SubscribeResponse_event_type_acc_def SubscribeResponse_wf_def acc_simps Let_def split_beta split: option.splits)

text \<open>C40: No accessor breaks the has-bit invariant: clearing, setting, obtaining a mutable pointer,
  releasing and handing over a string, or setting a flag, in any message class, leaves every
  field whose has bit is unset empty.\<close>

theorem accessors_keep_has_bits:
  assumes "runtime_ok rt"
  shows
    "str_field_keeps (GetRequest_wf rt) (GetRequest_actor_id_acc rt) \<and>
     str_field_keeps (GetRequest_wf rt) (GetRequest_key_acc rt) \<and>
     str_field_keeps (GetResponse_wf rt) (GetResponse_value_acc rt) \<and>
     bool_field_keeps (GetResponse_wf rt) GetResponse_found_acc \<and>
     str_field_keeps (SetRequest_wf rt) (SetRequest_actor_id_acc rt) \<and>
     str_field_keeps (SetRequest_wf rt) (SetRequest_key_acc rt) \<and>
     str_field_keeps (SetRequest_wf rt) (SetRequest_value_acc rt) \<and>
     bool_field_keeps (SetResponse_wf rt) SetResponse_success_acc \<and>
     str_field_keeps (SubscribeRequest_wf rt) (SubscribeRequest_actor_id_acc rt) \<and>
     str_field_keeps (SpawnActorRequest_wf rt) (SpawnActorRequest_actor_id_acc rt) \<and>
     bool_field_keeps (SpawnActorResponse_wf rt) SpawnActorResponse_success_acc \<and>
     str_field_keeps (SpawnActorResponse_wf rt) (SpawnActorResponse_error_message_acc rt) \<and>
     str_field_keeps (TerminateActorRequest_wf rt) (TerminateActorRequest_actor_id_acc rt) \<and>
     bool_field_keeps (TerminateActorRequest_wf rt) TerminateActorRequest_force_acc \<and>
     bool_field_keeps (TerminateActorResponse_wf rt) TerminateActorResponse_success_acc \<and>
     str_field_keeps (TerminateActorResponse_wf rt) (TerminateActorResponse_error_message_acc rt) \<and>
     str_field_keeps (SubscribeResponse_wf rt) (SubscribeResponse_actor_id_acc rt) \<and>
     str_field_keeps (SubscribeResponse_wf rt) (SubscribeResponse_key_acc rt) \<and>
     str_field_keeps (SubscribeResponse_wf rt) (SubscribeResponse_value_acc rt) \<and>
     str_field_keeps (SubscribeResponse_wf rt) (SubscribeResponse_event_type_acc rt)"
  by (intro conjI GetRequest_actor_id_acc_keeps [OF assms]
    GetRequest_key_acc_keeps [OF assms]
    GetResponse_value_acc_keeps [OF assms]
    GetResponse_found_acc_keeps [OF assms]
    SetRequest_actor_id_acc_keeps [OF assms]
    SetRequest_key_acc_keeps [OF assms]
    SetRequest_value_acc_keeps [OF assms]
    SetResponse_success_acc_keeps [OF assms]
    SubscribeRequest_actor_id_acc_keeps [OF assms]
    SpawnActorRequest_actor_id_acc_keeps [OF assms]
    SpawnActorResponse_success_acc_keeps [OF assms]
    SpawnActorResponse_error_message_acc_keeps [OF assms]
    TerminateActorRequest_actor_id_acc_keeps [OF assms]
    TerminateActorRequest_force_acc_keeps [OF assms]
    TerminateActorResponse_success_acc_keeps [OF assms]
    TerminateActorResponse_error_message_acc_keeps [OF assms]
    SubscribeResponse_actor_id_acc_keeps [OF assms]
    SubscribeResponse_key_acc_keeps [OF assms]
    SubscribeResponse_value_acc_keeps [OF assms]
    SubscribeResponse_event_type_acc_keeps [OF assms])

theorem accessors_keep_has_bits_witness:
  "GetResponse_wf ex_runtime (snd (sf_release (GetResponse_value_acc ex_runtime)
     (bf_set GetResponse_found_acc True (GetResponse_new ex_runtime))))"
  using accessors_keep_has_bits [OF ex_runtime_ok] getResponse.new_wf [OF ex_runtime_ok]
  by (simp only: str_field_keeps_def bool_field_keeps_def)

section \<open>The message of a change\<close>

text \<open>What \<open>publish_change\<close> builds, and what a subscriber's callback copies and the stream writes.\<close>

definition change_msg :: "('p, 'u) runtime \<Rightarrow> string \<Rightarrow> string \<Rightarrow> string \<Rightarrow> string \<Rightarrow> ('p, 'u) SubscribeResponse" where
  "change_msg rt a k v e = sf_set (SubscribeResponse_event_type_acc rt) e
     (sf_set (SubscribeResponse_value_acc rt) v
     (sf_set (SubscribeResponse_key_acc rt) k
     (sf_set (SubscribeResponse_actor_id_acc rt) a (SubscribeResponse_new rt))))"

definition write_nonempty :: "('p, 'u) runtime \<Rightarrow> nat \<Rightarrow> string \<Rightarrow> nat list" where
  "write_nonempty rt n s = (if s = [] then [] else rt_write_string rt n s)"

text \<open>The message of a change arrives as it was built: the copy that a subscriber's callback
  makes reads back the four strings that were set and goes onto the wire as exactly these four
  fields, in field order, without the empty ones.\<close>

theorem change_msg_copied:
  assumes "runtime_ok rt" and "\<not> rt_have_unknown rt (rt_no_unknown rt)"
    and "c = SubscribeResponse_copy_new rt (change_msg rt a k v e)"
  shows "sf_get (SubscribeResponse_actor_id_acc rt) c = a \<and> sf_get (SubscribeResponse_key_acc rt) c = k \<and>
    sf_get (SubscribeResponse_value_acc rt) c = v \<and> sf_get (SubscribeResponse_event_type_acc rt) c = e \<and>
    SubscribeResponse_InternalSerialize rt c = write_nonempty rt 1 a @ write_nonempty rt 2 k @
      write_nonempty rt 3 v @ write_nonempty rt 4 e"
  using assms
  by (simp add: change_msg_def SubscribeResponse_copy_new_def SubscribeResponse_new_def str_field_def
      SubscribeResponse_actor_id_acc_def SubscribeResponse_key_acc_def SubscribeResponse_value_acc_def
      SubscribeResponse_event_type_acc_def SubscribeResponse_InternalSerialize_def write_str_def
      write_nonempty_def write_unknown_def)

theorem change_msg_copied_witness:
  "SubscribeResponse_InternalSerialize ex_runtime (SubscribeResponse_copy_new ex_runtime
     (change_msg ex_runtime ''a'' ''k'' [] ''UPDATED'')) =
     [10, 1, 97, 18, 1, 107, 34, 7, 85, 80, 68, 65, 84, 69, 68]"
  using change_msg_copied [OF ex_runtime_ok _ refl, of "''a''" "''k''" "[]" "''UPDATED''"]
  by (simp add: write_nonempty_def ex_runtime_def)

end
