(* ===== verification/List_Locking.thy ===== *)
theory List_Locking
  imports Threadsafe_List
begin

text \<open>
  \<^verbatim>\<open>utils/threadsafe_list.h\<close> under concurrency: several threads run \<open>push_front\<close>, \<open>for_each\<close>,
  \<open>find_first_if\<close> and \<open>remove_first_if\<close> on one list, and every acquisition and release of a
  node's mutex and every access to a node is a step of its own (\<open>advance\<close>). \<^verbatim>\<open>Threadsafe_List\<close> runs
  an operation at a time; this theory shows that it may: with the hand-over-hand locks, no
  interleaving reads freed memory, deadlocks, or returns anything but what the operations
  return when they are run one after the other, in the order in which they lock the head.
  Callbacks and predicates are pure here and do not re-enter the list (see \<^verbatim>\<open>List_Reentry\<close>).
\<close>

section \<open>Calls, program counters and the shared state\<close>

datatype 'a call = Push 'a | Visit_all | Find "'a \<Rightarrow> bool" | Remove "'a \<Rightarrow> bool"

datatype 'a reply = Done | Seen "'a list" | Found "'a option" | Removed bool

text \<open>
  Where a thread stands. \<open>Called\<close>: about to lock the head. \<open>At op cur\<close>: the loop condition, with the
  lock of \<open>cur\<close>. \<open>Both op cur b\<close>: with the locks of \<open>cur\<close> and of its successor. \<open>Visiting op b\<close>: with
  the lock of \<open>b\<close> alone, before the callback or the predicate. \<open>Cut\<close>, \<open>Cut_open\<close> and \<open>Counted\<close>: the
  node \<open>b\<close> is unlinked, then unlocked, then subtracted from the size, and not yet destroyed.
  \<open>Leaving p r\<close>: the result is known and the lock of \<open>p\<close> is released by its destructor.
\<close>

datatype 'a pc =
    Idle
  | Called "'a call"
  | Linking 'a
  | Linked
  | At "'a call" nptr "'a list"
  | Both "'a call" nptr nat "'a list"
  | Visiting "'a call" nat "'a list"
  | Cut nptr nat
  | Cut_open nptr nat
  | Counted nptr nat
  | Leaving nptr "'a reply"
  | Crashed

text \<open>
  \<open>cn_lock\<close> is the owner of each node's mutex. Two records of the past: \<open>cn_log\<close> has the calls
  in the order in which they locked the head, \<open>cn_hist\<close> what has been returned to whom.
\<close>

record 'a conc =
  cn_list :: "'a tslist"
  cn_lock :: "nptr \<Rightarrow> nat option"
  cn_pc :: "nat \<Rightarrow> 'a pc"
  cn_log :: "(nat \<times> 'a call) list"
  cn_hist :: "(nat \<times> 'a reply) list"

definition conc_init :: "'a conc" where
  "conc_init = \<lparr>cn_list = tsl_new, cn_lock = (\<lambda>_. None), cn_pc = (\<lambda>_. Idle), cn_log = [], cn_hist = []\<rparr>"

definition goto :: "nat \<Rightarrow> 'a pc \<Rightarrow> 'a conc \<Rightarrow> 'a conc" where
  "goto t k c = c\<lparr>cn_pc := (cn_pc c)(t := k)\<rparr>"

definition alive :: "nptr \<Rightarrow> 'a tslist \<Rightarrow> bool" where
  "alive p l = (case p of Head \<Rightarrow> True | Node a \<Rightarrow> ts_heap l a \<noteq> None)"

text \<open>Locking and unlocking a mutex of a destroyed node is an access to freed memory.\<close>

definition acquire :: "nat \<Rightarrow> nptr \<Rightarrow> 'a pc \<Rightarrow> 'a conc \<Rightarrow> 'a conc option" where
  "acquire t p k c =
     (if \<not> alive p (cn_list c) then Some (goto t Crashed c)
      else if cn_lock c p \<noteq> None then None
      else Some (goto t k (c\<lparr>cn_lock := (cn_lock c)(p := Some t)\<rparr>)))"

definition release :: "nat \<Rightarrow> nptr \<Rightarrow> 'a pc \<Rightarrow> 'a conc \<Rightarrow> 'a conc" where
  "release t p k c =
     (if \<not> alive p (cn_list c) then goto t Crashed c
      else goto t k (c\<lparr>cn_lock := (cn_lock c)(p := None)\<rparr>))"

section \<open>The pieces of the operations\<close>

text \<open>\<open>push_front\<close> without the increment of \<open>size_\<close>.\<close>

definition tsl_link :: "'a \<Rightarrow> 'a tslist \<Rightarrow> 'a tslist" where
  "tsl_link v l =
     (let a = ts_fresh l;
          nd = \<lparr>nd_data = v, nd_next = ts_head l, nd_prev = None\<rparr>;
          l1 = l\<lparr>ts_head := None\<rparr>;
          l2 = (case ts_head l1 of Some b \<Rightarrow> set_prev b (Some (Node a)) l1 | None \<Rightarrow> l1)
      in l2\<lparr>ts_heap := (ts_heap l2)(a \<mapsto> nd\<lparr>nd_prev := Some Head\<rparr>),
            ts_head := Some a, ts_fresh := Suc a\<rparr>)"

text \<open>
  \<open>remove_first_if\<close> up to \<open>next_lk.unlock()\<close>: the successor's \<open>prev\<close> is redirected and
  \<open>old_next->next\<close> is moved into \<open>current->next\<close>, which leaves it null.
\<close>

definition tsl_splice :: "nptr \<Rightarrow> nat \<Rightarrow> 'a tslist \<Rightarrow> 'a tslist" where
  "tsl_splice cur a l = (case ts_heap l a of
     None \<Rightarrow> l
   | Some old \<Rightarrow>
       (let l1 = set_next cur None l;
            l2 = (case nd_next old of Some b \<Rightarrow> set_prev b (Some cur) l1 | None \<Rightarrow> l1)
        in set_next (Node a) None (set_next cur (nd_next old) l2)))"

definition tsl_free :: "nat \<Rightarrow> 'a tslist \<Rightarrow> 'a tslist" where
  "tsl_free a l = l\<lparr>ts_heap := (ts_heap l)(a := None)\<rparr>"

definition tsl_count :: "u64 \<Rightarrow> 'a tslist \<Rightarrow> 'a tslist" where
  "tsl_count n l = l\<lparr>ts_size := ts_size l + n\<rparr>"

lemma push_front_stages: "tsl_push_front v l = tsl_count 1 (tsl_link v l)"
  by (simp add: tsl_push_front_def tsl_link_def tsl_count_def Let_def)

lemma unlink_stages:
  "ts_heap l a = Some old \<Longrightarrow> cur \<noteq> Node a \<Longrightarrow>
   unlink cur a l = tsl_free a (tsl_count (- 1) (tsl_splice cur a l))"
  by (auto simp: unlink_def tsl_splice_def tsl_free_def tsl_count_def Let_def set_next_def set_prev_def
      fun_upd_twist split: option.splits nptr.splits)

section \<open>The steps\<close>

text \<open>What a call does first with the lock of the head, and what it returns at the end of the list.\<close>

definition entry_pc :: "'a call \<Rightarrow> 'a pc" where
  "entry_pc op = (case op of Push v \<Rightarrow> Linking v | _ \<Rightarrow> At op Head [])"

definition at_end :: "'a call \<Rightarrow> 'a list \<Rightarrow> 'a reply" where
  "at_end op seen = (case op of Push _ \<Rightarrow> Done | Visit_all \<Rightarrow> Seen seen | Find _ \<Rightarrow> Found None
     | Remove _ \<Rightarrow> Removed False)"

text \<open>The loop condition and the lock of the successor.\<close>

definition step_at :: "nat \<Rightarrow> 'a call \<Rightarrow> nptr \<Rightarrow> 'a list \<Rightarrow> 'a conc \<Rightarrow> 'a conc option" where
  "step_at t op cur seen c = (case read_next (cn_list c) cur of
     Ret None \<Rightarrow> Some (goto t (Leaving cur (at_end op seen)) c)
   | Ret (Some b) \<Rightarrow> acquire t (Node b) (Both op cur b seen) c
   | _ \<Rightarrow> Some (goto t Crashed c))"

text \<open>
  With both locks: a removal tests the predicate and unlinks or goes on, the other traversals
  release the lock of \<open>cur\<close> first.
\<close>

definition step_both :: "nat \<Rightarrow> 'a call \<Rightarrow> nptr \<Rightarrow> nat \<Rightarrow> 'a list \<Rightarrow> 'a conc \<Rightarrow> 'a conc" where
  "step_both t op cur b seen c = (case op of
     Remove P \<Rightarrow> (case ts_heap (cn_list c) b of
         None \<Rightarrow> goto t Crashed c
       | Some nd \<Rightarrow> (if P (nd_data nd) then goto t (Cut cur b) (c\<lparr>cn_list := tsl_splice cur b (cn_list c)\<rparr>)
                    else release t cur (At op (Node b) seen) c))
   | _ \<Rightarrow> release t cur (Visiting op b seen) c)"

definition step_visit :: "nat \<Rightarrow> 'a call \<Rightarrow> nat \<Rightarrow> 'a list \<Rightarrow> 'a conc \<Rightarrow> 'a conc" where
  "step_visit t op b seen c = (case ts_heap (cn_list c) b of
     None \<Rightarrow> goto t Crashed c
   | Some nd \<Rightarrow> (case op of
       Find P \<Rightarrow> (if P (nd_data nd) then goto t (Leaving (Node b) (Found (Some (nd_data nd)))) c
                 else goto t (At op (Node b) seen) c)
     | _ \<Rightarrow> goto t (At op (Node b) (seen @ [nd_data nd])) c))"

definition advance :: "nat \<Rightarrow> 'a conc \<Rightarrow> 'a conc option" where
  "advance t c = (case cn_pc c t of
     Idle \<Rightarrow> None
   | Called op \<Rightarrow> acquire t Head (entry_pc op) (c\<lparr>cn_log := cn_log c @ [(t, op)]\<rparr>)
   | Linking v \<Rightarrow> Some (goto t Linked (c\<lparr>cn_list := tsl_link v (cn_list c)\<rparr>))
   | Linked \<Rightarrow> Some (goto t (Leaving Head Done) (c\<lparr>cn_list := tsl_count 1 (cn_list c)\<rparr>))
   | At op cur seen \<Rightarrow> step_at t op cur seen c
   | Both op cur b seen \<Rightarrow> Some (step_both t op cur b seen c)
   | Visiting op b seen \<Rightarrow> Some (step_visit t op b seen c)
   | Cut cur b \<Rightarrow> Some (release t (Node b) (Cut_open cur b) c)
   | Cut_open cur b \<Rightarrow> Some (goto t (Counted cur b) (c\<lparr>cn_list := tsl_count (- 1) (cn_list c)\<rparr>))
   | Counted cur b \<Rightarrow> Some (if alive (Node b) (cn_list c)
       then goto t (Leaving cur (Removed True)) (c\<lparr>cn_list := tsl_free b (cn_list c)\<rparr>)
       else goto t Crashed c)
   | Leaving p r \<Rightarrow> Some (release t p Idle (c\<lparr>cn_hist := cn_hist c @ [(t, r)]\<rparr>))
   | Crashed \<Rightarrow> None)"

inductive hoh_reach :: "'a conc \<Rightarrow> bool" where
  start: "hoh_reach conc_init"
| call: "hoh_reach c \<Longrightarrow> cn_pc c t = Idle \<Longrightarrow> hoh_reach (goto t (Called op) c)"
| step: "hoh_reach c \<Longrightarrow> advance t c = Some c' \<Longrightarrow> hoh_reach c'"

text \<open>The same as a function of a schedule: who calls what, and whose step is next.\<close>

datatype 'a event = Invoke nat "'a call" | Go nat

fun hoh_exec :: "'a event list \<Rightarrow> 'a conc \<Rightarrow> 'a conc option" where
  "hoh_exec [] c = Some c"
| "hoh_exec (Invoke t op # es) c =
     (case cn_pc c t of Idle \<Rightarrow> hoh_exec es (goto t (Called op) c) | _ \<Rightarrow> None)"
| "hoh_exec (Go t # es) c = (case advance t c of None \<Rightarrow> None | Some c' \<Rightarrow> hoh_exec es c')"

lemma exec_reach: "hoh_reach c \<Longrightarrow> hoh_exec es c = Some c' \<Longrightarrow> hoh_reach c'"
  by (induction es c rule: hoh_exec.induct)
    (auto intro: hoh_reach.intros split: pc.splits option.splits)

section \<open>The sequential specification\<close>

definition spec_call :: "'a call \<Rightarrow> 'a list \<Rightarrow> 'a reply \<times> 'a list" where
  "spec_call op xs = (case op of
     Push v \<Rightarrow> (Done, v # xs)
   | Visit_all \<Rightarrow> (Seen xs, xs)
   | Find P \<Rightarrow> (Found (find P xs), xs)
   | Remove P \<Rightarrow> (Removed (\<exists>x \<in> set xs. P x), remove_first P xs))"

fun spec_run :: "'a list \<Rightarrow> (nat \<times> 'a call) list \<Rightarrow> (nat \<times> 'a reply) list \<times> 'a list" where
  "spec_run xs [] = ([], xs)"
| "spec_run xs ((t, op) # ops) =
     (let (r, ys) = spec_call op xs; (rs, zs) = spec_run ys ops in ((t, r) # rs, zs))"

definition of_thread :: "nat \<Rightarrow> (nat \<times> 'b) list \<Rightarrow> 'b list" where
  "of_thread t xs = map snd (filter (\<lambda>x. fst x = t) xs)"

lemma spec_run_snoc:
  "spec_run xs (ops @ [(t, op)]) =
     (let (rs, ys) = spec_run xs ops; (r, zs) = spec_call op ys in (rs @ [(t, r)], zs))"
  by (induction xs ops rule: spec_run.induct) (auto simp: Let_def split: prod.splits)

lemma of_thread_simps [simp]:
  "of_thread t [] = []"
  "of_thread t (xs @ ys) = of_thread t xs @ of_thread t ys"
  "of_thread t [(t', x)] = (if t' = t then [x] else [])"
  by (simp_all add: of_thread_def)

section \<open>Who holds what\<close>

fun holds :: "'a pc \<Rightarrow> nptr set" where
  "holds (Linking v) = {Head}"
| "holds Linked = {Head}"
| "holds (At op cur seen) = {cur}"
| "holds (Both op cur b seen) = {cur, Node b}"
| "holds (Visiting op b seen) = {Node b}"
| "holds (Cut cur b) = {cur, Node b}"
| "holds (Cut_open cur b) = {cur}"
| "holds (Counted cur b) = {cur}"
| "holds (Leaving p r) = {p}"
| "holds _ = {}"

text \<open>The node a thread has unlinked and not yet destroyed.\<close>

fun detached :: "'a pc \<Rightarrow> nat set" where
  "detached (Cut cur b) = {b}"
| "detached (Cut_open cur b) = {b}"
| "detached (Counted cur b) = {b}"
| "detached _ = {}"

text \<open>The positions of the list that a thread relies on.\<close>

definition anchors :: "'a pc \<Rightarrow> nptr set" where
  "anchors k = holds k - Node ` detached k"

section \<open>The future of a list\<close>

text \<open>
  No thread overtakes another, so what a removal in progress will do is already determined:
  \<open>effect k p xs\<close> is what the thread with program counter \<open>k\<close> will make of the contents \<open>xs\<close> behind
  position \<open>p\<close>, and \<open>rest\<close> the contents behind a position when all threads ahead have finished.
\<close>

fun effect :: "'a pc \<Rightarrow> nptr \<Rightarrow> 'a list \<Rightarrow> 'a list" where
  "effect (Linking v) p xs = (if p = Head then v # xs else xs)"
| "effect (At (Remove P) cur seen) p xs = (if p = cur then remove_first P xs else xs)"
| "effect (Both (Remove P) cur b seen) p xs = (if p = cur then remove_first P xs else xs)"
| "effect _ p xs = xs"

definition pending :: "'a conc \<Rightarrow> nptr \<Rightarrow> 'a list \<Rightarrow> 'a list" where
  "pending c p = (case cn_lock c p of None \<Rightarrow> (\<lambda>xs. xs) | Some t \<Rightarrow> effect (cn_pc c t) p)"

definition rest :: "(nptr \<Rightarrow> 'a list \<Rightarrow> 'a list) \<Rightarrow> (nat \<Rightarrow> 'a) \<Rightarrow> nat list \<Rightarrow> 'a list" where
  "rest e d as = foldr (\<lambda>a r. d a # e (Node a) r) as []"

fun after :: "nptr \<Rightarrow> nat list \<Rightarrow> nat list" where
  "after Head as = as"
| "after (Node a) as = tl (dropWhile (\<lambda>x. x \<noteq> a) as)"

definition outcome_of :: "'a call \<Rightarrow> 'a list \<Rightarrow> 'a list \<Rightarrow> 'a reply" where
  "outcome_of op seen xs = (case op of
     Push v \<Rightarrow> Done
   | Visit_all \<Rightarrow> Seen (seen @ xs)
   | Find P \<Rightarrow> Found (find P xs)
   | Remove P \<Rightarrow> Removed (\<exists>x \<in> set xs. P x))"

text \<open>The reply a thread will give, from the contents \<open>R p\<close> behind each position.\<close>

fun promise :: "(nat \<Rightarrow> 'a) \<Rightarrow> (nptr \<Rightarrow> 'a list) \<Rightarrow> 'a pc \<Rightarrow> 'a reply list" where
  "promise d R Idle = []"
| "promise d R (Called op) = []"
| "promise d R (Linking v) = [Done]"
| "promise d R Linked = [Done]"
| "promise d R (At op cur seen) = [outcome_of op seen (R cur)]"
| "promise d R (Both op cur b seen) = [outcome_of op seen (R cur)]"
| "promise d R (Visiting op b seen) = [outcome_of op seen (d b # R (Node b))]"
| "promise d R (Cut cur b) = [Removed True]"
| "promise d R (Cut_open cur b) = [Removed True]"
| "promise d R (Counted cur b) = [Removed True]"
| "promise d R (Leaving p r) = [r]"
| "promise d R Crashed = []"

lemma rest_simps [simp]:
  "rest e d [] = []"
  "rest e d (a # as) = d a # e (Node a) (rest e d as)"
  "rest e d (xs @ ys) = foldr (\<lambda>a r. d a # e (Node a) r) xs (rest e d ys)"
  by (simp_all add: rest_def)

lemma rest_cong:
  assumes "\<And>a. a \<in> set as \<Longrightarrow> e (Node a) = e' (Node a)" and "\<And>a. a \<in> set as \<Longrightarrow> d a = d' a"
  shows "rest e d as = rest e' d' as"
  using assms by (induction as) simp_all

lemma after_last_ptr: "distinct (pre @ suf) \<Longrightarrow> after (last_ptr pre) (pre @ suf) = suf"
proof (cases pre rule: rev_cases)
  case (snoc ys y)
  moreover assume "distinct (pre @ suf)"
  ultimately have "\<forall>x \<in> set ys. x \<noteq> y" by auto
  then have "dropWhile (\<lambda>x. x \<noteq> y) (ys @ y # suf) = y # suf" by (induction ys) auto
  with snoc show ?thesis by simp
qed (simp add: last_ptr_def)

lemma after_ahead: "a \<notin> set pre \<Longrightarrow> a \<in> set suf \<Longrightarrow> after (Node a) (pre @ suf) = after (Node a) suf"
  by (induction pre) auto

lemma set_after: "set (after (Node a) as) \<subseteq> set as"
proof
  fix x assume "x \<in> set (after (Node a) as)"
  then have "x \<in> set (dropWhile (\<lambda>x. x \<noteq> a) as)" by (cases "dropWhile (\<lambda>x. x \<noteq> a) as") auto
  then show "x \<in> set as" by (rule set_dropWhileD)
qed

declare after.simps(2) [simp del]

text \<open>Positions of the list split it in front and behind.\<close>

lemma split_at:
  assumes "p = Head \<or> p \<in> Node ` set as"
  obtains pre suf where "as = pre @ suf" and "last_ptr pre = p"
proof (cases p)
  case Head
  then show thesis using that [of "[]" as] by (simp add: last_ptr_def)
next
  case (Node a)
  with assms obtain xs ys where "as = (xs @ [a]) @ ys" by (auto dest: split_list)
  then show thesis using that [of "xs @ [a]" ys] Node by simp
qed

text \<open>
  A step of the thread at position \<open>p\<close> changes the list behind \<open>p\<close>, or what is pending there. If the
  result at \<open>p\<close> stays what it was, so do the results at all positions in front of \<open>p\<close>.
\<close>

lemma rest_front:
  assumes "distinct (ys @ [y])"
    and "\<And>a. a \<in> set ys \<Longrightarrow> e (Node a) = e' (Node a)" and "\<And>a. a \<in> set (ys @ [y]) \<Longrightarrow> d a = d' a"
    and "e (Node y) (rest e d win) = e' (Node y) (rest e' d' win')"
  shows "rest e d ((ys @ [y]) @ win) = rest e' d' ((ys @ [y]) @ win')"
  using assms by (auto intro!: foldr_cong)

lemma rest_window:
  assumes dist: "distinct pre" and q: "\<And>q. q \<in> insert Head (Node ` set pre) \<Longrightarrow> q \<noteq> last_ptr pre \<Longrightarrow> e q = e' q"
    and d: "\<And>a. a \<in> set pre \<Longrightarrow> d a = d' a"
    and p: "e (last_ptr pre) (rest e d win) = e' (last_ptr pre) (rest e' d' win')"
  shows rest_window_all: "e Head (rest e d (pre @ win)) = e' Head (rest e' d' (pre @ win'))"
    and rest_window_front:
      "pre = xs @ zs \<Longrightarrow> zs \<noteq> [] \<Longrightarrow> rest e d (zs @ win) = rest e' d' (zs @ win')"
proof -
  show front: "rest e d (zs @ win) = rest e' d' (zs @ win')" if "pre = xs @ zs" "zs \<noteq> []" for xs zs
  proof -
    from that obtain ys y where ys: "zs = ys @ [y]" by (cases zs rule: rev_cases) auto
    with that have last: "last_ptr pre = Node y" by (simp add: last_ptr_def)
    show ?thesis
      unfolding ys
      by (rule rest_front) (use dist q d p that ys last in auto)
  qed
  show "e Head (rest e d (pre @ win)) = e' Head (rest e' d' (pre @ win'))"
  proof (cases "pre = []")
    case True
    with p show ?thesis by (simp add: last_ptr_def)
  next
    case False
    then have "e Head = e' Head" by (intro q) (auto simp: last_ptr_def)
    with front [of "[]" pre] False show ?thesis by simp
  qed
qed

section \<open>The invariant\<close>

abbreviation nodes :: "'a conc \<Rightarrow> nat \<rightharpoonup> 'a lnode" where
  "nodes c \<equiv> ts_heap (cn_list c)"

abbreviation future :: "'a conc \<Rightarrow> nat list \<Rightarrow> 'a list" where
  "future c as \<equiv> rest (pending c) (data_of (nodes c)) as"

text \<open>The nodes: those of the chain \<open>as\<close> and those a thread has unlinked.\<close>

definition shape :: "'a conc \<Rightarrow> nat list \<Rightarrow> bool" where
  "shape c as \<longleftrightarrow>
     path (nodes c) (ts_head (cn_list c)) as None \<and> distinct as \<and>
     dom (nodes c) = set as \<union> (\<Union>t. detached (cn_pc c t)) \<and>
     dom (nodes c) \<subseteq> {..<ts_fresh (cn_list c)} \<and>
     (\<forall>t. detached (cn_pc c t) \<inter> set as = {}) \<and>
     (\<forall>t t'. t \<noteq> t' \<longrightarrow> detached (cn_pc c t) \<inter> detached (cn_pc c t') = {})"

fun well_placed :: "nat list \<Rightarrow> 'a pc \<Rightarrow> bool" where
  "well_placed as (At op cur seen) \<longleftrightarrow> (\<forall>v. op \<noteq> Push v)"
| "well_placed as (Both op cur b seen) \<longleftrightarrow> (\<forall>v. op \<noteq> Push v) \<and> after cur as = b # after (Node b) as"
| "well_placed as (Visiting op b seen) \<longleftrightarrow> op = Visit_all \<or> (\<exists>P. op = Find P)"
| "well_placed as (Cut cur b) \<longleftrightarrow> cur \<noteq> Node b"
| "well_placed as (Cut_open cur b) \<longleftrightarrow> cur \<noteq> Node b"
| "well_placed as (Counted cur b) \<longleftrightarrow> cur \<noteq> Node b"
| "well_placed as Crashed \<longleftrightarrow> False"
| "well_placed as k \<longleftrightarrow> True"

definition locks_ok :: "'a conc \<Rightarrow> nat list \<Rightarrow> bool" where
  "locks_ok c as \<longleftrightarrow>
     (\<forall>p t. cn_lock c p = Some t \<longleftrightarrow> p \<in> holds (cn_pc c t)) \<and>
     (\<forall>t. anchors (cn_pc c t) \<subseteq> insert Head (Node ` set as)) \<and>
     (\<forall>t. well_placed as (cn_pc c t))"

definition spec_ok :: "'a conc \<Rightarrow> nat list \<Rightarrow> bool" where
  "spec_ok c as \<longleftrightarrow> (\<exists>rs. spec_run [] (cn_log c) = (rs, pending c Head (future c as)) \<and>
     (\<forall>t. of_thread t rs =
        of_thread t (cn_hist c) @ promise (data_of (nodes c)) (\<lambda>q. future c (after q as)) (cn_pc c t)))"

definition hoh_inv :: "'a conc \<Rightarrow> nat list \<Rightarrow> bool" where
  "hoh_inv c as \<longleftrightarrow> shape c as \<and> locks_ok c as \<and> spec_ok c as"

lemma hoh_init: "hoh_inv conc_init []"
  by (simp add: hoh_inv_def shape_def locks_ok_def spec_ok_def conc_init_def tsl_new_def anchors_def
      pending_def)

section \<open>What a step of one thread leaves alone\<close>

lemma promise_cong:
  assumes "\<And>q. q \<in> anchors k \<Longrightarrow> R q = R' q" and "\<And>a. Node a \<in> anchors k \<Longrightarrow> d a = d' a"
  shows "promise d R k = promise d' R' k"
  using assms by (cases k) (auto simp: anchors_def)

lemma effect_outside: "p \<notin> holds k \<Longrightarrow> effect k p xs = xs"
  by (cases "(k, p, xs)" rule: effect.cases) auto

lemma locks_held: "locks_ok c as \<Longrightarrow> p \<in> holds (cn_pc c t) \<Longrightarrow> cn_lock c p = Some t"
  by (simp add: locks_ok_def)

lemma locks_anchors: "locks_ok c as \<Longrightarrow> q \<in> anchors (cn_pc c t) \<Longrightarrow> q = Head \<or> q \<in> Node ` set as"
  by (auto simp: locks_ok_def)

lemma locks_placed: "locks_ok c as \<Longrightarrow> well_placed as (cn_pc c t)"
  by (simp add: locks_ok_def)

lemma holds_disjoint:
  "locks_ok c as \<Longrightarrow> p \<in> holds (cn_pc c t) \<Longrightarrow> p \<in> holds (cn_pc c u) \<Longrightarrow> u = t"
  by (metis locks_held option.inject)

lemma pending_held: "locks_ok c as \<Longrightarrow> p \<in> holds (cn_pc c t) \<Longrightarrow> pending c p = effect (cn_pc c t) p"
  by (simp add: pending_def locks_held)

lemma pending_free: "cn_lock c p = None \<Longrightarrow> pending c p = (\<lambda>xs. xs)"
  by (simp add: pending_def)

text \<open>Thread \<open>t\<close> moves to \<open>k\<close>, with the locks of \<open>k\<close> instead of those it had.\<close>

definition moves :: "nat \<Rightarrow> 'a pc \<Rightarrow> 'a conc \<Rightarrow> 'a conc \<Rightarrow> bool" where
  "moves t k c c' \<longleftrightarrow> cn_pc c' = (cn_pc c)(t := k) \<and>
     (\<forall>p. cn_lock c' p = (if p \<in> holds k then Some t
        else if p \<in> holds (cn_pc c t) then None else cn_lock c p)) \<and>
     (\<forall>p \<in> holds k - holds (cn_pc c t). cn_lock c p = None)"

lemma moves_locks:
  assumes "locks_ok c as" and "moves t k c c'"
    and "anchors k \<subseteq> insert Head (Node ` set as')" and "well_placed as' k"
    and "\<And>u. u \<noteq> t \<Longrightarrow> anchors (cn_pc c u) \<subseteq> insert Head (Node ` set as') \<and> well_placed as' (cn_pc c u)"
  shows "locks_ok c' as'"
proof -
  have own: "cn_lock c p = Some v \<longleftrightarrow> p \<in> holds (cn_pc c v)" for p v
    using assms(1) by (simp add: locks_ok_def)
  have "cn_lock c' p = Some u \<longleftrightarrow> p \<in> holds (cn_pc c' u)" for p u
  proof (cases "u = t")
    case True
    with assms(2) own show ?thesis by (auto simp: moves_def)
  next
    case False
    have "p \<notin> holds (cn_pc c u)" if "p \<in> holds k \<union> holds (cn_pc c t)"
    proof (cases "p \<in> holds (cn_pc c t)")
      case True
      then have "cn_lock c p = Some t" by (simp add: own)
      with False show ?thesis by (simp flip: own)
    next
      case False
      with that assms(2) have "cn_lock c p = None" by (auto simp: moves_def)
      then show ?thesis by (simp flip: own)
    qed
    with False assms(2) own show ?thesis by (auto simp: moves_def)
  qed
  with assms show ?thesis by (auto simp: locks_ok_def moves_def)
qed

lemma moves_pending:
  assumes "locks_ok c as" and "moves t k c c'"
  shows "pending c' p = (if p \<in> holds k \<union> holds (cn_pc c t) then effect k p else pending c p)"
proof -
  have "pending c' p = effect k p" if "p \<in> holds k"
    using that assms(2) by (simp add: pending_def moves_def)
  moreover have "pending c' p = effect k p" if "p \<notin> holds k" "p \<in> holds (cn_pc c t)"
    using that assms(2) by (auto simp: pending_def moves_def effect_outside)
  moreover have "pending c' p = pending c p" if "p \<notin> holds k" "p \<notin> holds (cn_pc c t)"
  proof -
    from that assms(2) have lk: "cn_lock c' p = cn_lock c p" by (simp add: moves_def)
    show ?thesis
    proof (cases "cn_lock c p")
      case (Some u)
      with that assms(1) have "u \<noteq> t" by (auto simp: locks_ok_def)
      with lk Some assms(2) show ?thesis by (simp add: pending_def moves_def)
    qed (simp add: pending_def lk)
  qed
  ultimately show ?thesis by auto
qed

lemma moves_pending_same:
  assumes "locks_ok c as" and "moves t k c c'" and "effect k = effect (cn_pc c t)"
  shows "pending c' = pending c"
proof
  fix p
  have "pending c p = effect (cn_pc c t) p" if "p \<in> holds k \<union> holds (cn_pc c t)"
  proof (cases "p \<in> holds (cn_pc c t)")
    case True
    then show ?thesis by (rule pending_held [OF assms(1)])
  next
    case False
    with that assms(2) have "cn_lock c p = None" by (auto simp: moves_def)
    with False show ?thesis by (auto simp: pending_free effect_outside)
  qed
  then show "pending c' p = pending c p"
    using assms by (simp add: moves_pending)
qed

lemma of_thread_tag [simp]: "of_thread u (map (Pair t) xs) = (if u = t then xs else [])"
  by (induction xs) (auto simp: of_thread_def)

lemma spec_step:
  assumes "spec_ok c as" and "moves t k c c'"
    and "cn_log c' = cn_log c" and "cn_hist c' = cn_hist c @ map (Pair t) fin"
    and "pending c' Head (future c' as') = pending c Head (future c as)"
    and "\<And>u. u \<noteq> t \<Longrightarrow> promise (data_of (nodes c')) (\<lambda>q. future c' (after q as')) (cn_pc c u) =
      promise (data_of (nodes c)) (\<lambda>q. future c (after q as)) (cn_pc c u)"
    and "promise (data_of (nodes c)) (\<lambda>q. future c (after q as)) (cn_pc c t) =
      fin @ promise (data_of (nodes c')) (\<lambda>q. future c' (after q as')) k"
  shows "spec_ok c' as'"
proof -
  from assms(1) obtain rs where "spec_run [] (cn_log c) = (rs, pending c Head (future c as))"
    and rs: "of_thread u rs = of_thread u (cn_hist c) @
      promise (data_of (nodes c)) (\<lambda>q. future c (after q as)) (cn_pc c u)" for u
    by (auto simp: spec_ok_def)
  moreover have "of_thread u rs = of_thread u (cn_hist c') @
      promise (data_of (nodes c')) (\<lambda>q. future c' (after q as')) (cn_pc c' u)" for u
    using assms(2,4,6,7) rs by (cases "u = t") (simp_all add: moves_def)
  ultimately show ?thesis using assms(3,5) by (auto simp: spec_ok_def)
qed

text \<open>A step that changes neither the chain nor what is pending.\<close>

lemma quiet_step:
  assumes inv: "hoh_inv c as" and mv: "moves t k c c'" and shape: "shape c' as"
    and d: "\<And>a. a \<in> set as \<Longrightarrow> data_of (nodes c') a = data_of (nodes c) a"
    and hist: "cn_log c' = cn_log c" "cn_hist c' = cn_hist c @ map (Pair t) fin"
    and k: "anchors k \<subseteq> insert Head (Node ` set as)" "well_placed as k" "effect k = effect (cn_pc c t)"
    and pr: "promise (data_of (nodes c)) (\<lambda>q. future c (after q as)) (cn_pc c t) =
      fin @ promise (data_of (nodes c)) (\<lambda>q. future c (after q as)) k"
  shows "hoh_inv c' as"
proof -
  from inv have lk: "locks_ok c as" by (simp add: hoh_inv_def)
  have lk': "locks_ok c' as"
    by (rule moves_locks [OF lk mv k(1,2)]) (use lk in \<open>auto simp: locks_ok_def\<close>)
  have same: "future c' bs = future c bs" if "set bs \<subseteq> set as" for bs
    using that d moves_pending_same [OF lk mv k(3)] by (intro rest_cong) auto
  have aft: "set (after q as) \<subseteq> set as" for q
    using set_after by (cases q) auto
  have prom: "promise (data_of (nodes c')) (\<lambda>q. future c' (after q as)) m =
      promise (data_of (nodes c)) (\<lambda>q. future c (after q as)) m"
    if "anchors m \<subseteq> insert Head (Node ` set as)" for m
    by (rule promise_cong) (use that d same [OF aft] in auto)
  from inv have sp: "spec_ok c as" by (simp add: hoh_inv_def)
  have "spec_ok c' as"
  proof (rule spec_step [OF sp mv hist])
    show "pending c' Head (future c' as) = pending c Head (future c as)"
      using same [of as] by (simp add: moves_pending_same [OF lk mv k(3)])
    show "promise (data_of (nodes c')) (\<lambda>q. future c' (after q as)) (cn_pc c u) =
        promise (data_of (nodes c)) (\<lambda>q. future c (after q as)) (cn_pc c u)" for u
      by (rule prom) (use lk in \<open>auto simp: locks_ok_def\<close>)
    show "promise (data_of (nodes c)) (\<lambda>q. future c (after q as)) (cn_pc c t) =
        fin @ promise (data_of (nodes c')) (\<lambda>q. future c' (after q as)) k"
      by (simp add: prom [OF k(1)] pr)
  qed
  with lk' shape show ?thesis by (simp add: hoh_inv_def)
qed

section \<open>Every step keeps the invariant\<close>

lemma shapeI:
  assumes "path (nodes c) (ts_head (cn_list c)) as None" and "distinct as"
    and "dom (nodes c) = set as \<union> (\<Union>t. detached (cn_pc c t))"
    and "dom (nodes c) \<subseteq> {..<ts_fresh (cn_list c)}"
    and "\<And>t. detached (cn_pc c t) \<inter> set as = {}"
    and "\<And>t t'. t \<noteq> t' \<Longrightarrow> detached (cn_pc c t) \<inter> detached (cn_pc c t') = {}"
  shows "shape c as"
  using assms unfolding shape_def by blast

lemma shapeD:
  assumes "shape c as"
  shows shape_path: "path (nodes c) (ts_head (cn_list c)) as None" and shape_distinct: "distinct as"
    and shape_dom: "dom (nodes c) = set as \<union> (\<Union>t. detached (cn_pc c t))"
    and shape_fresh: "dom (nodes c) \<subseteq> {..<ts_fresh (cn_list c)}"
    and shape_detached: "detached (cn_pc c t) \<inter> set as = {}"
    and shape_disjoint: "t \<noteq> t' \<Longrightarrow> detached (cn_pc c t) \<inter> detached (cn_pc c t') = {}"
  using assms unfolding shape_def by blast+

lemma shape_same:
  assumes "shape c as" and "nodes c' = nodes c" and "ts_head (cn_list c') = ts_head (cn_list c)"
    and "ts_fresh (cn_list c') = ts_fresh (cn_list c)"
    and "cn_pc c' = (cn_pc c)(t := k)" and "detached k = detached (cn_pc c t)"
  shows "shape c' as"
proof -
  have "detached (cn_pc c' u) = detached (cn_pc c u)" for u
    using assms(5,6) by simp
  then have "shape c' as = shape c as" by (simp only: shape_def assms(2-4))
  with assms(1) show ?thesis by simp
qed

lemma anchor_alive:
  assumes "shape c as" and "p = Head \<or> p \<in> Node ` set as"
  shows "alive p (cn_list c)"
  using assms by (auto simp: alive_def shape_def dom_def split: nptr.splits)

lemma detached_alive:
  "shape c as \<Longrightarrow> b \<in> detached (cn_pc c t) \<Longrightarrow> alive (Node b) (cn_list c)"
  by (auto simp: alive_def shape_def dom_def)

lemma moves_goto:
  assumes "locks_ok c as" and "cn_pc c1 = cn_pc c" "cn_lock c1 = cn_lock c"
    and "holds k = holds (cn_pc c t)"
  shows "moves t k c (goto t k c1)"
  using assms by (auto simp: moves_def goto_def locks_held)

lemma moves_acquire:
  assumes "locks_ok c as" and "cn_lock c p = None" and "cn_pc c1 = cn_pc c" "cn_lock c1 = cn_lock c"
    and "holds k = insert p (holds (cn_pc c t))"
  shows "moves t k c (goto t k (c1\<lparr>cn_lock := (cn_lock c1)(p := Some t)\<rparr>))"
  using assms by (auto simp: moves_def goto_def locks_held)

lemma moves_release:
  assumes "locks_ok c as" and "p \<in> holds (cn_pc c t)" and "cn_pc c1 = cn_pc c" "cn_lock c1 = cn_lock c"
    and "holds k = holds (cn_pc c t) - {p}"
  shows "moves t k c (goto t k (c1\<lparr>cn_lock := (cn_lock c1)(p := None)\<rparr>))"
  using assms by (auto simp: moves_def goto_def locks_held)

lemmas step_defs = advance_def step_at_def step_both_def step_visit_def acquire_def release_def

lemma goto_simps [simp]:
  "cn_list (goto t k c) = cn_list c" "cn_lock (goto t k c) = cn_lock c"
  "cn_pc (goto t k c) = (cn_pc c)(t := k)" "cn_log (goto t k c) = cn_log c"
  "cn_hist (goto t k c) = cn_hist c"
  by (simp_all add: goto_def)

lemma tsl_count_simps [simp]:
  "ts_heap (tsl_count n l) = ts_heap l" "ts_head (tsl_count n l) = ts_head l"
  "ts_fresh (tsl_count n l) = ts_fresh l" "ts_size (tsl_count n l) = ts_size l + n"
  by (simp_all add: tsl_count_def)

lemma inv_parts:
  assumes "hoh_inv c as"
  shows "shape c as" and "locks_ok c as" and "spec_ok c as"
  using assms by (simp_all add: hoh_inv_def)

lemma shape_free:
  assumes "shape c as" and "detached (cn_pc c t) = {b}"
    and "nodes c' = (nodes c)(b := None)" and "ts_head (cn_list c') = ts_head (cn_list c)"
    and "ts_fresh (cn_list c') = ts_fresh (cn_list c)"
    and "cn_pc c' = (cn_pc c)(t := k)" and "detached k = {}"
  shows "shape c' as"
proof -
  note sh = shapeD [OF assms(1)]
  from sh(5) [of t] assms(2) have b: "b \<notin> set as" by simp
  have det: "detached (cn_pc c' u) = detached (cn_pc c u) - {b}" for u
  proof (cases "u = t")
    case False
    from sh(6) [OF False] False assms(2,6) show ?thesis by auto
  qed (simp add: assms)
  have dom: "dom (nodes c') = dom (nodes c) - {b}" by (auto simp: assms(3))
  show ?thesis
  proof (rule shapeI)
    have "path (nodes c') p as None = path (nodes c) p as None" for p
      by (rule path_cong) (use b assms(3) in auto)
    with sh(1) show "path (nodes c') (ts_head (cn_list c')) as None" by (simp add: assms(4))
    show "dom (nodes c') = set as \<union> (\<Union>u. detached (cn_pc c' u))"
      unfolding dom sh(3) det using b by auto
    show "dom (nodes c') \<subseteq> {..<ts_fresh (cn_list c')}" using sh(4) by (auto simp: dom assms(5))
    show "detached (cn_pc c' u) \<inter> set as = {}" for u using sh(5) [of u] by (auto simp: det)
    show "detached (cn_pc c' u) \<inter> detached (cn_pc c' v) = {}" if "u \<noteq> v" for u v
      using sh(6) [OF that] by (auto simp: det)
  qed (rule sh(2))
qed

lemma effect_fun: "effect (Leaving p r) = (\<lambda>_ xs. xs)" "effect (Counted cur b) = (\<lambda>_ xs. xs)"
  "effect Linked = (\<lambda>_ xs. xs)" "effect (Cut cur b) = (\<lambda>_ xs. xs)"
  by (intro ext; simp)+

text \<open>The common case: the heap stays as it is.\<close>

lemma quiet_heap:
  assumes inv: "hoh_inv c as" and mv: "moves t k c c'"
    and list: "nodes c' = nodes c" "ts_head (cn_list c') = ts_head (cn_list c)"
      "ts_fresh (cn_list c') = ts_fresh (cn_list c)"
    and hist: "cn_log c' = cn_log c" "cn_hist c' = cn_hist c @ map (Pair t) fin"
    and k: "detached k = detached (cn_pc c t)" "anchors k \<subseteq> insert Head (Node ` set as)"
      "well_placed as k" "\<And>p xs. effect k p xs = effect (cn_pc c t) p xs"
    and pr: "promise (data_of (nodes c)) (\<lambda>q. future c (after q as)) (cn_pc c t) =
      fin @ promise (data_of (nodes c)) (\<lambda>q. future c (after q as)) k"
  shows "hoh_inv c' as"
proof (rule quiet_step [OF inv mv _ _ hist k(2,3) _ pr])
  show "shape c' as"
    by (rule shape_same [OF inv_parts(1) [OF inv] list _ k(1)]) (use mv in \<open>simp add: moves_def\<close>)
  show "effect k = effect (cn_pc c t)" by (intro ext) (rule k(4))
qed (simp add: list)

lemma step_linked:
  assumes "hoh_inv c as" and "cn_pc c t = Linked" and "advance t c = Some c'"
  shows "hoh_inv c' as"
proof -
  from assms(2,3) have c': "c' = goto t (Leaving Head Done) (c\<lparr>cn_list := tsl_count 1 (cn_list c)\<rparr>)"
    by (simp add: advance_def)
  have "moves t (Leaving Head Done) c c'"
    unfolding c' by (rule moves_goto [OF inv_parts(2) [OF assms(1)]]) (simp_all add: assms(2))
  from quiet_heap [OF assms(1) this, of "[]"] show ?thesis
    by (simp add: c' assms(2) anchors_def)
qed

lemma step_cut_open:
  assumes "hoh_inv c as" and "cn_pc c t = Cut_open cur b" and "advance t c = Some c'"
  shows "hoh_inv c' as"
proof -
  note inv = inv_parts [OF assms(1)]
  from assms(2,3) have c': "c' = goto t (Counted cur b) (c\<lparr>cn_list := tsl_count (- 1) (cn_list c)\<rparr>)"
    by (simp add: advance_def)
  have "moves t (Counted cur b) c c'"
    unfolding c' by (rule moves_goto [OF inv(2)]) (simp_all add: assms(2))
  from quiet_heap [OF assms(1) this, of "[]"] locks_placed [OF inv(2), of t]
    locks_anchors [OF inv(2), of _ t]
  show ?thesis by (force simp add: c' assms(2) anchors_def)
qed

lemma step_leaving:
  assumes "hoh_inv c as" and "cn_pc c t = Leaving p r" and "advance t c = Some c'"
  shows "hoh_inv c' as"
proof -
  note inv = inv_parts [OF assms(1)]
  define c1 where "c1 = c\<lparr>cn_hist := cn_hist c @ [(t, r)]\<rparr>"
  from locks_anchors [OF inv(2), of p t] assms(2) have "alive p (cn_list c)"
    by (intro anchor_alive [OF inv(1)]) (simp add: anchors_def)
  with assms(2,3) have c': "c' = goto t Idle (c1\<lparr>cn_lock := (cn_lock c1)(p := None)\<rparr>)"
    by (simp add: step_defs c1_def)
  have "moves t Idle c c'"
    unfolding c' by (rule moves_release [OF inv(2)]) (simp_all add: assms(2) c1_def)
  from quiet_heap [OF assms(1) this, of "[r]"] show ?thesis
    by (simp add: c' c1_def assms(2) anchors_def)
qed

lemma step_cut:
  assumes "hoh_inv c as" and "cn_pc c t = Cut cur b" and "advance t c = Some c'"
  shows "hoh_inv c' as"
proof -
  note inv = inv_parts [OF assms(1)]
  from detached_alive [OF inv(1), of b t] assms(2,3)
  have c': "c' = goto t (Cut_open cur b) (c\<lparr>cn_lock := (cn_lock c)(Node b := None)\<rparr>)"
    by (simp add: step_defs)
  from locks_placed [OF inv(2), of t] assms(2) have ne: "cur \<noteq> Node b" by simp
  have "moves t (Cut_open cur b) c c'"
    unfolding c' by (rule moves_release [OF inv(2)]) (use ne in \<open>auto simp: assms(2)\<close>)
  from quiet_heap [OF assms(1) this, of "[]"] ne locks_anchors [OF inv(2), of cur t]
  show ?thesis by (simp add: c' assms(2) anchors_def)
qed

lemma step_counted:
  assumes "hoh_inv c as" and "cn_pc c t = Counted cur b" and "advance t c = Some c'"
  shows "hoh_inv c' as"
proof -
  note inv = inv_parts [OF assms(1)]
  let ?k = "Leaving cur (Removed True) :: 'a pc"
  from detached_alive [OF inv(1), of b t] assms(2,3)
  have c': "c' = goto t ?k (c\<lparr>cn_list := tsl_free b (cn_list c)\<rparr>)"
    by (simp add: step_defs)
  from locks_placed [OF inv(2), of t] assms(2) have ne: "cur \<noteq> Node b" by simp
  from locks_anchors [OF inv(2), of cur t] ne assms(2) have cur: "cur = Head \<or> cur \<in> Node ` set as"
    by (simp add: anchors_def)
  from shape_detached [OF inv(1), of t] assms(2) have b: "b \<notin> set as" by simp
  have mv: "moves t ?k c c'"
    unfolding c' by (rule moves_goto [OF inv(2)]) (simp_all add: assms(2))
  have heap: "nodes c' = (nodes c)(b := None)" "ts_head (cn_list c') = ts_head (cn_list c)"
    "ts_fresh (cn_list c') = ts_fresh (cn_list c)" and pcs: "cn_pc c' = (cn_pc c)(t := ?k)"
    by (simp_all add: c' tsl_free_def)
  have d: "data_of (nodes c') a = data_of (nodes c) a" if "a \<in> set as" for a
    using that b by (auto simp: heap data_of_def)
  have "shape c' as" by (rule shape_free [OF inv(1) _ heap pcs]) (simp_all add: assms(2))
  then show ?thesis
  proof (rule quiet_step [OF assms(1) mv _ d, of "[]"])
    show "cn_log c' = cn_log c" "cn_hist c' = cn_hist c @ map (Pair t) []" by (simp_all add: c')
    show "anchors ?k \<subseteq> insert Head (Node ` set as)" using cur by (simp add: anchors_def)
    show "effect ?k = effect (cn_pc c t)" by (simp add: assms(2) effect_fun)
  qed (simp_all add: assms(2))
qed

subsection \<open>Steps that change the list at the thread's position\<close>

lemma last_ptr_in: "last_ptr pre \<in> insert Head (Node ` set pre)"
  by (auto simp: last_ptr_def)

lemma position_cases:
  assumes "q = Head \<or> q \<in> Node ` set (pre @ m @ suf)" and "q \<noteq> last_ptr pre" and "q \<notin> Node ` set m"
  obtains (front) xs zs where "pre = xs @ zs" and "zs \<noteq> []" and "q = last_ptr xs"
    | (behind) a where "q = Node a" and "a \<in> set suf"
proof (cases "q = Head \<or> q \<in> Node ` set pre")
  case True
  then obtain xs zs where "pre = xs @ zs" "last_ptr xs = q" by (rule split_at)
  with assms(2) show thesis by (intro front [of xs zs]) auto
next
  case False
  with assms obtain a where "q = Node a" "a \<in> set suf" by auto
  then show thesis by (rule behind)
qed

text \<open>
  Thread \<open>t\<close>, at position \<open>last_ptr pre\<close>, replaces the nodes \<open>m\<close> behind it, which it has locked, by
  \<open>m'\<close>, and what is pending at its position changes accordingly. To the other threads nothing
  has happened.
\<close>

lemma window_other:
  assumes inv: "hoh_inv c as" and mv: "moves t k c c'"
    and as: "as = pre @ m @ suf" "as' = pre @ m' @ suf" and dist: "distinct as" "distinct as'"
    and own: "last_ptr pre \<in> holds (cn_pc c t)" "Node ` set m \<subseteq> holds (cn_pc c t)"
      "holds k \<union> holds (cn_pc c t) \<subseteq> insert (last_ptr pre) (Node ` (set m \<union> set m'))"
    and d: "\<And>a. a \<in> set (pre @ suf) \<Longrightarrow> data_of (nodes c') a = data_of (nodes c) a"
    and eq: "pending c' (last_ptr pre) (future c' (m' @ suf)) = pending c (last_ptr pre) (future c (m @ suf))"
  shows window_all: "pending c' Head (future c' as') = pending c Head (future c as)"
    and window_future: "u \<noteq> t \<Longrightarrow> q \<in> anchors (cn_pc c u) \<Longrightarrow>
      (q = Head \<or> q \<in> Node ` set (pre @ suf)) \<and> future c' (after q as') = future c (after q as)"
    and window_next: "u \<noteq> t \<Longrightarrow> cn_pc c u = Both op q b seen \<Longrightarrow> after q as' = b # after (Node b) as'"
proof -
  note lk = inv_parts(2) [OF inv]
  have other: "pending c' q = pending c q" if "q \<notin> insert (last_ptr pre) (Node ` (set m \<union> set m'))" for q
    using that own(3) by (auto simp: moves_pending [OF lk mv])
  have front: "pending c' q = pending c q" if "q \<in> insert Head (Node ` set pre)" "q \<noteq> last_ptr pre" for q
    by (rule other) (use that dist as in auto)
  have sufp: "pending c' (Node a) = pending c (Node a)" if "a \<in> set suf" for a
    by (rule other) (use that dist as last_ptr_in [of pre] in auto)
  have win: "future c' (zs @ m' @ suf) = future c (zs @ m @ suf)" if "pre = xs @ zs" "zs \<noteq> []" for xs zs
    by (rule rest_window_front [where pre = pre and xs = xs and e = "pending c'" and e' = "pending c",
          OF _ _ _ eq that]) (use dist as front d in auto)
  show "pending c' Head (future c' as') = pending c Head (future c as)"
    unfolding as
    by (rule rest_window_all [where pre = pre and e = "pending c'" and e' = "pending c",
          OF _ _ _ eq]) (use dist as front d in auto)
  have pos: "q = Head \<or> q \<in> Node ` set (pre @ m @ suf)" "q \<noteq> last_ptr pre" "q \<notin> Node ` set m"
    if "u \<noteq> t" "q \<in> anchors (cn_pc c u)" for u q
    using that locks_anchors [OF lk that(2)] holds_disjoint [OF lk, of q t u] own(1,2) as
    by (auto simp: anchors_def)
  have aft: "after (Node a) as' = after (Node a) suf" "after (Node a) as = after (Node a) suf" if "a \<in> set suf" for a
    using that dist as after_ahead [of a "pre @ m" suf] after_ahead [of a "pre @ m'" suf] by auto
  show "(q = Head \<or> q \<in> Node ` set (pre @ suf)) \<and> future c' (after q as') = future c (after q as)"
    if "u \<noteq> t" "q \<in> anchors (cn_pc c u)" for u q
    using pos [OF that]
  proof (cases q pre m suf rule: position_cases)
    case (front xs zs)
    have "after q as' = zs @ m' @ suf" "after q as = zs @ m @ suf"
      using after_last_ptr [of xs "zs @ m' @ suf"] after_last_ptr [of xs "zs @ m @ suf"] front dist as by auto
    with win [OF front(1,2)] front last_ptr_in [of xs] show ?thesis by auto
  next
    case (behind a)
    have "future c' (after (Node a) suf) = future c (after (Node a) suf)"
      by (rule rest_cong) (use set_after [of a suf] sufp d in auto)
    with behind aft show ?thesis by simp
  qed
  show "after q as' = b # after (Node b) as'" if "u \<noteq> t" "cn_pc c u = Both op q b seen" for u q b op seen
  proof -
    from that(2) locks_placed [OF lk, of u] have nx: "after q as = b # after (Node b) as" by simp
    from that(2) have anc: "q \<in> anchors (cn_pc c u)" "Node b \<in> anchors (cn_pc c u)"
      by (simp_all add: anchors_def)
    from pos [OF that(1) anc(1)] show ?thesis
    proof (cases q pre m suf rule: position_cases)
      case (front xs zs)
      then obtain z zs' where zs: "zs = z # zs'" by (cases zs) auto
      have "after q as' = z # zs' @ m' @ suf" "after q as = z # zs' @ m @ suf"
        using after_last_ptr [of xs "zs @ m' @ suf"] after_last_ptr [of xs "zs @ m @ suf"] front dist as zs by auto
      moreover have "after (Node z) as' = zs' @ m' @ suf"
        using after_last_ptr [of "xs @ [z]" "zs' @ m' @ suf"] front dist as zs by auto
      ultimately show ?thesis using nx by simp
    next
      case (behind a)
      with aft nx have "after (Node a) suf = b # after (Node b) as" by simp
      moreover from this have "b \<in> set suf" using set_after [of a suf] by (metis list.set_intros(1) subsetD)
      ultimately show ?thesis using behind aft by simp
    qed
  qed
qed

lemma well_placed_chain:
  assumes "well_placed as k" and "\<And>op cur b seen. k = Both op cur b seen \<Longrightarrow> after cur as' = b # after (Node b) as'"
  shows "well_placed as' k"
  using assms by (cases k) auto

lemma window_step:
  assumes inv: "hoh_inv c as" and mv: "moves t k c c'" and shape: "shape c' as'"
    and as: "as = pre @ m @ suf" "as' = pre @ m' @ suf"
    and own: "last_ptr pre \<in> holds (cn_pc c t)" "Node ` set m \<subseteq> holds (cn_pc c t)"
      "holds k \<union> holds (cn_pc c t) \<subseteq> insert (last_ptr pre) (Node ` (set m \<union> set m'))"
    and d: "\<And>a. a \<in> set (pre @ suf) \<Longrightarrow> data_of (nodes c') a = data_of (nodes c) a"
    and eq: "pending c' (last_ptr pre) (future c' (m' @ suf)) = pending c (last_ptr pre) (future c (m @ suf))"
    and hist: "cn_log c' = cn_log c" "cn_hist c' = cn_hist c"
    and k: "anchors k \<subseteq> insert Head (Node ` set as')" "well_placed as' k"
    and pr: "promise (data_of (nodes c')) (\<lambda>q. future c' (after q as')) k =
      promise (data_of (nodes c)) (\<lambda>q. future c (after q as)) (cn_pc c t)"
  shows "hoh_inv c' as'"
proof -
  note lk = inv_parts(2) [OF inv]
  have dist: "distinct as" "distinct as'"
    by (rule shape_distinct [OF inv_parts(1) [OF inv]], rule shape_distinct [OF shape])
  note other = window_other [OF inv mv as dist own d eq]
  have "locks_ok c' as'"
  proof (rule moves_locks [OF lk mv k])
    fix u assume u: "u \<noteq> t"
    have "anchors (cn_pc c u) \<subseteq> insert Head (Node ` set as')"
      using other(2) [OF _ u] as by fastforce
    moreover have "well_placed as' (cn_pc c u)"
      by (rule well_placed_chain [OF locks_placed [OF lk]]) (rule other(3) [OF _ u])
    ultimately show "anchors (cn_pc c u) \<subseteq> insert Head (Node ` set as') \<and> well_placed as' (cn_pc c u)" ..
  qed
  moreover have "spec_ok c' as'"
  proof (rule spec_step [OF inv_parts(3) [OF inv] mv hist(1), of "[]"])
    show "promise (data_of (nodes c')) (\<lambda>q. future c' (after q as')) (cn_pc c u) =
        promise (data_of (nodes c)) (\<lambda>q. future c (after q as)) (cn_pc c u)" if u: "u \<noteq> t" for u
      by (rule promise_cong) (use other(2) [OF _ u] d in force)+
  qed (use hist pr other(1) in simp_all)
  ultimately show ?thesis using shape by (simp add: hoh_inv_def)
qed

subsection \<open>The remaining steps\<close>

lemma next_cases:
  assumes "shape c as" and "cur = Head \<or> cur \<in> Node ` set as"
  obtains (last) "read_next (cn_list c) cur = Ret None" and "after cur as = []"
    | (more) b where "read_next (cn_list c) cur = Ret (Some b)" and "after cur as = b # after (Node b) as"
      and "b \<in> set as" and "cur \<noteq> Node b"
proof -
  from assms(2) obtain pre suf where as: "as = pre @ suf" and cur: "last_ptr pre = cur" by (rule split_at)
  note dist = shape_distinct [OF assms(1), unfolded as]
  from shape_path [OF assms(1)] obtain p where rd: "read_next (cn_list c) cur = Ret p"
    and path: "path (nodes c) p suf None"
    using read_next_rep [of "cn_list c" pre suf] by (auto simp: as cur)
  from after_last_ptr [OF dist] have aft: "after cur as = suf" by (simp add: as cur)
  show thesis
  proof (cases suf)
    case Nil
    with rd path aft show thesis by (intro last) simp_all
  next
    case (Cons b bs)
    from after_last_ptr [of "pre @ [b]" bs] dist Cons have "after (Node b) as = bs" by (simp add: as)
    moreover have "cur \<noteq> Node b" using dist Cons cur last_ptr_in [of pre] by auto
    ultimately show thesis using rd path aft Cons as by (intro more [of b]) simp_all
  qed
qed

lemma step_at_inv:
  assumes inv: "hoh_inv c as" and pc: "cn_pc c t = At op cur seen" and adv: "advance t c = Some c'"
  shows "hoh_inv c' as"
proof -
  note lk = inv_parts(2) [OF inv] and sh = inv_parts(1) [OF inv]
  from locks_anchors [OF lk, of cur t] pc have cur: "cur = Head \<or> cur \<in> Node ` set as"
    by (simp add: anchors_def)
  from sh cur show ?thesis
  proof (cases rule: next_cases)
    case last
    let ?k = "Leaving cur (at_end op seen)"
    from adv pc last have c': "c' = goto t ?k c" by (simp add: step_defs)
    have mv: "moves t ?k c c'" unfolding c' by (rule moves_goto [OF lk]) (simp_all add: pc)
    from cur obtain pre suf where as: "as = pre @ suf" and lp: "last_ptr pre = cur" by (rule split_at)
    with last after_last_ptr [of pre suf] shape_distinct [OF sh] have suf: "suf = []" by simp
    have pend: "pending c' cur [] = pending c cur []"
      using moves_pending [OF lk mv, of cur] pending_held [OF lk, of cur t] pc
      by (cases op) simp_all
    show ?thesis
    proof (rule window_step [OF inv mv _ _ _, of as pre "[]" "[]" "[]"])
      show "shape c' as" by (rule shape_same [OF sh, of _ t ?k]) (simp_all add: c' pc)
      show "pending c' (last_ptr pre) (future c' ([] @ [])) = pending c (last_ptr pre) (future c ([] @ []))"
        by (simp add: lp pend)
      show "promise (data_of (nodes c')) (\<lambda>q. future c' (after q as)) ?k =
          promise (data_of (nodes c)) (\<lambda>q. future c (after q as)) (cn_pc c t)"
        by (cases op) (simp_all add: pc last at_end_def outcome_of_def)
    qed (use cur in \<open>simp_all add: as suf lp c' pc anchors_def\<close>)
  next
    case (more b)
    let ?k = "Both op cur b seen"
    have "alive (Node b) (cn_list c)" by (rule anchor_alive [OF sh]) (simp add: more)
    with adv pc more have free: "cn_lock c (Node b) = None"
      and c': "c' = goto t ?k (c\<lparr>cn_lock := (cn_lock c)(Node b := Some t)\<rparr>)"
      by (simp_all add: step_defs split: if_splits)
    have "moves t ?k c c'"
      unfolding c' by (rule moves_acquire [OF lk free]) (auto simp: pc)
    from quiet_heap [OF inv this, of "[]"] more cur locks_placed [OF lk, of t] show ?thesis
      by (cases op) (simp_all add: c' pc anchors_def)
  qed
qed

lemma both_facts:
  assumes "hoh_inv c as" and "cn_pc c t = Both op cur b seen"
  obtains pre suf where "as = pre @ b # suf" and "last_ptr pre = cur" and "after cur as = b # suf"
    and "after (Node b) as = suf" and "cur = Head \<or> cur \<in> Node ` set as" and "cur \<noteq> Node b"
    and "pending c (Node b) = (\<lambda>xs. xs)"
    and "pending c cur = effect (cn_pc c t) cur"
proof -
  note lk = inv_parts(2) [OF assms(1)] and sh = inv_parts(1) [OF assms(1)]
  from locks_placed [OF lk, of t] assms(2) have aft: "after cur as = b # after (Node b) as" by simp
  from locks_anchors [OF lk, of cur t] assms(2) have cur: "cur = Head \<or> cur \<in> Node ` set as"
    by (simp add: anchors_def)
  then obtain pre suf where as: "as = pre @ suf" and lp: "last_ptr pre = cur" by (rule split_at)
  from after_last_ptr [of pre suf] shape_distinct [OF sh] as lp aft
  have suf: "suf = b # after (Node b) as" by simp
  have ne: "cur \<noteq> Node b"
    using last_ptr_in [of pre] lp shape_distinct [OF sh] as suf by (metis disjoint_iff distinct_append image_iff insertE list.set_intros(1) nptr.distinct(1) nptr.inject)
  have "effect (cn_pc c t) (Node b) = (\<lambda>xs. xs)" using ne assms(2) by (cases op) auto
  then have "pending c (Node b) = (\<lambda>xs. xs)"
    using pending_held [OF lk, of "Node b" t] assms(2) by simp
  moreover have "pending c cur = effect (cn_pc c t) cur"
    using pending_held [OF lk, of cur t] assms(2) by simp
  ultimately show thesis
    using as suf lp aft cur ne that by metis
qed

lemma step_both_read:
  assumes inv: "hoh_inv c as" and pc: "cn_pc c t = Both op cur b seen"
    and op: "op = Visit_all \<or> (\<exists>P. op = Find P)" and adv: "advance t c = Some c'"
  shows "hoh_inv c' as"
proof -
  note lk = inv_parts(2) [OF inv] and sh = inv_parts(1) [OF inv]
  let ?k = "Visiting op b seen"
  from inv pc obtain pre suf where as: "as = pre @ b # suf" and aft: "after cur as = b # suf"
    "after (Node b) as = suf" and cur: "cur = Head \<or> cur \<in> Node ` set as" and ne: "cur \<noteq> Node b"
    and pend: "pending c (Node b) = (\<lambda>xs. xs)"
    by (rule both_facts)
  from anchor_alive [OF sh cur] adv pc op
  have c': "c' = goto t ?k (c\<lparr>cn_lock := (cn_lock c)(cur := None)\<rparr>)" by (auto simp: step_defs)
  have "moves t ?k c c'"
    unfolding c' by (rule moves_release [OF lk]) (use ne in \<open>auto simp: pc\<close>)
  moreover have "b \<in> set as" by (simp add: as)
  ultimately show ?thesis
    using quiet_heap [OF inv, of t ?k c' "[]"] op by (auto simp: c' pc anchors_def aft pend)
qed

lemma step_both_miss:
  assumes inv: "hoh_inv c as" and pc: "cn_pc c t = Both (Remove P) cur b seen"
    and miss: "\<not> P (data_of (nodes c) b)" and adv: "advance t c = Some c'"
  shows "hoh_inv c' as"
proof -
  note lk = inv_parts(2) [OF inv] and sh = inv_parts(1) [OF inv]
  let ?k = "At (Remove P) (Node b) seen"
  from inv pc obtain pre suf where as: "as = pre @ b # suf" and lp: "last_ptr pre = cur"
    and aft: "after cur as = b # suf" "after (Node b) as = suf"
    and cur: "cur = Head \<or> cur \<in> Node ` set as" and ne: "cur \<noteq> Node b"
    and pend: "pending c (Node b) = (\<lambda>xs. xs)" "pending c cur = effect (cn_pc c t) cur"
    by (rule both_facts)
  from shape_dom [OF sh] as obtain nd where nd: "nodes c b = Some nd" by (auto simp: dom_def)
  from nd miss anchor_alive [OF sh cur] adv pc
  have c': "c' = goto t ?k (c\<lparr>cn_lock := (cn_lock c)(cur := None)\<rparr>)" by (simp add: step_defs)
  have mv: "moves t ?k c c'"
    unfolding c' by (rule moves_release [OF lk]) (use ne in \<open>auto simp: pc\<close>)
  have d: "nodes c' = nodes c" by (simp add: c')
  have suf: "rest (pending c') (data_of (nodes c)) suf = future c suf"
    by (rule rest_cong) (use shape_distinct [OF sh] as lp last_ptr_in [of pre] in
      \<open>auto simp: moves_pending [OF lk mv] pc d\<close>)
  have pb: "pending c' (Node b) = remove_first P" "pending c' cur = (\<lambda>xs. xs)"
    using ne by (simp_all add: moves_pending [OF lk mv] pc fun_eq_iff)
  show ?thesis
  proof (rule window_step [OF inv mv _ _ _, of as pre "[b]" suf "[b]"])
    show "shape c' as" by (rule shape_same [OF sh, of _ t ?k]) (simp_all add: c' pc)
    show "pending c' (last_ptr pre) (future c' ([b] @ suf)) = pending c (last_ptr pre) (future c ([b] @ suf))"
      using miss by (simp add: lp pb pend pc suf d)
    show "promise (data_of (nodes c')) (\<lambda>q. future c' (after q as)) ?k =
        promise (data_of (nodes c)) (\<lambda>q. future c (after q as)) (cn_pc c t)"
      using miss by (simp add: pc aft suf d pend outcome_of_def)
  qed (use as lp d in \<open>auto simp: c' pc anchors_def\<close>)
qed

lemma tsl_splice_simps:
  assumes "ts_heap l a = Some old" and "cur \<noteq> Node a"
  shows "ts_head (tsl_splice cur a l) = (if cur = Head then nd_next old else ts_head l)"
    and "ts_fresh (tsl_splice cur a l) = ts_fresh l"
    and "map_option nd_data (ts_heap (tsl_splice cur a l) x) = map_option nd_data (ts_heap l x)"
    and "x \<noteq> a \<Longrightarrow> map_option nd_next (ts_heap (tsl_splice cur a l) x) =
      (if cur = Node x then map_option (\<lambda>_. nd_next old) (ts_heap l x)
       else map_option nd_next (ts_heap l x))"
  using assms
  by (auto simp: tsl_splice_def Let_def map_option_const [of _ "ts_heap _ _" nd_data] split: option.splits)

lemma splice_path:
  assumes "path (ts_heap l) (ts_head l) (pre @ b # suf) None" and "distinct (pre @ b # suf)"
  defines "l' \<equiv> tsl_splice (last_ptr pre) b l"
  shows "path (ts_heap l') (ts_head l') (pre @ suf) None" and "dom (ts_heap l') = dom (ts_heap l)"
    and "data_of (ts_heap l') = data_of (ts_heap l)" and "ts_fresh l' = ts_fresh l"
proof -
  from assms(1) obtain old where old: "ts_heap l b = Some old"
    and pre: "path (ts_heap l) (ts_head l) pre (Some b)" and suf: "path (ts_heap l) (nd_next old) suf None"
    by (auto simp: path_append)
  from assms(2) have ne: "last_ptr pre \<noteq> Node b" using last_ptr_in [of pre] by auto
  note sp = tsl_splice_simps [OF old ne, folded l'_def]
  have "path (ts_heap l') (nd_next old) suf None = path (ts_heap l) (nd_next old) suf None"
    by (rule path_cong, subst sp(4)) (use assms(2) last_ptr_in [of pre] in auto)
  with suf have suf': "path (ts_heap l') (nd_next old) suf None" by simp
  have "path (ts_heap l') (ts_head l') pre (nd_next old)"
  proof (cases pre rule: rev_cases)
    case Nil
    then show ?thesis by (simp add: sp last_ptr_def)
  next
    case (snoc xs y)
    with pre obtain ny where ny: "ts_heap l y = Some ny" "path (ts_heap l) (ts_head l) xs (Some y)"
      by (auto simp: path_append)
    have "path (ts_heap l') (ts_head l) xs (Some y) = path (ts_heap l) (ts_head l) xs (Some y)"
      by (rule path_cong, subst sp(4)) (use assms(2) snoc in auto)
    moreover have "map_option nd_next (ts_heap l' y) = Some (nd_next old)"
      using ny assms(2) snoc by (simp add: sp)
    then obtain ny' where "ts_heap l' y = Some ny'" "nd_next ny' = nd_next old"
      by (simp only: map_option_eq_Some) blast
    ultimately show ?thesis using ny snoc by (simp add: path_append sp(1))
  qed
  with suf' show "path (ts_heap l') (ts_head l') (pre @ suf) None" by (auto simp: path_append)
  show "dom (ts_heap l') = dom (ts_heap l)" by (subst (1 2) dom_nd_data) (simp add: sp)
  show "data_of (ts_heap l') = data_of (ts_heap l)"
  proof
    fix x show "data_of (ts_heap l') x = data_of (ts_heap l) x"
      using sp(3) [of x] by (cases "ts_heap l x"; cases "ts_heap l' x") (auto simp: data_of_def)
  qed
  show "ts_fresh l' = ts_fresh l" by (simp add: sp)
qed

lemma detached_upd:
  assumes "cn_pc c' = (cn_pc c)(t := k)" and "detached (cn_pc c t) = {}" and "detached k = B"
  shows "(\<Union>u. detached (cn_pc c' u)) = B \<union> (\<Union>u. detached (cn_pc c u))"
proof (rule set_eqI)
  fix x
  have "x \<in> detached (cn_pc c' u) \<longleftrightarrow> (if u = t then x \<in> B else x \<in> detached (cn_pc c u))" for u
    using assms by simp
  with assms(2) show "x \<in> (\<Union>u. detached (cn_pc c' u)) \<longleftrightarrow> x \<in> B \<union> (\<Union>u. detached (cn_pc c u))"
    by (auto split: if_splits) (metis empty_iff)
qed

lemma step_both_hit:
  assumes inv: "hoh_inv c as" and pc: "cn_pc c t = Both (Remove P) cur b seen"
    and hit: "P (data_of (nodes c) b)" and adv: "advance t c = Some c'"
  shows "\<exists>as'. hoh_inv c' as' \<and> length as = Suc (length as')"
proof -
  note lk = inv_parts(2) [OF inv] and sh = inv_parts(1) [OF inv]
  let ?k = "Cut cur b :: 'a pc"
  from inv pc obtain pre suf where as: "as = pre @ b # suf" and lp: "last_ptr pre = cur"
    and aft: "after cur as = b # suf" "after (Node b) as = suf"
    and cur: "cur = Head \<or> cur \<in> Node ` set as" and ne: "cur \<noteq> Node b"
    and pend: "pending c (Node b) = (\<lambda>xs. xs)" "pending c cur = effect (cn_pc c t) cur"
    by (rule both_facts)
  from shape_dom [OF sh] as obtain nd where nd: "nodes c b = Some nd" by (auto simp: dom_def)
  from nd hit adv pc
  have c': "c' = goto t ?k (c\<lparr>cn_list := tsl_splice cur b (cn_list c)\<rparr>)" by (simp add: step_defs)
  have mv: "moves t ?k c c'"
    unfolding c' by (rule moves_goto [OF lk]) (simp_all add: pc)
  note dist = shape_distinct [OF sh, unfolded as]
  note sp = splice_path [OF shape_path [OF sh, unfolded as] dist, unfolded lp]
  have heap: "cn_list c' = tsl_splice cur b (cn_list c)" and pcs: "cn_pc c' = (cn_pc c)(t := ?k)"
    by (simp_all add: c')
  have b_own: "b \<notin> detached (cn_pc c u)" for u
    using shape_detached [OF sh, of u] as by auto
  have shape: "shape c' (pre @ suf)"
  proof (rule shapeI)
    show "path (nodes c') (ts_head (cn_list c')) (pre @ suf) None" unfolding heap by (rule sp(1))
    show "distinct (pre @ suf)" using dist by simp
    have "(\<Union>u. detached (cn_pc c' u)) = {b} \<union> (\<Union>u. detached (cn_pc c u))"
      by (rule detached_upd [OF pcs]) (simp_all add: pc)
    then show "dom (nodes c') = set (pre @ suf) \<union> (\<Union>u. detached (cn_pc c' u))"
      using shape_dom [OF sh] by (simp add: heap sp(2) as)
    show "dom (nodes c') \<subseteq> {..<ts_fresh (cn_list c')}"
      using shape_fresh [OF sh] by (simp add: heap sp(2,4))
    show "detached (cn_pc c' u) \<inter> set (pre @ suf) = {}" for u
      using shape_detached [OF sh, of u] dist as by (auto simp: pcs)
    show "detached (cn_pc c' u) \<inter> detached (cn_pc c' v) = {}" if "u \<noteq> v" for u v
      using shape_disjoint [OF sh that] that b_own [of u] b_own [of v] by (auto simp: pcs)
  qed
  have d: "data_of (nodes c') = data_of (nodes c)" by (simp add: heap sp(3))
  have suf: "rest (pending c') (data_of (nodes c)) suf = future c suf"
    by (rule rest_cong) (use dist lp last_ptr_in [of pre] in \<open>auto simp: moves_pending [OF lk mv] pc\<close>)
  have pcur: "pending c' cur = (\<lambda>xs. xs)"
    by (simp add: moves_pending [OF lk mv] pc fun_eq_iff)
  have "hoh_inv c' (pre @ suf)"
  proof (rule window_step [OF inv mv shape, of pre "[b]" suf "[]"])
    show "pending c' (last_ptr pre) (future c' ([] @ suf)) = pending c (last_ptr pre) (future c ([b] @ suf))"
      using hit by (simp add: lp pcur pend pc suf d)
    show "promise (data_of (nodes c')) (\<lambda>q. future c' (after q (pre @ suf))) ?k =
        promise (data_of (nodes c)) (\<lambda>q. future c (after q as)) (cn_pc c t)"
      using hit by (simp add: pc aft pend outcome_of_def)
    show "anchors ?k \<subseteq> insert Head (Node ` set (pre @ suf))"
      using lp last_ptr_in [of pre] ne by (auto simp: anchors_def)
  qed (use as lp d ne in \<open>auto simp: c' pc\<close>)
  then show ?thesis by (auto simp: as)
qed

lemma step_visit_inv:
  assumes inv: "hoh_inv c as" and pc: "cn_pc c t = Visiting op b seen" and adv: "advance t c = Some c'"
  shows "hoh_inv c' as"
proof -
  note lk = inv_parts(2) [OF inv] and sh = inv_parts(1) [OF inv]
  from locks_anchors [OF lk, of "Node b" t] pc have b: "b \<in> set as" by (auto simp: anchors_def)
  with shape_dom [OF sh] obtain nd where nd: "nodes c b = Some nd" by (auto simp: dom_def)
  define k where "k = (case op of
      Find P \<Rightarrow> if P (nd_data nd) then Leaving (Node b) (Found (Some (nd_data nd))) else At op (Node b) seen
    | _ \<Rightarrow> At op (Node b) (seen @ [nd_data nd]))"
  from locks_placed [OF lk, of t] pc have op: "op = Visit_all \<or> (\<exists>P. op = Find P)" by simp
  have c': "c' = goto t k c" using adv pc nd op by (auto simp: step_defs k_def)
  have "moves t k c c'"
    unfolding c' by (rule moves_goto [OF lk]) (use op in \<open>auto simp: pc k_def split: if_splits\<close>)
  from quiet_heap [OF inv this, of "[]"] op nd b show ?thesis
    by (auto simp: c' pc k_def anchors_def outcome_of_def)
qed

lemma step_called:
  assumes inv: "hoh_inv c as" and pc: "cn_pc c t = Called op" and adv: "advance t c = Some c'"
  shows "hoh_inv c' as"
proof -
  note lk = inv_parts(2) [OF inv] and sh = inv_parts(1) [OF inv]
  let ?k = "entry_pc op" and ?c1 = "c\<lparr>cn_log := cn_log c @ [(t, op)]\<rparr>"
  from adv pc have free: "cn_lock c Head = None"
    and c': "c' = goto t ?k (?c1\<lparr>cn_lock := (cn_lock ?c1)(Head := Some t)\<rparr>)"
    by (simp_all add: step_defs alive_def split: if_splits)
  have hk: "holds ?k = {Head}" "detached ?k = {}" by (cases op; simp add: entry_pc_def)+
  have mv: "moves t ?k c c'"
    unfolding c' by (rule moves_acquire [OF lk free]) (auto simp: pc hk)
  have "shape c' as" by (rule shape_same [OF sh, of _ t ?k]) (simp_all add: c' pc hk)
  moreover have "locks_ok c' as"
    by (rule moves_locks [OF lk mv]) (use lk in \<open>auto simp: locks_ok_def hk anchors_def entry_pc_def split: call.splits\<close>)
  moreover have "spec_ok c' as"
  proof -
    have d: "nodes c' = nodes c" and upd: "cn_log c' = cn_log c @ [(t, op)]" "cn_hist c' = cn_hist c"
        "cn_pc c' = (cn_pc c)(t := ?k)" by (simp_all add: c')
    have same: "rest (pending c') (data_of (nodes c)) bs = future c bs" for bs
      by (rule rest_cong) (simp_all add: moves_pending [OF lk mv] pc hk)
    have spec: "spec_call op xs = (outcome_of op [] xs, effect ?k Head xs)" for xs
      by (cases op) (simp_all add: spec_call_def outcome_of_def entry_pc_def)
    have head: "pending c' Head = effect ?k Head" "pending c Head xs = xs" for xs
      using free by (auto simp: moves_pending [OF lk mv] hk pending_free fun_eq_iff)
    have new: "promise (data_of (nodes c)) (\<lambda>q. future c (after q as)) ?k = [outcome_of op [] (future c as)]"
      by (cases op) (simp_all add: entry_pc_def outcome_of_def)
    from inv_parts(3) [OF inv] obtain rs where run: "spec_run [] (cn_log c) = (rs, pending c Head (future c as))"
      and rs: "of_thread u rs = of_thread u (cn_hist c) @
        promise (data_of (nodes c)) (\<lambda>q. future c (after q as)) (cn_pc c u)" for u
      by (auto simp: spec_ok_def)
    from run have "spec_run [] (cn_log c') = (rs @ [(t, outcome_of op [] (future c as))],
        pending c' Head (future c' as))"
      by (simp add: upd spec_run_snoc spec head same d)
    moreover have "of_thread u (rs @ [(t, outcome_of op [] (future c as))]) = of_thread u (cn_hist c') @
        promise (data_of (nodes c')) (\<lambda>q. future c' (after q as)) (cn_pc c' u)" for u
      using rs [of u] by (simp add: same d upd pc new)
    ultimately show ?thesis by (auto simp: spec_ok_def)
  qed
  ultimately show ?thesis by (simp add: hoh_inv_def)
qed

lemma link_unfold:
  "tsl_link v l = l\<lparr>ts_heap := (ts_heap l)(ts_fresh l \<mapsto>
       \<lparr>nd_data = v, nd_next = ts_head l, nd_prev = Some Head\<rparr>),
     ts_head := Some (ts_fresh l), ts_fresh := Suc (ts_fresh l)\<rparr>"
  by (simp add: tsl_link_def Let_def)

lemma step_linking:
  assumes inv: "hoh_inv c as" and pc: "cn_pc c t = Linking v" and adv: "advance t c = Some c'"
  shows "\<exists>as'. hoh_inv c' as' \<and> length as' = Suc (length as)"
proof -
  note lk = inv_parts(2) [OF inv] and sh = inv_parts(1) [OF inv]
  let ?a = "ts_fresh (cn_list c)"
  from adv pc have c': "c' = goto t Linked (c\<lparr>cn_list := tsl_link v (cn_list c)\<rparr>)"
    by (simp add: advance_def)
  have mv: "moves t Linked c c'"
    unfolding c' by (rule moves_goto [OF lk]) (simp_all add: pc)
  have heap: "nodes c' = (nodes c)(?a \<mapsto>
       \<lparr>nd_data = v, nd_next = ts_head (cn_list c), nd_prev = Some Head\<rparr>)"
    "ts_head (cn_list c') = Some ?a" "ts_fresh (cn_list c') = Suc ?a"
    and pcs: "cn_pc c' = (cn_pc c)(t := Linked)" by (simp_all add: c' link_unfold)
  from shape_fresh [OF sh] have "?a \<notin> dom (nodes c)" by auto
  then have fresh: "?a \<notin> set as" "?a \<notin> detached (cn_pc c u)" for u
    using shape_dom [OF sh] by auto
  have det: "detached (cn_pc c' u) = detached (cn_pc c u)" for u by (simp add: pcs pc)
  have shape: "shape c' (?a # as)"
  proof (rule shapeI)
    have "path (nodes c') p as None = path (nodes c) p as None" for p
      by (rule path_cong) (use fresh in \<open>auto simp: heap\<close>)
    with shape_path [OF sh] show "path (nodes c') (ts_head (cn_list c')) (?a # as) None"
      by (simp add: heap)
    show "distinct (?a # as)" using shape_distinct [OF sh] fresh by simp
    show "dom (nodes c') = set (?a # as) \<union> (\<Union>u. detached (cn_pc c' u))"
      unfolding det using shape_dom [OF sh] by (simp add: heap)
    show "dom (nodes c') \<subseteq> {..<ts_fresh (cn_list c')}"
      using shape_fresh [OF sh] by (auto simp: heap)
    show "detached (cn_pc c' u) \<inter> set (?a # as) = {}" for u
      using shape_detached [OF sh, of u] fresh by (simp add: det)
    show "detached (cn_pc c' u) \<inter> detached (cn_pc c' w) = {}" if "u \<noteq> w" for u w
      using shape_disjoint [OF sh that] by (simp add: det)
  qed
  have d: "data_of (nodes c') a = data_of (nodes c) a" if "a \<in> set as" for a
    using that fresh by (auto simp: heap data_of_def)
  have suf: "future c' as = future c as"
    by (rule rest_cong) (simp_all add: moves_pending [OF lk mv] pc d)
  have "Node ?a \<notin> holds (cn_pc c u)" for u
    using locks_anchors [OF lk, of "Node ?a" u] fresh(1) fresh(2) [of u] by (auto simp: anchors_def)
  then have "cn_lock c (Node ?a) = None"
    using lk by (cases "cn_lock c (Node ?a)") (auto simp: locks_ok_def)
  then have pa: "pending c' (Node ?a) = (\<lambda>xs. xs)"
    by (simp add: moves_pending [OF lk mv] pc pending_free)
  have ph: "pending c' Head = (\<lambda>xs. xs)" "pending c Head = (#) v"
    using pending_held [OF lk, of Head t] by (simp_all add: moves_pending [OF lk mv] pc fun_eq_iff)
  have "hoh_inv c' (?a # as)"
  proof (rule window_step [OF inv mv shape, of "[]" "[]" as "[?a]"])
    have "data_of (nodes c') ?a = v" by (simp add: heap)
    with suf show "pending c' (last_ptr []) (future c' ([?a] @ as)) = pending c (last_ptr []) (future c ([] @ as))"
      by (simp add: last_ptr_def ph pa)
    show "cn_log c' = cn_log c" "cn_hist c' = cn_hist c" by (simp_all add: c')
  qed (use d in \<open>simp_all add: last_ptr_def pc anchors_def\<close>)
  then show ?thesis by auto
qed

text \<open>\<open>size_\<close> lags behind the list while a thread is between its two writes.\<close>

fun lag :: "'a pc \<Rightarrow> u64" where
  "lag Linked = - 1"
| "lag (Cut cur b) = 1"
| "lag (Cut_open cur b) = 1"
| "lag _ = 0"

text \<open>How much longer the list gets by a step that ends in \<open>k\<close>.\<close>

fun growth :: "'a pc \<Rightarrow> u64" where
  "growth Linked = 1"
| "growth (Cut cur b) = - 1"
| "growth _ = 0"

lemma size_step:
  assumes "advance t c = Some c'" and "cn_pc c' t \<noteq> Crashed"
  shows "ts_size (cn_list c') + lag (cn_pc c t) = ts_size (cn_list c) + growth (cn_pc c' t) + lag (cn_pc c' t)"
proof -
  have link: "ts_size (tsl_link v l) = ts_size l" for v and l :: "'a tslist"
    by (simp add: link_unfold)
  have splice: "ts_size (tsl_splice cur b l) = ts_size l" for cur b and l :: "'a tslist"
    by (simp add: tsl_splice_def Let_def split: option.splits)
  show ?thesis
    using assms
    by (auto simp: step_defs link splice entry_pc_def tsl_free_def split: pc.splits call.splits option.splits
        outcome.splits if_splits)
qed

theorem advance_inv:
  assumes inv: "hoh_inv c as" and adv: "advance t c = Some c'"
  shows "\<exists>as'. hoh_inv c' as' \<and> of_nat (length as') = of_nat (length as) + growth (cn_pc c' t)"
proof -
  have stay: ?thesis if "hoh_inv c' as" "growth (cn_pc c' t) = 0"
    using that by auto
  have pc': "cn_pc c' t \<noteq> Crashed" if "hoh_inv c' bs" for bs
    using locks_placed [OF inv_parts(2) [OF that], of t] by auto
  show ?thesis
  proof (cases "cn_pc c t")
    case (Both op cur b seen)
    with locks_placed [OF inv_parts(2) [OF inv], of t]
    consider (hit) P where "op = Remove P" "P (data_of (nodes c) b)"
      | (miss) P where "op = Remove P" "\<not> P (data_of (nodes c) b)"
      | (read) "op = Visit_all \<or> (\<exists>P. op = Find P)" by (cases op) auto
    then show ?thesis
    proof cases
      case hit
      from step_both_hit [where P = P, OF inv _ hit(2) adv] Both hit obtain as'
        where as': "hoh_inv c' as'" "length as = Suc (length as')" by auto
      moreover have "growth (cn_pc c' t) = - 1"
        using adv Both hit pc' [OF as'(1)] by (auto simp: step_defs split: option.splits)
      ultimately show ?thesis by auto
    next
      case miss
      with Both step_both_miss [where P = P, OF inv _ miss(2) adv] show ?thesis
        by (intro stay) (use adv in \<open>auto simp: step_defs split: option.splits if_splits\<close>)
    next
      case read
      with Both step_both_read [OF inv _ read adv] show ?thesis
        by (intro stay) (use adv in \<open>auto simp: step_defs split: if_splits\<close>)
    qed
  next
    case (Linking v)
    with step_linking [OF inv _ adv] obtain as' where "hoh_inv c' as'" "length as' = Suc (length as)"
      by auto
    moreover have "growth (cn_pc c' t) = 1" using adv Linking by (auto simp: step_defs)
    ultimately show ?thesis by auto
  next
    case (Called op)
    with step_called [OF inv _ adv] show ?thesis
      by (intro stay) (use adv in \<open>auto simp: step_defs entry_pc_def split: if_splits call.splits\<close>)
  next
    case (At op cur seen)
    with step_at_inv [OF inv _ adv] show ?thesis
      by (intro stay) (use adv in \<open>auto simp: step_defs split: if_splits outcome.splits option.splits\<close>)
  next
    case (Visiting op b seen)
    with step_visit_inv [OF inv _ adv] show ?thesis
      by (intro stay) (use adv in \<open>auto simp: step_defs split: if_splits call.splits option.splits\<close>)
  next
    case (Cut cur b)
    with step_cut [OF inv _ adv] show ?thesis
      by (intro stay) (use adv in \<open>auto simp: step_defs split: if_splits\<close>)
  next
    case (Cut_open cur b)
    with step_cut_open [OF inv _ adv] show ?thesis by (intro stay) (use adv in \<open>auto simp: step_defs\<close>)
  next
    case (Counted cur b)
    with step_counted [OF inv _ adv] show ?thesis
      by (intro stay) (use adv in \<open>auto simp: step_defs split: if_splits\<close>)
  next
    case (Leaving p r)
    with step_leaving [OF inv _ adv] show ?thesis
      by (intro stay) (use adv in \<open>auto simp: step_defs split: if_splits\<close>)
  next
    case Linked
    with step_linked [OF inv _ adv] show ?thesis by (intro stay) (use adv in \<open>auto simp: step_defs\<close>)
  qed (use adv in \<open>simp_all add: advance_def\<close>)
qed

lemma call_inv:
  assumes inv: "hoh_inv c as" and pc: "cn_pc c t = Idle"
  shows "hoh_inv (goto t (Called op) c) as"
proof -
  have "moves t (Called op) c (goto t (Called op) c)"
    by (rule moves_goto [OF inv_parts(2) [OF inv]]) (simp_all add: pc)
  from quiet_heap [OF inv this, of "[]"] show ?thesis by (simp add: pc anchors_def)
qed

section \<open>Reachable states\<close>

text \<open>\<open>ts\<close> contains the threads that have called something.\<close>

definition hoh_size :: "'a conc \<Rightarrow> nat list \<Rightarrow> nat set \<Rightarrow> bool" where
  "hoh_size c as ts \<longleftrightarrow> finite ts \<and> (\<forall>t. t \<notin> ts \<longrightarrow> cn_pc c t = Idle) \<and>
     ts_size (cn_list c) = of_nat (length as) + (\<Sum>t \<in> ts. lag (cn_pc c t))"

lemma sum_update:
  fixes f g :: "'i \<Rightarrow> u64"
  assumes "finite ts" and "t \<in> ts" and "\<And>u. u \<noteq> t \<Longrightarrow> g u = f u"
  shows "(\<Sum>u \<in> ts. g u) + f t = (\<Sum>u \<in> ts. f u) + g t"
proof -
  have "(\<Sum>u \<in> ts - {t}. g u) = (\<Sum>u \<in> ts - {t}. f u)"
    by (rule sum.cong) (use assms(3) in auto)
  then show ?thesis by (simp add: sum.remove [OF assms(1,2)])
qed

lemma advance_others: "advance t c = Some c' \<Longrightarrow> u \<noteq> t \<Longrightarrow> cn_pc c' u = cn_pc c u"
  by (auto simp: step_defs split: pc.splits call.splits option.splits outcome.splits if_splits)

lemma size_arith:
  fixes n n' s s' l l' g z z' :: u64
  assumes "s' + l = s + l'" and "z = n + s" and "z' + l = z + g + l'" and "n' = n + g"
  shows "z' = n' + s'"
proof -
  have "z' + l = (n + g) + (s + l')" unfolding assms(3) assms(2) by (simp add: ac_simps)
  also have "\<dots> = (n' + s') + l" using assms(1) [symmetric] by (simp add: assms(4) ac_simps)
  finally show ?thesis by simp
qed

lemma advance_size:
  assumes inv: "hoh_inv c as" and sz: "hoh_size c as ts" and adv: "advance t c = Some c'"
    and inv': "hoh_inv c' as'" "of_nat (length as') = of_nat (length as) + growth (cn_pc c' t)"
  shows "hoh_size c' as' ts"
proof -
  from adv have "cn_pc c t \<noteq> Idle" by (auto simp: advance_def)
  with sz have t: "t \<in> ts" and fin: "finite ts" by (auto simp: hoh_size_def)
  have "cn_pc c' t \<noteq> Crashed"
    using locks_placed [OF inv_parts(2) [OF inv'(1)], of t] by auto
  note step = size_step [OF adv this]
  have "(\<Sum>u \<in> ts. lag (cn_pc c' u)) + lag (cn_pc c t) = (\<Sum>u \<in> ts. lag (cn_pc c u)) + lag (cn_pc c' t)"
    by (rule sum_update [OF fin t]) (simp add: advance_others [OF adv])
  moreover from sz have "ts_size (cn_list c) = of_nat (length as) + (\<Sum>u \<in> ts. lag (cn_pc c u))"
    by (simp add: hoh_size_def)
  ultimately have "ts_size (cn_list c') = of_nat (length as') + (\<Sum>u \<in> ts. lag (cn_pc c' u))"
    using step inv'(2) by (rule size_arith)
  with sz t advance_others [OF adv] show ?thesis
    by (auto simp: hoh_size_def) metis
qed

theorem reach_inv: "hoh_reach c \<Longrightarrow> \<exists>as ts. hoh_inv c as \<and> hoh_size c as ts"
proof (induction rule: hoh_reach.induct)
  case start
  have "hoh_size conc_init [] {}" by (simp add: hoh_size_def conc_init_def tsl_new_def)
  with hoh_init show ?case by blast
next
  case (call c t op)
  then obtain as ts where inv: "hoh_inv c as" and sz: "hoh_size c as ts" by blast
  have "(\<Sum>u \<in> insert t ts. lag (cn_pc (goto t (Called op) c) u)) = (\<Sum>u \<in> ts. lag (cn_pc c u))"
  proof (rule sum.mono_neutral_cong_right)
    show "finite (insert t ts)" using sz by (simp add: hoh_size_def)
  qed (use call.hyps sz in \<open>auto simp: hoh_size_def\<close>)
  with sz have "hoh_size (goto t (Called op) c) as (insert t ts)" by (simp add: hoh_size_def)
  with call_inv [OF inv call.hyps(2)] show ?case by blast
next
  case (step c t c')
  then obtain as ts where inv: "hoh_inv c as" and sz: "hoh_size c as ts" by blast
  from advance_inv [OF inv step.hyps(2)] advance_size [OF inv sz step.hyps(2)] show ?case by blast
qed

section \<open>Properties\<close>

text \<open>A call is in flight from the moment it has locked the head until it returns.\<close>

fun in_flight :: "'a pc \<Rightarrow> bool" where
  "in_flight Idle \<longleftrightarrow> False"
| "in_flight (Called op) \<longleftrightarrow> False"
| "in_flight k \<longleftrightarrow> True"

lemma promise_length: "k \<noteq> Crashed \<Longrightarrow> length (promise d R k) = (if in_flight k then 1 else 0)"
  by (cases k) auto

lemma quiescent_rest:
  assumes "hoh_inv c as" and "\<And>t. \<not> in_flight (cn_pc c t)"
  shows "pending c = (\<lambda>p xs. xs)" and "cn_lock c = (\<lambda>p. None)"
    and "future c as = map (data_of (nodes c)) as" and "dom (nodes c) = set as"
proof -
  have idle: "holds (cn_pc c t) = {}" "detached (cn_pc c t) = {}" for t
    using assms(2) [of t] by (cases "cn_pc c t"; simp)+
  show free: "cn_lock c = (\<lambda>p. None)"
  proof
    fix p show "cn_lock c p = None"
      using idle inv_parts(2) [OF assms(1)] by (cases "cn_lock c p") (auto simp: locks_ok_def)
  qed
  show "pending c = (\<lambda>p xs. xs)" by (intro ext) (simp add: pending_def free)
  then show "future c as = map (data_of (nodes c)) as" by (simp add: rest_def) (induction as; simp)
  show "dom (nodes c) = set as" using shape_dom [OF inv_parts(1) [OF assms(1)]] idle by simp
qed

lemma quiescent_list:
  assumes inv: "hoh_inv c as" and sz: "hoh_size c as ts" and quiet: "\<And>t. \<not> in_flight (cn_pc c t)"
  shows "tsl_inv (cn_list c)" and "contents (cn_list c) = snd (spec_run [] (cn_log c))"
proof -
  have "lag (cn_pc c t) = 0" for t using quiet [of t] by (cases "cn_pc c t") auto
  with sz have "ts_size (cn_list c) = of_nat (length as)" by (simp add: hoh_size_def)
  with quiescent_rest(4) [OF inv quiet] shapeD [OF inv_parts(1) [OF inv]]
  have rep: "tsl_rep (cn_list c) as" by (simp add: tsl_rep_def)
  then show "tsl_inv (cn_list c)" by (rule rep_invI)
  from inv_parts(3) [OF inv] quiescent_rest [OF inv quiet]
  have "snd (spec_run [] (cn_log c)) = map (data_of (nodes c)) as" by (auto simp: spec_ok_def)
  then show "contents (cn_list c) = snd (spec_run [] (cn_log c))" by (simp add: contents_rep [OF rep])
qed

text \<open>C4: The list is linearisable. Run the calls one after the other in the order in which they
  locked the head: in every reachable state, each thread has been given, in order, exactly the
  replies of this sequential run, up to the call it has in flight; no thread has accessed freed
  memory; and when no call is in flight, the list is well-formed, its contents are those at the
  end of the sequential run, and all locks are free.\<close>

theorem hoh_linearizable:
  assumes "hoh_reach c"
  shows "\<exists>rs xs. spec_run [] (cn_log c) = (rs, xs) \<and>
    (\<forall>t. cn_pc c t \<noteq> Crashed \<and>
       (\<exists>ds. of_thread t rs = of_thread t (cn_hist c) @ ds \<and>
          length ds = (if in_flight (cn_pc c t) then 1 else 0))) \<and>
    ((\<forall>t. \<not> in_flight (cn_pc c t)) \<longrightarrow>
       tsl_inv (cn_list c) \<and> contents (cn_list c) = xs \<and> cn_lock c = (\<lambda>p. None))"
proof -
  from reach_inv [OF assms] obtain as ts where inv: "hoh_inv c as" and sz: "hoh_size c as ts" by blast
  from inv_parts(3) [OF inv] obtain rs where run: "spec_run [] (cn_log c) = (rs, pending c Head (future c as))"
    and rs: "of_thread t rs = of_thread t (cn_hist c) @
      promise (data_of (nodes c)) (\<lambda>q. future c (after q as)) (cn_pc c t)" for t
    by (auto simp: spec_ok_def)
  have crash: "cn_pc c t \<noteq> Crashed" for t
    using locks_placed [OF inv_parts(2) [OF inv], of t] by auto
  show ?thesis
  proof (intro exI conjI allI impI)
    show "spec_run [] (cn_log c) = (rs, snd (spec_run [] (cn_log c)))" by (simp add: run)
    show "cn_pc c t \<noteq> Crashed" for t by (rule crash)
    show "of_thread t rs = of_thread t (cn_hist c) @
        promise (data_of (nodes c)) (\<lambda>q. future c (after q as)) (cn_pc c t)" for t by (rule rs)
    show "length (promise (data_of (nodes c)) (\<lambda>q. future c (after q as)) (cn_pc c t)) =
        (if in_flight (cn_pc c t) then 1 else 0)" for t by (rule promise_length [OF crash])
  qed (use quiescent_list [OF inv sz] quiescent_rest(2) [OF inv] in blast)+
qed

theorem hoh_linearizable_witness:
  "\<exists>c rs. hoh_exec [Invoke 0 (Push (7 :: nat)), Go 0, Go 0, Go 0, Go 0, Invoke 1 Visit_all,
       Invoke 0 (Remove (\<lambda>n. n = 7)), Go 1, Go 1, Go 1, Go 0, Go 1, Go 1, Go 1, Go 0, Go 0, Go 0, Go 0,
       Go 0, Go 0] conc_init = Some c \<and>
     cn_hist c = [(0, Done), (1, Seen [7]), (0, Removed True)] \<and>
     spec_run [] (cn_log c) = (rs, []) \<and> contents (cn_list c) = []"
proof -
  let ?es = "[Invoke 0 (Push (7 :: nat)), Go 0, Go 0, Go 0, Go 0, Invoke 1 Visit_all,
       Invoke 0 (Remove (\<lambda>n. n = 7)), Go 1, Go 1, Go 1, Go 0, Go 1, Go 1, Go 1, Go 0, Go 0, Go 0, Go 0,
       Go 0, Go 0]"
  have "\<exists>c. hoh_exec ?es conc_init = Some c \<and> cn_hist c = [(0, Done), (1, Seen [7]), (0, Removed True)] \<and>
      (\<forall>t. cn_pc c t = Idle) \<and> cn_log c = [(0, Push 7), (1, Visit_all), (0, Remove (\<lambda>n. n = 7))]"
    by (simp add: step_defs conc_init_def alive_def tsl_new_def entry_pc_def link_unfold tsl_splice_def
      tsl_free_def tsl_count_def read_next_def set_next_def set_prev_def goto_def at_end_def)
  then obtain c where c: "hoh_exec ?es conc_init = Some c"
    "cn_hist c = [(0, Done), (1, Seen [7]), (0, Removed True)]" "\<forall>t. cn_pc c t = Idle"
    "cn_log c = [(0, Push 7), (1, Visit_all), (0, Remove (\<lambda>n. n = 7))]" by blast
  have "hoh_reach c" by (rule exec_reach [OF hoh_reach.start c(1)])
  from hoh_linearizable [OF this] c(3,4) obtain rs where "spec_run [] (cn_log c) = (rs, contents (cn_list c))"
    by auto
  moreover from this c(4) have "contents (cn_list c) = []" by (simp add: spec_call_def)
  ultimately show ?thesis using c(1,2) by metis
qed

lemma holder_progress:
  assumes inv: "hoh_inv c as" and "as = pre @ suf" and "cn_lock c (last_ptr pre) = Some t"
  shows "\<exists>u c'. advance u c = Some c'"
  using assms(2,3)
proof (induction suf arbitrary: pre t rule: length_induct)
  case (1 suf)
  note lk = inv_parts(2) [OF inv] and sh = inv_parts(1) [OF inv]
  show ?case
  proof (cases "advance t c")
    case None
    have h: "last_ptr pre \<in> holds (cn_pc c t)" using 1 lk by (simp add: locks_ok_def)
    with None locks_placed [OF lk, of t] obtain op cur seen where pc: "cn_pc c t = At op cur seen"
      by (cases "cn_pc c t") (auto simp: advance_def)
    with h have cur: "last_ptr pre = cur" by simp
    have "cur = Head \<or> cur \<in> Node ` set as"
      using locks_anchors [OF lk, of cur t] pc by (simp add: anchors_def)
    with sh show ?thesis
    proof (cases rule: next_cases)
      case last
      with None pc show ?thesis by (simp add: advance_def step_at_def)
    next
      case (more b)
      then have "alive (Node b) (cn_list c)" by (intro anchor_alive [OF sh]) simp
      with None pc more obtain u where u: "cn_lock c (Node b) = Some u"
        by (auto simp: advance_def step_at_def acquire_def split: if_splits)
      from after_last_ptr [of pre suf] shape_distinct [OF sh] 1(2) cur more(2)
      have suf: "suf = b # after (Node b) as" by simp
      have "last_ptr (pre @ [b]) = Node b" by simp
      with 1(1) [rule_format, of "after (Node b) as" "pre @ [b]" u] u suf 1(2) show ?thesis
        by (metis append.assoc append_Cons append_Nil length_Cons lessI)
    qed
  qed blast
qed

lemma some_can_step:
  assumes "hoh_reach c" and "cn_pc c t \<noteq> Idle"
  shows "\<exists>u c'. advance u c = Some c'"
proof -
  from reach_inv [OF assms(1)] obtain as where inv: "hoh_inv c as" by blast
  note lk = inv_parts(2) [OF inv] and sh = inv_parts(1) [OF inv]
  show ?thesis
  proof (cases "cn_lock c Head")
    case (Some u)
    then show ?thesis using holder_progress [OF inv, of "[]" as u] by (simp add: last_ptr_def)
  next
    case None
    show ?thesis
    proof (cases "holds (cn_pc c t) = {}")
      case True
      with assms(2) locks_placed [OF lk, of t] obtain op where "cn_pc c t = Called op"
        by (cases "cn_pc c t") auto
      with None have "advance t c \<noteq> None" by (simp add: advance_def acquire_def alive_def)
      then show ?thesis by blast
    next
      case False
      then have "anchors (cn_pc c t) \<noteq> {}"
        using locks_placed [OF lk, of t] by (cases "cn_pc c t") (auto simp: anchors_def)
      then obtain p where p: "p \<in> anchors (cn_pc c t)" by blast
      obtain pre suf where "as = pre @ suf" "last_ptr pre = p"
        using locks_anchors [OF lk p] by (rule split_at)
      moreover have "cn_lock c p = Some t" using p by (intro locks_held [OF lk]) (simp add: anchors_def)
      ultimately show ?thesis using holder_progress [OF inv] by blast
    qed
  qed
qed

text \<open>C22: No deadlock: as long as some call has not returned, some thread can take a step. (A thread
  waits only for the lock of the next node, so the thread furthest down the list never waits.)\<close>

theorem hoh_progress:
  assumes "hoh_reach c" and "cn_pc c t \<noteq> Idle"
  shows "\<exists>u c'. advance u c = Some c'"
  by (rule some_can_step [OF assms])

theorem hoh_progress_witness:
  "\<exists>c. hoh_exec [Invoke 0 (Push (7 :: nat)), Invoke 1 Visit_all, Go 0] conc_init = Some c \<and>
     advance 1 c = None \<and> (\<exists>u c'. advance u c = Some c')"
proof -
  have "\<exists>c. hoh_exec [Invoke 0 (Push (7 :: nat)), Invoke 1 Visit_all, Go 0] conc_init = Some c \<and>
     advance 1 c = None \<and> cn_pc c 1 = Called Visit_all"
    by (simp add: step_defs conc_init_def alive_def entry_pc_def)
  then obtain c where c: "hoh_exec [Invoke 0 (Push (7 :: nat)), Invoke 1 Visit_all, Go 0] conc_init = Some c"
    "advance 1 c = None" "cn_pc c 1 = Called Visit_all" by blast
  have "hoh_reach c" by (rule exec_reach [OF hoh_reach.start c(1)])
  from hoh_progress [OF this, of 1] c show ?thesis by auto
qed

end
