(* ===== verification/List_Progress.thy ===== *)
theory List_Progress
  imports List_Locking
begin

text \<open>
  Termination of the calls on a shared list (\<^verbatim>\<open>utils/threadsafe_list.h\<close>): the work that is left to
  all threads together decreases with every step, whatever the schedule, as long as nobody
  calls anything new. With \<open>hoh_progress\<close>, all calls return.
\<close>

section \<open>The work that is left\<close>

text \<open>
  \<open>work k n\<close> bounds the steps of a thread with program counter \<open>k\<close> and \<open>n\<close> nodes behind its
  position. A call that has not started yet will find at most the nodes that are there or are
  about to be pushed.
\<close>

fun work :: "'a pc \<Rightarrow> nat \<Rightarrow> nat" where
  "work Idle n = 0"
| "work (Called (Push v)) n = 4"
| "work (Called op) n = 3 * n + 4"
| "work (Linking v) n = 3"
| "work Linked n = 2"
| "work (At op cur seen) n = 3 * n + 3"
| "work (Both op cur b seen) n = 3 * n + 2"
| "work (Visiting op b seen) n = 3 * n + 4"
| "work (Cut cur b) n = 4"
| "work (Cut_open cur b) n = 3"
| "work (Counted cur b) n = 2"
| "work (Leaving p r) n = 1"
| "work Crashed n = 0"

fun pushing :: "'a pc \<Rightarrow> nat" where
  "pushing (Called (Push v)) = 1"
| "pushing (Linking v) = 1"
| "pushing _ = 0"

text \<open>The nodes a thread has still in front of it, in a list \<open>as\<close> with \<open>n\<close> pushes pending.\<close>

fun ahead :: "nat list \<Rightarrow> nat \<Rightarrow> 'a pc \<Rightarrow> nat" where
  "ahead as n (Called op) = length as + n"
| "ahead as n (At op cur seen) = length (after cur as)"
| "ahead as n (Both op cur b seen) = length (after cur as)"
| "ahead as n (Visiting op b seen) = length (after (Node b) as)"
| "ahead as n _ = 0"

definition pushes :: "'a conc \<Rightarrow> nat set \<Rightarrow> nat" where
  "pushes c ts = (\<Sum>t \<in> ts. pushing (cn_pc c t))"

definition work_left :: "'a conc \<Rightarrow> nat list \<Rightarrow> nat set \<Rightarrow> nat" where
  "work_left c as ts = (\<Sum>t \<in> ts. work (cn_pc c t) (ahead as (pushes c ts) (cn_pc c t)))"

lemma work_mono: "m \<le> n \<Longrightarrow> work k m \<le> work k n"
  by (cases "(k, m)" rule: work.cases) auto

text \<open>A finite sum decreases when one summand does and the others do not grow.\<close>

lemma sum_less_one:
  fixes f g :: "'i \<Rightarrow> nat"
  assumes "finite ts" and "t \<in> ts" and "g t < f t" and "\<And>u. u \<in> ts \<Longrightarrow> u \<noteq> t \<Longrightarrow> g u \<le> f u"
  shows "(\<Sum>u \<in> ts. g u) < (\<Sum>u \<in> ts. f u)"
proof (rule sum_strict_mono_ex1)
  show "\<forall>u \<in> ts. g u \<le> f u" using assms(3,4) by (metis less_imp_le_nat)
qed (use assms in auto)

section \<open>How the chain changes\<close>

lemma path_unique: "path h p as None \<Longrightarrow> path h p bs None \<Longrightarrow> as = bs"
proof (induction as arbitrary: p bs)
  case Nil
  then show ?case by (cases bs) auto
next
  case (Cons a as)
  then show ?case by (cases bs) auto
qed

lemma shape_unique: "shape c as \<Longrightarrow> shape c bs \<Longrightarrow> as = bs"
  by (rule path_unique [OF shape_path shape_path])

text \<open>
  A step either leaves the chain alone, or pushes a node to the front, or removes the one
  behind its position.
\<close>

lemma chain_cases:
  assumes inv: "hoh_inv c as" and adv: "advance t c = Some c'" and inv': "hoh_inv c' as'"
  obtains (same) "as' = as" and "\<And>v. cn_pc c t \<noteq> Linking v"
    | (push) v a where "as' = a # as" and "a \<notin> set as" and "cn_pc c t = Linking v" and "cn_pc c' t = Linked"
    | (cut) pre b suf op seen where "as = pre @ b # suf" and "as' = pre @ suf" and
        "cn_pc c t = Both op (last_ptr pre) b seen" and "cn_pc c' t = Cut (last_ptr pre) b"
proof -
  note sh = inv_parts(1) [OF inv] and sh' = inv_parts(1) [OF inv']
  have stay: thesis if "hoh_inv c' as" "\<And>v. cn_pc c t \<noteq> Linking v"
    using that shape_unique [OF inv_parts(1) [OF that(1)] sh'] by (intro same) simp_all
  show thesis
  proof (cases "cn_pc c t")
    case (Linking v)
    with adv have c': "c' = goto t Linked (c\<lparr>cn_list := tsl_link v (cn_list c)\<rparr>)"
      by (simp add: advance_def)
    then have hd: "ts_head (cn_list c') = Some (ts_fresh (cn_list c))" by (simp add: link_unfold)
    from shape_fresh [OF sh] shape_dom [OF sh] have fresh: "ts_fresh (cn_list c) \<notin> set as" by auto
    have "path (nodes c') p as None = path (nodes c) p as None" for p
      by (rule path_cong) (use fresh in \<open>auto simp: c' link_unfold\<close>)
    with shape_path [OF sh] have "path (nodes c') (ts_head (cn_list c')) (ts_fresh (cn_list c) # as) None"
      by (simp add: c' link_unfold)
    from path_unique [OF shape_path [OF sh'] this] fresh Linking c' show thesis
      by (intro push [of "ts_fresh (cn_list c)" v]) simp_all
  next
    case (Both op cur b seen)
    from inv Both obtain pre suf where as: "as = pre @ b # suf" and lp: "last_ptr pre = cur"
      by (rule both_facts)
    show thesis
    proof (cases "\<exists>P. op = Remove P \<and> P (data_of (nodes c) b)")
      case True
      then obtain P where P: "op = Remove P" "P (data_of (nodes c) b)" by blast
      from shape_dom [OF sh] as obtain nd where "nodes c b = Some nd" by (auto simp: dom_def)
      with P Both adv have c': "c' = goto t (Cut cur b) (c\<lparr>cn_list := tsl_splice cur b (cn_list c)\<rparr>)"
        by (simp add: step_defs)
      from splice_path(1) [OF shape_path [OF sh, unfolded as] shape_distinct [OF sh, unfolded as]]
      have "path (nodes c') (ts_head (cn_list c')) (pre @ suf) None" by (simp add: c' lp)
      from path_unique [OF shape_path [OF sh'] this] Both c' lp as show thesis
        by (intro cut [of pre b suf op seen]) simp_all
    next
      case False
      with locks_placed [OF inv_parts(2) [OF inv], of t] Both
      consider P where "op = Remove P" "\<not> P (data_of (nodes c) b)" | "op = Visit_all \<or> (\<exists>P. op = Find P)"
        by (cases op) auto
      then have "hoh_inv c' as"
      proof cases
        case (1 P)
        with Both show ?thesis by (intro step_both_miss [where P = P, OF inv _ _ adv]) simp_all
      qed (rule step_both_read [OF inv Both _ adv])
      with Both show thesis by (intro stay) simp_all
    qed
  next
    case (Called op)
    with step_called [OF inv _ adv] show thesis by (intro stay) simp_all
  next
    case (At op cur seen)
    with step_at_inv [OF inv _ adv] show thesis by (intro stay) simp_all
  next
    case (Visiting op b seen)
    with step_visit_inv [OF inv _ adv] show thesis by (intro stay) simp_all
  next
    case (Cut cur b)
    with step_cut [OF inv _ adv] show thesis by (intro stay) simp_all
  next
    case (Cut_open cur b)
    with step_cut_open [OF inv _ adv] show thesis by (intro stay) simp_all
  next
    case (Counted cur b)
    with step_counted [OF inv _ adv] show thesis by (intro stay) simp_all
  next
    case (Leaving p r)
    with step_leaving [OF inv _ adv] show thesis by (intro stay) simp_all
  next
    case Linked
    with step_linked [OF inv _ adv] show thesis by (intro stay) simp_all
  qed (use adv in \<open>simp_all add: advance_def\<close>)
qed

section \<open>Every step leaves less work\<close>

lemma after_Cons: "after (Node a) (x # xs) = (if x = a then xs else after (Node a) xs)"
  by (simp add: after.simps(2))

lemma after_removed: "q \<noteq> Node b \<Longrightarrow> length (after q (pre @ suf)) \<le> length (after q (pre @ b # suf))"
proof (cases q)
  case (Node a)
  moreover assume "q \<noteq> Node b"
  ultimately show ?thesis by (induction pre) (auto simp: after_Cons)
qed simp

lemma alive_Head [simp]: "alive Head l"
  by (simp add: alive_def)

lemma pushing_step:
  assumes "advance t c = Some c'"
  shows "pushing (cn_pc c' t) + (if \<exists>v. cn_pc c t = Linking v then 1 else 0) = pushing (cn_pc c t)"
  using assms
  by (auto simp: step_defs entry_pc_def split: pc.splits call.splits option.splits outcome.splits if_splits)

lemma pushes_step:
  assumes "finite ts" and "t \<in> ts" and adv: "advance t c = Some c'"
  shows "pushes c' ts + (if \<exists>v. cn_pc c t = Linking v then 1 else 0) = pushes c ts"
proof -
  have "(\<Sum>u \<in> ts - {t}. pushing (cn_pc c' u)) = (\<Sum>u \<in> ts - {t}. pushing (cn_pc c u))"
    by (rule sum.cong) (simp_all add: advance_others [OF adv])
  then show ?thesis
    using pushing_step [OF adv] by (simp add: pushes_def sum.remove [OF assms(1,2)])
qed

lemma own_work:
  assumes inv: "hoh_inv c as" and adv: "advance t c = Some c'" and "\<And>v. cn_pc c t \<noteq> Linking v"
  shows "work (cn_pc c' t) (ahead as n (cn_pc c' t)) < work (cn_pc c t) (ahead as n (cn_pc c t))"
  using adv locks_placed [OF inv_parts(2) [OF inv], of t]
  by (auto simp: step_defs entry_pc_def split: pc.splits call.splits option.splits outcome.splits if_splits)

lemma ahead_mono: "m \<le> n \<Longrightarrow> ahead as m k \<le> ahead as n k"
  by (cases k) auto

lemma others_ahead:
  assumes inv: "hoh_inv c as" and adv: "advance t c = Some c'" and inv': "hoh_inv c' as'" and u: "u \<noteq> t"
    and n: "n' + (if \<exists>v. cn_pc c t = Linking v then 1 else 0) = n"
  shows "ahead as' n' (cn_pc c u) \<le> ahead as n (cn_pc c u)"
  using inv adv inv'
proof (cases rule: chain_cases)
  case same
  with n show ?thesis by (auto intro: ahead_mono)
next
  case (push v a)
  note lk = inv_parts(2) [OF inv]
  have "Head \<notin> holds (cn_pc c u)" using holds_disjoint [OF lk, of Head t u] push u by auto
  moreover have "Node a \<notin> anchors (cn_pc c u)" using locks_anchors [OF lk, of "Node a" u] push by auto
  ultimately have "length (after q as') = length (after q as)" if "q \<in> anchors (cn_pc c u)" for q
    using that push by (cases q) (auto simp: anchors_def after_Cons)
  with n push show ?thesis by (cases "cn_pc c u") (auto simp: anchors_def)
next
  case (cut pre b suf op seen)
  note lk = inv_parts(2) [OF inv]
  have "Node b \<notin> holds (cn_pc c u)" using holds_disjoint [OF lk, of "Node b" t u] cut u by auto
  then have "length (after q as') \<le> length (after q as)" if "q \<in> holds (cn_pc c u)" for q
    using that after_removed [of q b pre suf] cut by auto
  with n cut show ?thesis by (cases "cn_pc c u") auto
qed

lemma own_less:
  assumes inv: "hoh_inv c as" and adv: "advance t c = Some c'" and inv': "hoh_inv c' as'"
    and n: "n' + (if \<exists>v. cn_pc c t = Linking v then 1 else 0) = n"
  shows "work (cn_pc c' t) (ahead as' n' (cn_pc c' t)) < work (cn_pc c t) (ahead as n (cn_pc c t))"
  using inv adv inv'
proof (cases rule: chain_cases)
  case same
  with own_work [OF inv adv] n show ?thesis by auto
next
  case (cut pre b suf op seen)
  with locks_placed [OF inv_parts(2) [OF inv], of t] show ?thesis by simp
qed simp

theorem work_decreases:
  assumes inv: "hoh_inv c as" and sz: "hoh_size c as ts" and adv: "advance t c = Some c'"
    and inv': "hoh_inv c' as'"
  shows "work_left c' as' ts < work_left c as ts"
proof -
  from adv have "cn_pc c t \<noteq> Idle" by (auto simp: advance_def)
  with sz have ts: "finite ts" "t \<in> ts" by (auto simp: hoh_size_def)
  note n = pushes_step [OF ts adv]
  show ?thesis
    unfolding work_left_def
  proof (rule sum_less_one [OF ts])
    show "work (cn_pc c' t) (ahead as' (pushes c' ts) (cn_pc c' t)) <
        work (cn_pc c t) (ahead as (pushes c ts) (cn_pc c t))"
      by (rule own_less [OF inv adv inv' n])
    show "work (cn_pc c' u) (ahead as' (pushes c' ts) (cn_pc c' u)) \<le>
        work (cn_pc c u) (ahead as (pushes c ts) (cn_pc c u))" if "u \<noteq> t" for u
      unfolding advance_others [OF adv that] by (rule work_mono [OF others_ahead [OF inv adv inv' that n]])
  qed
qed

lemma schedule_bounded:
  assumes "hoh_inv c as" and "hoh_size c as ts" and "hoh_exec (map Go us) c = Some c'"
  shows "length us \<le> work_left c as ts"
  using assms
proof (induction us arbitrary: c as)
  case (Cons t us)
  then obtain c1 where adv: "advance t c = Some c1" and ex: "hoh_exec (map Go us) c1 = Some c'"
    by (auto split: option.splits)
  from advance_inv [OF Cons.prems(1) adv] obtain as1 where inv1: "hoh_inv c1 as1"
    and len: "of_nat (length as1) = (of_nat (length as) :: u64) + growth (cn_pc c1 t)" by blast
  from Cons.IH [OF inv1 advance_size [OF Cons.prems(1,2) adv inv1 len] ex]
    work_decreases [OF Cons.prems(1,2) adv inv1] show ?case by simp
qed simp

section \<open>Properties\<close>

text \<open>C21: Every call returns: from every reachable state, if nothing new is called, any schedule of the
  threads comes to an end after a bounded number of steps, and it can only end when every
  thread has returned.\<close>

theorem hoh_terminates:
  assumes "hoh_reach c"
  shows "\<exists>n. \<forall>us c'. hoh_exec (map Go us) c = Some c' \<longrightarrow>
    length us \<le> n \<and> ((\<forall>t. advance t c' = None) \<longrightarrow> (\<forall>t. cn_pc c' t = Idle))"
proof -
  from reach_inv [OF assms] obtain as ts where inv: "hoh_inv c as" and sz: "hoh_size c as ts" by blast
  have "\<forall>t. cn_pc c' t = Idle" if "hoh_exec (map Go us) c = Some c'" "\<forall>t. advance t c' = None" for us c'
    using some_can_step [OF exec_reach [OF assms that(1)]] that(2) by (metis option.distinct(1))
  with schedule_bounded [OF inv sz] show ?thesis by blast
qed

theorem hoh_terminates_witness:
  "\<exists>c n. hoh_exec [Invoke 0 (Push (7 :: nat)), Invoke 1 Visit_all, Go 0] conc_init = Some c \<and>
     advance 1 c = None \<and> (\<forall>us c'. hoh_exec (map Go us) c = Some c' \<longrightarrow> length us \<le> n)"
proof -
  have "\<exists>c. hoh_exec [Invoke 0 (Push (7 :: nat)), Invoke 1 Visit_all, Go 0] conc_init = Some c \<and>
     advance 1 c = None"
    by (simp add: step_defs conc_init_def alive_def entry_pc_def)
  then obtain c where c: "hoh_exec [Invoke 0 (Push (7 :: nat)), Invoke 1 Visit_all, Go 0] conc_init = Some c"
    "advance 1 c = None" by blast
  have "hoh_reach c" by (rule exec_reach [OF hoh_reach.start c(1)])
  from hoh_terminates [OF this] obtain n where
    "\<forall>us c'. hoh_exec (map Go us) c = Some c' \<longrightarrow> length us \<le> n" by blast
  with c show ?thesis by blast
qed

end
