(* ===== verification/List_Reentry.thy ===== *)
theory List_Reentry
  imports List_Progress
begin

text \<open>
  Callbacks of \<open>for_each\<close> and predicates of \<open>find_first_if\<close> (\<^verbatim>\<open>utils/threadsafe_list.h\<close>) that call the
  list they run on. The thread \<open>t\<close> holds the mutex of the node whose element it passes to the callback; the
  nested call takes the steps of \<open>advance\<close> under the name \<open>t'\<close>, while \<open>t\<close> stands still until it returns. The
  mutexes are not recursive, so a nested call that comes to a mutex of \<open>t\<close> never gets it.
\<close>

section \<open>The nested call\<close>

inductive solo :: "nat \<Rightarrow> 'a conc \<Rightarrow> 'a conc \<Rightarrow> bool" for t where
  stop: "solo t c c"
| go: "advance t c = Some c1 \<Longrightarrow> solo t c1 c2 \<Longrightarrow> solo t c c2"

lemma solo_trans: "solo t c c1 \<Longrightarrow> solo t c1 c2 \<Longrightarrow> solo t c c2"
  by (induction rule: solo.induct) (auto intro: solo.go)

text \<open>The step is a function, so all runs that cannot go on end in the same state.\<close>

lemma solo_unique:
  assumes "solo t c d" "solo t c e" "advance t d = None" "advance t e = None"
  shows "d = e"
  using assms
proof (induction rule: solo.induct)
  case (stop c)
  from stop(1) show ?case by (cases rule: solo.cases) (use stop.prems in auto)
next
  case (go c c1 d)
  from go.prems(1) show ?case
  proof (cases rule: solo.cases)
    case (go c1')
    then show ?thesis using go.IH go.prems go.hyps(1) by auto
  qed (use go in auto)
qed

definition nested_returns :: "nat \<Rightarrow> 'a call \<Rightarrow> 'a conc \<Rightarrow> bool" where
  "nested_returns t op c \<longleftrightarrow> (\<exists>c'. solo t (goto t (Called op) c) c' \<and> cn_pc c' t = Idle)"

text \<open>The elements in front of node \<open>b\<close>.\<close>

definition in_front :: "nat \<Rightarrow> 'a tslist \<Rightarrow> 'a list" where
  "in_front b l = map (data_of (ts_heap l)) (takeWhile (\<lambda>a. a \<noteq> b) (walk (ts_fresh l) (ts_heap l) (ts_head l)))"

section \<open>The list during the callback\<close>

text \<open>Only the mutex of \<open>b\<close> is taken, by \<open>t\<close>, and no node is detached.\<close>

definition in_callback :: "nat \<Rightarrow> nat list \<Rightarrow> nat \<Rightarrow> nat list \<Rightarrow> 'a conc \<Rightarrow> bool" where
  "in_callback t pre b suf c \<longleftrightarrow> path (nodes c) (ts_head (cn_list c)) (pre @ b # suf) None \<and> distinct (pre @ b # suf) \<and>
     cn_lock c = (\<lambda>p. if p = Node b then Some t else None)"

lemma callback_list:
  assumes "hoh_reach c" "cn_pc c t = Visiting op b seen" "\<forall>u. u \<noteq> t \<longrightarrow> cn_pc c u = Idle"
  obtains pre suf where "in_callback t pre b suf c" "in_front b (cn_list c) = map (data_of (nodes c)) pre"
proof -
  from reach_inv [OF assms(1)] obtain as where inv: "hoh_inv c as" by blast
  note sh = inv_parts(1) [OF inv] and lk = inv_parts(2) [OF inv]
  have own: "cn_lock c p = Some u \<longleftrightarrow> p \<in> holds (cn_pc c u)" for p u using lk by (simp add: locks_ok_def)
  have h: "cn_lock c p = Some u \<longleftrightarrow> u = t \<and> p = Node b" for p u
    using assms(2,3) own [of p u] by (cases "u = t") auto
  have "cn_lock c = (\<lambda>p. if p = Node b then Some t else None)"
    by (rule ext) (use h in \<open>metis not_None_eq\<close>)
  moreover have "b \<in> set as" using locks_anchors [OF lk, of "Node b" t] assms(2) by (auto simp: anchors_def)
  then obtain pre suf where as: "as = pre @ b # suf" by (meson split_list)
  moreover have "in_front b (cn_list c) = map (data_of (nodes c)) pre"
  proof -
    have "set as \<subseteq> {..<ts_fresh (cn_list c)}" using shape_fresh [OF sh] shape_dom [OF sh] by blast
    then have "length as \<le> ts_fresh (cn_list c)"
      using card_mono [of "{..<ts_fresh (cn_list c)}" "set as"] shape_distinct [OF sh] by (simp add: distinct_card)
    from walk_path [OF shape_path [OF sh] this] show ?thesis
      using shape_distinct [OF sh] as by (auto simp: in_front_def takeWhile_append)
  qed
  ultimately show thesis using that [of pre suf] shape_path [OF sh] shape_distinct [OF sh] by (simp add: in_callback_def)
qed

section \<open>The walk towards the node of the callback\<close>

text \<open>The nested call with the lock of \<open>p\<close>, at the head of its loop.\<close>

definition standing :: "nat \<Rightarrow> 'a call \<Rightarrow> nptr \<Rightarrow> 'a list \<Rightarrow> 'a conc \<Rightarrow> 'a conc" where
  "standing t op p seen c = goto t (At op p seen) (c\<lparr>cn_lock := (cn_lock c)(p := Some t)\<rparr>)"

lemma goto_goto [simp]: "goto t k (c\<lparr>cn_lock := L, cn_pc := (cn_pc c)(t := k')\<rparr>) = goto t k (c\<lparr>cn_lock := L\<rparr>)"
  by (simp add: goto_def)

definition skips :: "'a call \<Rightarrow> 'a \<Rightarrow> bool" where
  "skips op x \<longleftrightarrow> (case op of Push _ \<Rightarrow> False | Visit_all \<Rightarrow> True | Find P \<Rightarrow> \<not> P x | Remove P \<Rightarrow> \<not> P x)"

lemma callback_next:
  assumes "in_callback t (xs @ ys) b suf c"
  obtains nd where "read_next (cn_list c) (last_ptr xs) = Ret (Some (hd (ys @ [b])))"
    "nodes c (hd (ys @ [b])) = Some nd" "alive (last_ptr xs) (cn_list c)" "last_ptr xs \<noteq> Node b"
    "last_ptr xs \<noteq> Node (hd (ys @ [b]))" "alive (Node (hd (ys @ [b]))) (cn_list c)"
proof -
  let ?z = "hd (ys @ [b])" and ?zs = "tl (ys @ b # suf)"
  have zs: "ys @ b # suf = ?z # ?zs" by (cases ys) simp_all
  have p: "path (nodes c) (ts_head (cn_list c)) (xs @ ?z # ?zs) None" "distinct (xs @ ?z # ?zs)"
    using assms zs by (simp_all add: in_callback_def)
  obtain nd where nd: "nodes c ?z = Some nd" using p(1) by (auto simp: path_append)
  have "alive (last_ptr xs) (cn_list c)"
    using p(1) by (cases xs rule: rev_cases) (auto simp: last_ptr_def alive_def path_append)
  moreover have "b \<in> set (?z # ?zs)" unfolding zs [symmetric] by simp
  then have "last_ptr xs \<noteq> Node b" "last_ptr xs \<noteq> Node ?z"
    using last_ptr_in [of xs] p(2) by auto
  moreover have "read_next (cn_list c) (last_ptr xs) = Ret (Some ?z)"
    using read_next_rep [OF p(1)] by auto
  ultimately show thesis using that nd by (simp add: alive_def)
qed

lemma walk_on:
  assumes cb: "in_callback t (xs @ a # ys) b suf c" and skip: "skips op (data_of (nodes c) a)"
  shows "\<exists>seen'. solo t' (standing t' op (last_ptr xs) seen c) (standing t' op (Node a) seen' c)"
proof -
  from callback_next [OF cb] obtain nd where nx: "read_next (cn_list c) (last_ptr xs) = Ret (Some a)" "nodes c a = Some nd"
    "alive (last_ptr xs) (cn_list c)" "last_ptr xs \<noteq> Node b" "last_ptr xs \<noteq> Node a" "alive (Node a) (cn_list c)" by auto
  have free: "cn_lock c (last_ptr xs) = None" "cn_lock c (Node a) = None" using cb nx(4) by (auto simp: in_callback_def)
  let ?L = "(cn_lock c)(last_ptr xs := Some t', Node a := Some t')"
  have at: "advance t' (standing t' op (last_ptr xs) seen c) = Some (goto t' (Both op (last_ptr xs) a seen) (c\<lparr>cn_lock := ?L\<rparr>))"
    using nx free by (simp add: step_defs standing_def)
  have L: "?L(last_ptr xs := None) = (cn_lock c)(Node a := Some t')" using nx(5) free by auto
  have both: "release t' (last_ptr xs) k (goto t' k' (c\<lparr>cn_lock := ?L\<rparr>)) = goto t' k (c\<lparr>cn_lock := (cn_lock c)(Node a := Some t')\<rparr>)"
    for k k' using nx(3) L by (simp add: release_def)
  show ?thesis
  proof (cases "\<exists>P. op = Remove P")
    case True
    then have "advance t' (goto t' (Both op (last_ptr xs) a seen) (c\<lparr>cn_lock := ?L\<rparr>)) = Some (standing t' op (Node a) seen c)"
      using skip nx(2) both by (auto simp: advance_def step_both_def skips_def standing_def)
    with at show ?thesis by (blast intro: solo.intros)
  next
    case False
    then have v: "advance t' (goto t' (Both op (last_ptr xs) a seen) (c\<lparr>cn_lock := ?L\<rparr>)) =
        Some (goto t' (Visiting op a seen) (c\<lparr>cn_lock := (cn_lock c)(Node a := Some t')\<rparr>))"
      using both by (cases op) (auto simp: advance_def step_both_def)
    have "\<exists>seen'. advance t' (goto t' (Visiting op a seen) (c\<lparr>cn_lock := (cn_lock c)(Node a := Some t')\<rparr>)) =
        Some (standing t' op (Node a) seen' c)"
      using skip nx(2) False by (cases op) (auto simp: advance_def step_visit_def skips_def standing_def goto_def)
    with at v show ?thesis by (blast intro: solo.intros)
  qed
qed

lemma walk_all:
  assumes "in_callback t (xs @ ys @ zs) b suf c" "\<forall>a \<in> set ys. skips op (data_of (nodes c) a)"
  shows "\<exists>seen'. solo t' (standing t' op (last_ptr xs) seen c) (standing t' op (last_ptr (xs @ ys)) seen' c)"
  using assms
proof (induction ys arbitrary: xs seen)
  case (Cons a ys)
  from walk_on [of t xs a "ys @ zs" b suf c op] Cons.prems obtain s1 where
    s1: "solo t' (standing t' op (last_ptr xs) seen c) (standing t' op (Node a) s1 c)" by fastforce
  from Cons.IH [of "xs @ [a]" s1] Cons.prems show ?case by (auto intro: solo_trans [OF s1])
qed (auto intro: solo.stop)

text \<open>At the node of the callback the nested call waits for a mutex that its own thread holds.\<close>

lemma walk_blocked:
  assumes "in_callback t pre b suf c"
  shows "advance t' (standing t' op (last_ptr pre) seen c) = None"
proof -
  from callback_next [of t pre "[]" b suf c] assms have "read_next (cn_list c) (last_ptr pre) = Ret (Some b)"
    "alive (Node b) (cn_list c)" "last_ptr pre \<noteq> Node b" by auto
  then show ?thesis using assms by (simp add: step_defs standing_def in_callback_def)
qed

section \<open>A hit in front of it\<close>

lemma solo_step: "advance t c = Some c1 \<Longrightarrow> (\<exists>c'. solo t c1 c' \<and> Q c') \<Longrightarrow> \<exists>c'. solo t c c' \<and> Q c'"
  by (blast intro: solo.go)

lemma finish_leaving: "alive p (cn_list c) \<Longrightarrow> \<exists>c'. solo t (goto t (Leaving p r) c) c' \<and> cn_pc c' t = Idle"
  by (rule solo_step) (auto simp: advance_def release_def intro: solo.stop)

lemma alive_count [simp]: "alive p (tsl_count n l) = alive p l"
  by (cases p) (simp_all add: alive_def)

lemma alive_free: "p \<noteq> Node a \<Longrightarrow> alive p (tsl_free a l) = alive p l"
  by (cases p) (simp_all add: alive_def tsl_free_def)

lemma finish_removal:
  assumes "alive (Node a) (cn_list c)" "alive p (cn_list c)" "p \<noteq> Node a"
  shows "\<exists>c'. solo t (goto t (Cut p a) c) c' \<and> cn_pc c' t = Idle"
proof (rule solo_step)
  let ?c1 = "c\<lparr>cn_lock := (cn_lock c)(Node a := None)\<rparr>"
  let ?c2 = "?c1\<lparr>cn_list := tsl_count (- 1) (cn_list ?c1)\<rparr>"
  show "advance t (goto t (Cut p a) c) = Some (goto t (Cut_open p a) ?c1)"
    using assms(1) by (simp add: advance_def release_def)
  show "\<exists>c'. solo t (goto t (Cut_open p a) ?c1) c' \<and> cn_pc c' t = Idle"
  proof (rule solo_step)
    show "advance t (goto t (Cut_open p a) ?c1) = Some (goto t (Counted p a) ?c2)"
      by (simp add: advance_def)
    show "\<exists>c'. solo t (goto t (Counted p a) ?c2) c' \<and> cn_pc c' t = Idle"
    proof (rule solo_step)
      show "advance t (goto t (Counted p a) ?c2) = Some (goto t (Leaving p (Removed True))
          (?c2\<lparr>cn_list := tsl_free a (cn_list ?c2)\<rparr>))"
        using assms(1) by (simp add: advance_def)
    qed (rule finish_leaving, use assms(2,3) in \<open>simp add: alive_free\<close>)
  qed
qed

lemma walk_hit:
  assumes cb: "in_callback t (xs @ a # ys) b suf c" and hit: "\<not> skips op (data_of (nodes c) a)" and op: "\<And>v. op \<noteq> Push v"
  shows "\<exists>c'. solo t' (standing t' op (last_ptr xs) seen c) c' \<and> cn_pc c' t' = Idle"
proof (rule solo_step)
  from callback_next [OF cb] obtain nd where nx: "read_next (cn_list c) (last_ptr xs) = Ret (Some a)" "nodes c a = Some nd"
    "alive (last_ptr xs) (cn_list c)" "last_ptr xs \<noteq> Node b" "last_ptr xs \<noteq> Node a" "alive (Node a) (cn_list c)" by auto
  have free: "cn_lock c (last_ptr xs) = None" "cn_lock c (Node a) = None" using cb nx(4) by (auto simp: in_callback_def)
  let ?c1 = "c\<lparr>cn_lock := (cn_lock c)(last_ptr xs := Some t', Node a := Some t')\<rparr>"
  show "advance t' (standing t' op (last_ptr xs) seen c) = Some (goto t' (Both op (last_ptr xs) a seen) ?c1)"
    using nx free by (simp add: step_defs standing_def)
  show "\<exists>c'. solo t' (goto t' (Both op (last_ptr xs) a seen) ?c1) c' \<and> cn_pc c' t' = Idle"
  proof (cases "\<exists>P. op = Remove P")
    case True
    let ?c2 = "?c1\<lparr>cn_list := tsl_splice (last_ptr xs) a (cn_list c)\<rparr>"
    have path: "path (nodes c) (ts_head (cn_list c)) (xs @ a # ys @ b # suf) None" "distinct (xs @ a # ys @ b # suf)"
      using cb by (simp_all add: in_callback_def)
    have alive: "alive p (cn_list ?c2) = alive p (cn_list c)" for p
      using splice_path(2) [OF path] by (cases p) (auto simp: alive_def dom_def)
    show ?thesis
    proof (rule solo_step)
      show "advance t' (goto t' (Both op (last_ptr xs) a seen) ?c1) = Some (goto t' (Cut (last_ptr xs) a) ?c2)"
        using True hit nx(2) by (auto simp: advance_def step_both_def skips_def goto_def)
    qed (rule finish_removal, use alive nx in auto)
  next
    case False
    with hit op obtain P where P: "op = Find P" by (cases op) (auto simp: skips_def)
    let ?c2 = "?c1\<lparr>cn_lock := (cn_lock ?c1)(last_ptr xs := None)\<rparr>"
    show ?thesis
    proof (rule solo_step)
      show "advance t' (goto t' (Both op (last_ptr xs) a seen) ?c1) = Some (goto t' (Visiting op a seen) ?c2)"
        using P nx(3) by (simp add: advance_def step_both_def release_def)
      show "\<exists>c'. solo t' (goto t' (Visiting op a seen) ?c2) c' \<and> cn_pc c' t' = Idle"
      proof (rule solo_step)
        show "advance t' (goto t' (Visiting op a seen) ?c2) = Some (goto t' (Leaving (Node a) (Found (Some (nd_data nd)))) ?c2)"
          using P hit nx(2) by (simp add: advance_def step_visit_def skips_def goto_def)
      qed (rule finish_leaving, use nx in simp)
    qed
  qed
qed

lemma push_returns:
  assumes "cn_lock c Head = None"
  shows "nested_returns t (Push v) c"
  unfolding nested_returns_def
proof (rule solo_step)
  let ?c1 = "c\<lparr>cn_log := cn_log c @ [(t, Push v)], cn_lock := (cn_lock c)(Head := Some t)\<rparr>"
  let ?c2 = "?c1\<lparr>cn_list := tsl_link v (cn_list c)\<rparr>"
  show "advance t (goto t (Called (Push v)) c) = Some (goto t (Linking v) ?c1)"
    using assms by (simp add: advance_def acquire_def entry_pc_def goto_def)
  show "\<exists>c'. solo t (goto t (Linking v) ?c1) c' \<and> cn_pc c' t = Idle"
  proof (rule solo_step)
    show "advance t (goto t (Linking v) ?c1) = Some (goto t Linked ?c2)" by (simp add: advance_def goto_def)
    show "\<exists>c'. solo t (goto t Linked ?c2) c' \<and> cn_pc c' t = Idle"
    proof (rule solo_step)
      show "advance t (goto t Linked ?c2) = Some (goto t (Leaving Head Done) (?c2\<lparr>cn_list := tsl_count 1 (cn_list ?c2)\<rparr>))"
        by (simp add: advance_def goto_def)
    qed (rule finish_leaving, simp)
  qed
qed

section \<open>Property\<close>

lemma in_callback_log [simp]: "in_callback t pre b suf (c\<lparr>cn_log := ls\<rparr>) = in_callback t pre b suf c"
  by (simp add: in_callback_def)

lemma nested_returns_iff:
  assumes cb: "in_callback t pre b suf c" and op: "\<And>v. op \<noteq> Push v"
  shows "nested_returns t' op c \<longleftrightarrow> (\<exists>a \<in> set pre. \<not> skips op (data_of (nodes c) a))"
proof -
  let ?c = "c\<lparr>cn_log := cn_log c @ [(t', op)]\<rparr>"
  have enter: "advance t' (goto t' (Called op) c) = Some (standing t' op (last_ptr []) [] ?c)"
    using cb op by (cases op) (auto simp: advance_def acquire_def entry_pc_def standing_def last_ptr_def in_callback_def goto_def)
  have cb': "in_callback t pre b suf ?c" using cb by simp
  show ?thesis
  proof (cases "\<exists>a \<in> set pre. \<not> skips op (data_of (nodes c) a)")
    case True
    then obtain xs a ys where pre: "pre = xs @ a # ys" "\<not> skips op (data_of (nodes c) a)" "\<forall>x \<in> set xs. skips op (data_of (nodes c) x)"
      using split_list_first_prop [of pre "\<lambda>a. \<not> skips op (data_of (nodes c) a)"] by metis
    have hit: "in_callback t (xs @ a # ys) b suf ?c" using cb' pre(1) by simp
    from walk_all [of t "[]" xs "a # ys" b suf ?c op t' "[]"] cb' pre obtain seen where
      run: "solo t' (standing t' op (last_ptr []) [] ?c) (standing t' op (last_ptr xs) seen ?c)" by auto
    have "\<not> skips op (data_of (nodes ?c) a)" using pre(2) by simp
    from walk_hit [OF hit this op] obtain c' where "solo t' (standing t' op (last_ptr xs) seen ?c) c'" "cn_pc c' t' = Idle" by blast
    with run enter have "nested_returns t' op c" unfolding nested_returns_def by (blast intro: solo.go solo_trans)
    with True show ?thesis by blast
  next
    case False
    then obtain seen where run: "solo t' (standing t' op (last_ptr []) [] ?c) (standing t' op (last_ptr pre) seen ?c)"
      using walk_all [of t "[]" pre "[]" b suf ?c op t' "[]"] cb' by auto
    have "\<not> nested_returns t' op c"
    proof
      assume "nested_returns t' op c"
      then obtain d where d: "solo t' (goto t' (Called op) c) d" "cn_pc d t' = Idle" by (auto simp: nested_returns_def)
      have "advance t' d = None" using d(2) by (simp add: advance_def)
      from solo_unique [OF d(1) solo.go [OF enter run] this walk_blocked [OF cb']] d(2) show False
        by (simp add: standing_def)
    qed
    with False show ?thesis by blast
  qed
qed



end
