(* ===== verification/Queue_Monitor.thy ===== *)
theory Queue_Monitor
  imports Threadsafe_Queue "HOL-Library.Multiset"
begin

text \<open>
  \<open>BoundedThreadsafeQueue\<close> (\<^verbatim>\<open>utils/threadsafe_queue.cpp\<close>) as a monitor: any number of calls in progress, from
  any threads, each running until it returns or waits on one of the two condition variables, which
  releases the mutex. \<open>notify_one\<close> wakes one waiting call, whichever, and does nothing when nobody waits. The
  operations themselves are those of \<open>Threadsafe_Queue\<close>. \<open>Stop\<close>, which does not take the mutex, is treated there.
\<close>

section \<open>Calls in progress\<close>

text \<open>
  A call has not yet got the mutex, is asleep on its condition variable, or has been woken and has not yet got
  the mutex back. \<open>Popping t\<close> is \<open>WaitAndPop\<close> with the timeout \<open>t\<close>, and without one when \<open>t\<close> is not positive.
\<close>

datatype 'a pending_call = Pushing 'a | Push_asleep 'a | Push_woken 'a
  | Popping int | Pop_asleep int | Pop_woken int | Trying

type_synonym 'a pending_calls = "'a pending_call multiset"

type_synonym 'a monitor = "'a bqueue \<times> 'a pending_calls"

fun pop_asleep :: "'a pending_call \<Rightarrow> bool" where
  "pop_asleep (Pop_asleep _) = True"
| "pop_asleep _ = False"

fun pop_woken :: "'a pending_call \<Rightarrow> bool" where
  "pop_woken (Pop_woken _) = True"
| "pop_woken _ = False"

fun push_asleep :: "'a pending_call \<Rightarrow> bool" where
  "push_asleep (Push_asleep _) = True"
| "push_asleep _ = False"

fun push_woken :: "'a pending_call \<Rightarrow> bool" where
  "push_woken (Push_woken _) = True"
| "push_woken _ = False"

text \<open>\<open>data_cond.notify_one()\<close> and \<open>space_cond.notify_one()\<close>, called when \<open>b\<close>.\<close>

inductive signal_data :: "bool \<Rightarrow> 'a pending_calls \<Rightarrow> 'a pending_calls \<Rightarrow> bool" where
  data_one: "signal_data True (add_mset (Pop_asleep t) R) (add_mset (Pop_woken t) R)"
| data_none: "b \<longrightarrow> filter_mset pop_asleep R = {#} \<Longrightarrow> signal_data b R R"

inductive signal_space :: "bool \<Rightarrow> 'a pending_calls \<Rightarrow> 'a pending_calls \<Rightarrow> bool" where
  space_one: "signal_space True (add_mset (Push_asleep v) R) (add_mset (Push_woken v) R)"
| space_none: "b \<longrightarrow> filter_mset push_asleep R = {#} \<Longrightarrow> signal_space b R R"

text \<open>
  One call gets the mutex and runs until it returns, which ends it, or waits. A woken call evaluates its
  predicate again; its timeout may have passed meanwhile. A timeout wakes a sleeping call.
\<close>

inductive mo_step :: "'a monitor \<Rightarrow> 'a monitor \<Rightarrow> bool" where
  push: "bq_push v q = (Ret (), q') \<Longrightarrow> signal_data (bq_appends (EPush v) q \<noteq> []) R R' \<Longrightarrow>
    mo_step (q, add_mset (Pushing v) R) (q', R')"
| push_wait: "bq_push v q = (Blocked, q') \<Longrightarrow> mo_step (q, add_mset (Pushing v) R) (q', add_mset (Push_asleep v) R)"
| wake: "bq_push_wake v q = (Ret (), q') \<Longrightarrow> signal_data (bq_appends (EWake v) q \<noteq> []) R R' \<Longrightarrow>
    mo_step (q, add_mset (Push_woken v) R) (q', R')"
| wake_wait: "bq_push_wake v q = (Blocked, q') \<Longrightarrow>
    mo_step (q, add_mset (Push_woken v) R) (q', add_mset (Push_asleep v) R)"
| pop: "c = Popping t \<or> c = Pop_woken t \<Longrightarrow> bq_wait_pop t e q = (Ret r, q') \<Longrightarrow> signal_space (r \<noteq> None) R R' \<Longrightarrow>
    mo_step (q, add_mset c R) (q', R')"
| pop_wait: "c = Popping t \<or> c = Pop_woken t \<Longrightarrow> bq_wait_pop t e q = (Blocked, q') \<Longrightarrow>
    mo_step (q, add_mset c R) (q', add_mset (Pop_asleep t) R)"
| try_pop: "bq_try_pop q = (Ret r, q') \<Longrightarrow> signal_space (r \<noteq> None) R R' \<Longrightarrow> mo_step (q, add_mset Trying R) (q', R')"
| timeout: "0 < t \<Longrightarrow> mo_step (q, add_mset (Pop_asleep t) R) (q, add_mset (Pop_woken t) R)"

text \<open>What comes from outside: a thread calls an operation, or a sleeping call wakes up for no reason.\<close>

inductive mo_env :: "'a monitor \<Rightarrow> 'a monitor \<Rightarrow> bool" where
  call: "c = Pushing v \<or> c = Popping t \<or> c = Trying \<Longrightarrow> mo_env (q, R) (q, add_mset c R)"
| spurious_pop: "mo_env (q, add_mset (Pop_asleep t) R) (q, add_mset (Pop_woken t) R)"
| spurious_push: "mo_env (q, add_mset (Push_asleep v) R) (q, add_mset (Push_woken v) R)"

section \<open>No wake-up is lost\<close>

abbreviation number :: "('a pending_call \<Rightarrow> bool) \<Rightarrow> 'a pending_calls \<Rightarrow> nat" where
  "number P R \<equiv> size (filter_mset P R)"

definition mo_inv :: "'a monitor \<Rightarrow> bool" where
  "mo_inv m \<longleftrightarrow> (case m of (q, R) \<Rightarrow> bq_inv q \<and> \<not> bq_stopped q \<and>
     (0 < number pop_asleep R \<longrightarrow> length (bq_items q) \<le> number pop_woken R) \<and>
     (0 < number push_asleep R \<longrightarrow> bq_max q \<le> length (bq_items q) + number push_woken R))"

lemma signal_data_number:
  assumes "signal_data b R R'"
  shows "number push_asleep R' = number push_asleep R" "number push_woken R' = number push_woken R"
    and "number pop_woken R \<le> number pop_woken R'" "number pop_asleep R' \<le> number pop_asleep R"
    and "b \<Longrightarrow> 0 < number pop_asleep R' \<Longrightarrow> Suc (number pop_woken R) \<le> number pop_woken R'"
  using assms by (auto elim!: signal_data.cases)

lemma signal_space_number:
  assumes "signal_space b R R'"
  shows "number pop_asleep R' = number pop_asleep R" "number pop_woken R' = number pop_woken R"
    and "number push_woken R \<le> number push_woken R'" "number push_asleep R' \<le> number push_asleep R"
    and "b \<Longrightarrow> 0 < number push_asleep R' \<Longrightarrow> Suc (number push_woken R) \<le> number push_woken R'"
  using assms by (auto elim!: signal_space.cases)

lemma compact_length:
  "bq_compact mx xs n = Some (ys, m) \<Longrightarrow> mx \<le> length xs \<Longrightarrow> Suc (length ys) = mx"
proof (induction mx xs n rule: bq_compact.induct)
  case (2 mx x xs n)
  then show ?case
  proof (cases "mx \<le> length xs")
    case False
    with 2 have "bq_compact mx xs (n - 1) = Some (ys, m)" "mx = Suc (length xs)" by auto
    then show ?thesis by (cases xs) auto
  qed simp
qed (simp split: if_splits)

text \<open>A push that returns has appended its value, after making room if need be, or has dropped it.\<close>

lemma push_cases:
  assumes "bq_push v q = (Ret (), q')" "\<not> bq_stopped q" "bq_inv q"
  obtains (append) xs n where "q' = bq_enqueue v (q\<lparr>bq_items := xs, bq_size := n\<rparr>)" "bq_appends (EPush v) q = [v]"
      "if bq_max q \<le> length (bq_items q) then Suc (length xs) = bq_max q else xs = bq_items q"
  | (drop) "q' = q" "bq_max q \<le> length (bq_items q)" "bq_appends (EPush v) q = []"
proof (cases "bq_max q \<le> length (bq_items q)")
  case False
  then show thesis using assms(1,2) by (intro append [where xs = "bq_items q" and n = "bq_size q"]) (simp_all add: bq_push_def)
next
  case True
  then have len: "length (bq_items q) = bq_max q" using assms(3) by (simp add: bq_inv_def)
  show thesis
  proof (cases "bq_policy q")
    case Block
    then show thesis using assms(1,2) True by (simp add: bq_push_def)
  next
    case DropNewest
    then show thesis using assms(1,2) True by (intro drop) (simp_all add: bq_push_def)
  next
    case DropOldest
    then obtain x xs where x: "bq_items q = x # xs" using assms(1,2) True by (cases "bq_items q") (simp_all add: bq_push_def)
    show thesis using assms(1,2) True DropOldest x len
      by (intro append [where xs = xs and n = "bq_size q - 1"]) (simp_all add: bq_push_def)
  next
    case Compact
    then obtain xs n where c: "bq_compact (bq_max q) (bq_items q) (bq_size q) = Some (xs, n)"
      using assms(1,2) True by (cases "bq_compact (bq_max q) (bq_items q) (bq_size q)") (auto simp: bq_push_def)
    show thesis using assms(1,2) True Compact c compact_length [OF c True]
      by (intro append [where xs = xs and n = n]) (simp_all add: bq_push_def)
  qed
qed

lemma wait_pop_cases:
  assumes "bq_wait_pop t e q = (r, q')" "\<not> bq_stopped q"
  obtains (item) x xs where "bq_items q = x # xs" "r = Ret (Some x)" "q' = q\<lparr>bq_items := xs, bq_size := bq_size q - 1\<rparr>"
  | (late) "bq_items q = []" "r = Ret None" "q' = q"
  | (wait) "bq_items q = []" "r = Blocked" "q' = q"
  using assms by (cases "bq_items q") (auto simp: bq_wait_pop_def bq_pop_def split: if_splits)

lemma try_pop_cases:
  assumes "bq_try_pop q = (r, q')"
  obtains (item) x xs where "bq_items q = x # xs" "r = Ret (Some x)" "q' = q\<lparr>bq_items := xs, bq_size := bq_size q - 1\<rparr>"
  | (empty) "bq_items q = []" "r = Ret None" "q' = q"
  using assms by (cases "bq_items q") (auto simp: bq_try_pop_def bq_pop_def)

section \<open>The invariant\<close>

lemma append_keeps:
  assumes "mo_inv (q, R0)" "signal_data True R R'" "bq_inv q'" "\<not> bq_stopped q'" "bq_max q' = bq_max q"
    and "length (bq_items q') \<le> Suc (length (bq_items q))"
    and "bq_max q \<le> length (bq_items q) + number push_woken R0 \<Longrightarrow> bq_max q \<le> length (bq_items q') + number push_woken R"
    and "number pop_asleep R = number pop_asleep R0" "number pop_woken R = number pop_woken R0"
    and "number push_asleep R = number push_asleep R0"
  shows "mo_inv (q', R')"
proof -
  note n = signal_data_number [OF assms(2)]
  have "length (bq_items q') \<le> number pop_woken R'" if "0 < number pop_asleep R'"
  proof -
    have "0 < number pop_asleep R0" using that n(4) assms(8) by linarith
    then have "length (bq_items q) \<le> number pop_woken R0" using assms(1) by (simp add: mo_inv_def)
    then show ?thesis using n(5) [OF TrueI that] assms(6,9) by linarith
  qed
  then show ?thesis using assms(1,3-5,7,10) n(1,2) by (simp add: mo_inv_def)
qed

lemma pop_keeps:
  assumes "mo_inv (q, R0)" "signal_space True R R'" "bq_items q = x # xs" "q' = q\<lparr>bq_items := xs, bq_size := bq_size q - 1\<rparr>"
    and "number push_asleep R = number push_asleep R0" "number push_woken R = number push_woken R0"
    and "number pop_asleep R = number pop_asleep R0" "number pop_woken R0 \<le> Suc (number pop_woken R)"
  shows "mo_inv (q', R')"
proof -
  note n = signal_space_number [OF assms(2)]
  have "bq_max q \<le> length xs + number push_woken R'" if "0 < number push_asleep R'"
  proof -
    have "0 < number push_asleep R0" using that n(4) assms(5) by linarith
    then have "bq_max q \<le> Suc (length xs) + number push_woken R0" using assms(1,3) by (simp add: mo_inv_def)
    then show ?thesis using n(5) [OF TrueI that] assms(6) by linarith
  qed
  moreover have "length xs \<le> number pop_woken R'" if "0 < number pop_asleep R'"
    using that assms(1,3,7,8) n(1,2) by (simp add: mo_inv_def)
  moreover have "bq_inv q'" using assms(1,3,4) by (auto simp: mo_inv_def bq_inv_def)
  ultimately show ?thesis using assms(1,4) by (simp add: mo_inv_def)
qed

lemma signal_False [simp]: "signal_data False R R' \<longleftrightarrow> R' = R" "signal_space False R R' \<longleftrightarrow> R' = R"
  by (auto elim: signal_data.cases signal_space.cases intro: data_none space_none)

lemma mo_step_inv:
  assumes "mo_step m m'" "mo_inv m"
  shows "mo_inv m'"
  using assms
proof (induction rule: mo_step.induct)
  case (push v q q' R R')
  have q: "\<not> bq_stopped q" "bq_inv q" using push.prems by (simp_all add: mo_inv_def)
  from push.hyps(1) q show ?case
  proof (cases rule: push_cases)
    case (append xs n)
    have "signal_data True R R'" using push.hyps(2) append(2) by simp
    moreover have "bq_inv q'" using bq_push_inv [OF q(2), of v] push.hyps(1) by simp
    moreover have "\<not> bq_stopped q'" "bq_max q' = bq_max q" using append(1) q(1) by (simp_all add: bq_enqueue_def)
    moreover have "length (bq_items q') = (if bq_max q \<le> length (bq_items q) then bq_max q else Suc (length (bq_items q)))"
      using append(1,3) by (simp add: bq_enqueue_def split: if_splits)
    ultimately show ?thesis by (intro append_keeps [OF push.prems]) (auto split: if_splits)
  next
    case drop
    then show ?thesis using push.prems push.hyps(2) by (simp add: mo_inv_def)
  qed
next
  case (push_wait v q q' R)
  have "q' = q" "bq_max q \<le> length (bq_items q)"
    using push_wait.hyps by (auto simp: bq_push_def split: if_splits overflow_policy.splits list.splits option.splits)
  then show ?case using push_wait.prems by (simp add: mo_inv_def)
next
  case (wake v q q' R R')
  have q: "\<not> bq_stopped q" "bq_inv q" using wake.prems by (simp_all add: mo_inv_def)
  have q': "q' = bq_enqueue v q" "length (bq_items q) < bq_max q"
    using wake.hyps(1) q(1) by (auto simp: bq_push_wake_def split: if_splits)
  have "signal_data True R R'" using wake.hyps(2) q(1) q'(2) by simp
  moreover have "bq_inv q'" using q(2) q' by (simp add: bq_inv_def bq_enqueue_def)
  ultimately show ?case using q(1) q' by (intro append_keeps [OF wake.prems]) (simp_all add: bq_enqueue_def)
next
  case (wake_wait v q q' R)
  have "q' = q" "bq_max q \<le> length (bq_items q)"
    using wake_wait.hyps by (auto simp: bq_push_wake_def split: if_splits)
  then show ?case using wake_wait.prems by (simp add: mo_inv_def)
next
  case (pop c t e q r q' R R')
  have q: "\<not> bq_stopped q" using pop.prems by (simp add: mo_inv_def)
  from pop.hyps(2) q show ?case
  proof (cases rule: wait_pop_cases)
    case (item x xs)
    have "signal_space True R R'" using pop.hyps(3) item(2) by simp
    then show ?thesis using pop.hyps(1) by (intro pop_keeps [OF pop.prems _ item(1,3)]) auto
  next
    case late
    then show ?thesis using pop.prems pop.hyps(1,3) by (auto simp: mo_inv_def simp del: filter_mset_eq_mempty_iff)
  qed simp
next
  case (pop_wait c t e q q' R)
  have q: "\<not> bq_stopped q" using pop_wait.prems by (simp add: mo_inv_def)
  from pop_wait.hyps(2) q show ?case
    by (cases rule: wait_pop_cases) (use pop_wait.prems pop_wait.hyps(1) in
        \<open>auto simp: mo_inv_def simp del: filter_mset_eq_mempty_iff\<close>)
next
  case (try_pop q r q' R R')
  from try_pop.hyps(1) show ?case
  proof (cases rule: try_pop_cases)
    case (item x xs)
    have "signal_space True R R'" using try_pop.hyps(2) item(2) by simp
    then show ?thesis by (intro pop_keeps [OF try_pop.prems _ item(1,3)]) auto
  next
    case empty
    then show ?thesis using try_pop.prems try_pop.hyps(2) by (auto simp: mo_inv_def)
  qed
next
  case (timeout t q R)
  then show ?case by (auto simp: mo_inv_def)
qed

lemma mo_env_inv: "mo_env m m' \<Longrightarrow> mo_inv m \<Longrightarrow> mo_inv m'"
  by (induction rule: mo_env.induct) (auto simp: mo_inv_def)

definition mo_run :: "'a monitor \<Rightarrow> 'a monitor \<Rightarrow> bool" where
  "mo_run = (\<lambda>m m'. mo_step m m' \<or> mo_env m m')\<^sup>*\<^sup>*"

lemma mo_run_inv: "mo_run m m' \<Longrightarrow> mo_inv m \<Longrightarrow> mo_inv m'"
  unfolding mo_run_def by (induction rule: rtranclp_induct) (auto intro: mo_step_inv mo_env_inv)

lemma mo_init_inv: "mo_inv (bq_new c p, {#})"
  by (simp add: mo_inv_def)

text \<open>C11: \<open>notify_one\<close> loses no wake-up, whatever calls of \<open>Push\<close>, \<open>WaitAndPop\<close> and \<open>TryPop\<close> run on a queue that is not
  stopped: while a consumer sleeps, there are at least as many woken consumers on their way as there
  are items, and while a producer sleeps, at least as many woken producers as there are free places.\<close>

theorem monitor_no_lost_wakeup:
  assumes "mo_run (bq_new c p, {#}) (q, R)"
  shows "(0 < number pop_asleep R \<longrightarrow> length (bq_items q) \<le> number pop_woken R) \<and>
    (0 < number push_asleep R \<longrightarrow> bq_max q \<le> length (bq_items q) + number push_woken R)"
  using mo_run_inv [OF assms mo_init_inv] by (simp add: mo_inv_def)

lemma mo_run_step: "mo_run m m' \<Longrightarrow> mo_step m' m'' \<Longrightarrow> mo_run m m''"
  and mo_run_env: "mo_run m m' \<Longrightarrow> mo_env m' m'' \<Longrightarrow> mo_run m m''"
  unfolding mo_run_def by (rule rtranclp.rtrancl_into_rtrancl; blast)+

lemma mo_run_refl: "mo_run m m"
  by (simp add: mo_run_def)

text \<open>A consumer without a timeout that finds the queue empty goes to sleep.\<close>

lemma consumer_sleeps:
  assumes "mo_run m (q, R)" "bq_items q = []" "\<not> bq_stopped q"
  shows "mo_run m (q, add_mset (Pop_asleep 0) R)"
proof -
  have "bq_wait_pop 0 False q = (Blocked, q)" using assms(2,3) by (simp add: bq_wait_pop_def)
  then show ?thesis using mo_run_step [OF mo_run_env [OF assms(1) call [of "Popping 0"]] pop_wait [of "Popping 0" 0 False q q]]
    by blast
qed

theorem monitor_no_lost_wakeup_witness:
  "mo_run (bq_new 8 Block, {#}) (bq_enqueue ''job'' (bq_new 8 Block), {#Pop_woken 0, Pop_asleep 0#}) \<and>
   length (bq_items (bq_enqueue ''job'' (bq_new 8 Block))) \<le> number pop_woken {#Pop_woken 0 :: string pending_call, Pop_asleep 0#}"
proof -
  let ?q = "bq_new 8 Block :: string bqueue"
  let ?r = "bq_enqueue ''job'' ?q"
  have two: "mo_run (?q, {#}) (?q, {#Pop_asleep 0, Pop_asleep 0#})"
    by (rule consumer_sleeps [OF consumer_sleeps [OF mo_run_refl]]) simp_all
  have "mo_step (?q, {#Pushing ''job'', Pop_asleep 0, Pop_asleep 0#}) (?r, {#Pop_woken 0, Pop_asleep 0#})"
    by (rule push) (simp_all add: bq_push_def data_one)
  with mo_run_env [OF two call [of "Pushing ''job''"]]
  have run: "mo_run (?q, {#}) (?r, {#Pop_woken 0, Pop_asleep 0#})" by (blast intro: mo_run_step)
  show ?thesis using monitor_no_lost_wakeup [OF run] run by simp
qed

section \<open>When nothing moves\<close>

text \<open>A call that has the mutex returns or waits, if the queue has any capacity.\<close>

lemma data_exists: "\<exists>R'. signal_data b R R'"
proof (cases "b \<and> filter_mset pop_asleep R \<noteq> {#}")
  case True
  then obtain c where c: "c \<in># R" "pop_asleep c" by (meson filter_mset_eq_mempty_iff)
  then obtain t where "c = Pop_asleep t" by (cases c) auto
  then show ?thesis using c(1) True by (metis data_one insert_DiffM)
qed (use data_none [of b R] in blast)

lemma space_exists: "\<exists>R'. signal_space b R R'"
proof (cases "b \<and> filter_mset push_asleep R \<noteq> {#}")
  case True
  then obtain c where c: "c \<in># R" "push_asleep c" by (meson filter_mset_eq_mempty_iff)
  then obtain v where "c = Push_asleep v" by (cases c) auto
  then show ?thesis using c(1) True by (metis space_one insert_DiffM)
qed (use space_none [of b R] in blast)

lemma push_total:
  assumes "0 < bq_max q"
  shows "fst (bq_push v q) = Ret () \<or> fst (bq_push v q) = Blocked"
  using assms bq_compact_total [of "bq_max q" "bq_items q" "bq_size q"]
  by (auto simp: bq_push_def split: overflow_policy.splits list.splits option.splits)

lemma pop_total: "(\<exists>r. fst (bq_wait_pop t e q) = Ret r) \<or> fst (bq_wait_pop t e q) = Blocked"
  by (cases "bq_items q") (auto simp: bq_wait_pop_def bq_pop_def)

lemma call_moves:
  assumes "c \<in># R" "0 < bq_max q" "\<not> push_asleep c" "\<And>t. c = Pop_asleep t \<Longrightarrow> 0 < t"
  shows "\<exists>m. mo_step (q, R) m"
proof -
  obtain R1 where R: "R = add_mset c R1" using assms(1) by (metis insert_DiffM)
  have pop: "\<exists>m. mo_step (q, R) m" if "c = Popping t \<or> c = Pop_woken t" for t
  proof -
    obtain r q' where p: "bq_wait_pop t False q = (r, q')" by fastforce
    then show ?thesis using pop_total [of t False q] space_exists mo_step.pop [OF that] pop_wait [OF that] R
      by (metis fst_conv)
  qed
  show ?thesis
  proof (cases c)
    case (Pushing v)
    obtain r q' where "bq_push v q = (r, q')" by fastforce
    then show ?thesis using push_total [OF assms(2), of v] data_exists push push_wait R Pushing by (metis fst_conv)
  next
    case (Push_woken v)
    obtain r q' where p: "bq_push_wake v q = (r, q')" by fastforce
    then have "r = Ret () \<or> r = Blocked" by (auto simp: bq_push_wake_def split: if_splits)
    then show ?thesis using p data_exists wake wake_wait R Push_woken by metis
  next
    case Trying
    obtain r q' where p: "bq_try_pop q = (r, q')" by fastforce
    then obtain x where "r = Ret x" by (cases rule: try_pop_cases) auto
    then show ?thesis using p space_exists try_pop R Trying by metis
  next
    case (Pop_asleep t)
    then show ?thesis using timeout [of t q R1] assms(4) R by blast
  qed (use pop assms(3) in auto)
qed

text \<open>C12: Calls on a queue that is not stopped and has room for at least one item cannot get stuck on each other: if none
  of the calls in progress can move, then all have returned, or all of them are consumers without a timeout that wait
  for an item, and the queue is empty, or all are producers that wait for a place, and it is full.\<close>

theorem monitor_stuck:
  assumes "mo_run (bq_new c p, {#}) (q, R)" "0 < bq_max q" "\<not> (\<exists>m. mo_step (q, R) m)"
  shows "R = {#} \<or> bq_items q = [] \<and> (\<forall>d \<in># R. \<exists>t. d = Pop_asleep t \<and> t \<le> 0) \<or>
    length (bq_items q) = bq_max q \<and> (\<forall>d \<in># R. push_asleep d)"
proof -
  have inv: "mo_inv (q, R)" by (rule mo_run_inv [OF assms(1) mo_init_inv])
  have asleep: "push_asleep d \<or> (\<exists>t. d = Pop_asleep t \<and> t \<le> 0)" if "d \<in># R" for d
    using call_moves [OF that assms(2)] assms(3) by (meson not_le)
  have "\<not> pop_woken d \<and> \<not> push_woken d" if "d \<in># R" for d using asleep [OF that] by (cases d) auto
  then have woken: "filter_mset pop_woken R = {#}" "filter_mset push_woken R = {#}" by simp_all
  have empty: "bq_items q = []" if "d \<in># R" "pop_asleep d" for d
    using inv woken that by (auto simp: mo_inv_def nonempty_has_size [symmetric])
  have full: "length (bq_items q) = bq_max q" if "d \<in># R" "push_asleep d" for d
    using inv woken that by (fastforce simp: mo_inv_def bq_inv_def nonempty_has_size [symmetric])
  show ?thesis
  proof (cases "\<exists>d \<in># R. push_asleep d")
    case True
    then have f: "length (bq_items q) = bq_max q" using full by blast
    have "push_asleep d" if "d \<in># R" for d using asleep [OF that] empty [OF that] f assms(2) by auto
    with f show ?thesis by blast
  next
    case False
    with asleep have "\<forall>d \<in># R. \<exists>t. d = Pop_asleep t \<and> t \<le> 0" by blast
    then show ?thesis using empty by (metis multiset_nonemptyE pop_asleep.simps(1))
  qed
qed

theorem monitor_stuck_witness:
  "mo_run (bq_new 8 Block, {#}) (bq_new 8 Block :: nat bqueue, {#Pop_asleep 0#}) \<and>
   \<not> (\<exists>m. mo_step (bq_new 8 Block :: nat bqueue, {#Pop_asleep 0#}) m) \<and> \<not> push_asleep (Pop_asleep 0 :: nat pending_call)"
proof -
  let ?q = "bq_new 8 Block :: nat bqueue"
  have run: "mo_run (?q, {#}) (?q, {#Pop_asleep 0#})" by (rule consumer_sleeps [OF mo_run_refl]) simp_all
  have stuck: "\<not> (\<exists>m. mo_step (?q, {#Pop_asleep 0#}) m)" by (auto elim!: mo_step.cases)
  from monitor_stuck [OF run _ stuck] run stuck show ?thesis by simp
qed

end
