(* ===== verification/Store_Locking.thy ===== *)
theory Store_Locking
  imports Mem_Store
begin

text \<open>
  Which operations of \<^verbatim>\<open>src/mem_store.cpp\<close> can be inside their bodies at the same time, and what they access
  there. \<open>set\<close>, \<open>del\<close> and \<open>set_if_version\<close> hold \<open>mutex_\<close> exclusively, \<open>get\<close> holds it shared, although it writes
  \<open>last_accessed\<close> of the entry it finds, and \<open>cleanup_expired\<close> does not take it at all. Two operations
  race when both are inside, both access one location and at least one of them writes it. The lemmas
  \<open>get_within\<close> to \<open>stale_within\<close> tie the accesses to the operations of \<^verbatim>\<open>Mem_Store\<close>.
\<close>

section \<open>The operations\<close>

text \<open>\<open>Cleanup\<close> carries the keys in \<open>ttl_index_\<close>.\<close>

datatype store_op = Get actor_id key | Set actor_id key | Del actor_id key | Cas actor_id key u64
  | Cleanup "(actor_id \<times> key) list"

datatype lock_mode = Unlocked | Shared | Exclusive

fun mode_of :: "store_op \<Rightarrow> lock_mode" where
  "mode_of (Get _ _) = Shared"
| "mode_of (Cleanup _) = Unlocked"
| "mode_of _ = Exclusive"

text \<open>\<open>store_\<close> with its inner maps, or the metadata of one entry.\<close>

datatype location = Maps | Metadata actor_id key

type_synonym access = "bool \<times> location"

text \<open>
  The accesses, reads (\<open>False\<close>) and writes (\<open>True\<close>), when the operation runs on the table \<open>st\<close> and the clock
  shows \<open>now\<close>. \<open>store_[a][k]\<close> inserts what is missing.
\<close>

abbreviation entry_in :: "table \<Rightarrow> actor_id \<Rightarrow> key \<Rightarrow> meta option" where
  "entry_in st a k \<equiv> Option.bind (st a) (\<lambda>m. m k)"

fun accesses :: "table \<Rightarrow> int \<Rightarrow> store_op \<Rightarrow> access list" where
  "accesses st now (Get a k) = (False, Maps) # (if entry_in st a k = None then [] else [(True, Metadata a k)])"
| "accesses st now (Set a k) = [(entry_in st a k = None, Maps), (True, Metadata a k)]"
| "accesses st now (Cas a k n) = (case entry_in st a k of
     None \<Rightarrow> [(True, Maps), (True, Metadata a k)]
   | Some e \<Rightarrow> [(False, Maps), (m_version e = n, Metadata a k)])"
| "accesses st now (Del a k) = (if entry_in st a k = None then [(False, Maps)] else [(True, Maps), (True, Metadata a k)])"
| "accesses st now (Cleanup ks) = concat (map (\<lambda>(a, k).
     (case entry_in st a k of
        None \<Rightarrow> [(False, Maps)]
      | Some e \<Rightarrow> (False, Maps) # (False, Metadata a k) #
          (if ms_expired now e then [(True, Maps), (True, Metadata a k)] else []))) ks)"

definition conflict :: "access list \<Rightarrow> access list \<Rightarrow> bool" where
  "conflict xs ys \<longleftrightarrow> (\<exists>(w, l) \<in> set xs. \<exists>(w', l') \<in> set ys. l = l' \<and> (w \<or> w'))"

text \<open>The operations of the model change nothing that is not among these writes.\<close>

definition writes_within :: "access list \<Rightarrow> table \<Rightarrow> table \<Rightarrow> bool" where
  "writes_within xs st st' \<longleftrightarrow> (\<forall>a k. entry_in st a k \<noteq> entry_in st' a k \<longrightarrow>
     (True, Metadata a k) \<in> set xs \<and> (entry_in st a k = None \<or> entry_in st' a k = None \<longrightarrow> (True, Maps) \<in> set xs))"

lemma writes_withinI:
  assumes "\<And>a k. ms_find a k s' \<noteq> ms_find a k s \<Longrightarrow>
    (True, Metadata a k) \<in> set xs \<and> (ms_find a k s = None \<or> ms_find a k s' = None \<longrightarrow> (True, Maps) \<in> set xs)"
  shows "writes_within xs (ms_store s) (ms_store s')"
  unfolding writes_within_def using assms by (metis ms_find_def)

lemma get_within: "writes_within (accesses (ms_store s) now (Get a k)) (ms_store s) (ms_store (snd (ms_get a k t1 t2 s)))"
  by (rule writes_withinI) (auto simp: ms_get_def ms_find_def [symmetric] split: option.splits if_splits)

lemma set_within:
  assumes "ms_set a k v ttl t wt s = (r, s')"
  shows "writes_within (accesses (ms_store s) now (Set a k)) (ms_store s) (ms_store s')"
  by (rule writes_withinI, cases "ms_find a k s") (auto simp: ms_find_set [OF assms] ms_find_def [symmetric] split: if_splits)

lemma del_within: "writes_within (accesses (ms_store s) now (Del a k)) (ms_store s) (ms_store (snd (ms_del a k s)))"
  by (rule writes_withinI, cases "ms_find a k s") (auto simp: ms_find_del ms_find_def [symmetric] split: if_splits)

lemma cas_within:
  "writes_within (accesses (ms_store s) now (Cas a k n)) (ms_store s) (ms_store (snd (ms_set_if_version a k v n t wt s)))"
  by (rule writes_withinI)
    (auto simp: ms_find_cas ms_entry_def ms_find_def [symmetric] split: if_splits option.splits)

lemma stale_within:
  "writes_within (accesses st now (Cleanup [(a, k)])) st (fst (snd (ms_stale (\<lambda>_. now) (a, k) (st, n))))"
  by (auto simp: writes_within_def ms_stale_def ms_expired_def bind_eq_Some_conv split: option.splits)

section \<open>The lock\<close>

text \<open>A call is before its lock, inside, or done. A \<open>shared_mutex\<close> lets a call in when the calls inside allow it.\<close>

datatype call_stage = Outside | Inside | Left

type_synonym store_calls = "(store_op \<times> call_stage) list"

fun compatible :: "lock_mode \<Rightarrow> lock_mode \<Rightarrow> bool" where
  "compatible Unlocked _ = True"
| "compatible _ Unlocked = True"
| "compatible Shared Shared = True"
| "compatible _ _ = False"

inductive lock_step :: "store_calls \<Rightarrow> store_calls \<Rightarrow> bool" where
  enter: "i < length cs \<Longrightarrow> cs ! i = (p, Outside) \<Longrightarrow>
    \<forall>j < length cs. snd (cs ! j) = Inside \<longrightarrow> compatible (mode_of p) (mode_of (fst (cs ! j))) \<Longrightarrow>
    lock_step cs (cs[i := (p, Inside)])"
| exit: "i < length cs \<Longrightarrow> cs ! i = (p, Inside) \<Longrightarrow> lock_step cs (cs[i := (p, Left)])"

definition start_ops :: "store_op list \<Rightarrow> store_calls" where
  "start_ops ps = map (\<lambda>p. (p, Outside)) ps"

definition races :: "table \<Rightarrow> int \<Rightarrow> store_calls \<Rightarrow> bool" where
  "races st now cs \<longleftrightarrow> (\<exists>i < length cs. \<exists>j < length cs. i \<noteq> j \<and> snd (cs ! i) = Inside \<and> snd (cs ! j) = Inside \<and>
     conflict (accesses st now (fst (cs ! i))) (accesses st now (fst (cs ! j))))"

section \<open>Which runs can race\<close>

lemma compatible_sym: "compatible l m = compatible m l"
  by (cases l; cases m) simp_all

definition locked_ok :: "store_op list \<Rightarrow> store_calls \<Rightarrow> bool" where
  "locked_ok ps cs \<longleftrightarrow> map fst cs = ps \<and> (\<forall>i < length cs. \<forall>j < length cs.
     i \<noteq> j \<longrightarrow> snd (cs ! i) = Inside \<longrightarrow> snd (cs ! j) = Inside \<longrightarrow> compatible (mode_of (ps ! i)) (mode_of (ps ! j)))"

lemma lock_step_ok:
  assumes "lock_step cs cs'" "locked_ok ps cs"
  shows "locked_ok ps cs'"
  using assms(1)
proof cases
  case (enter i p)
  have ps: "map fst cs = ps" using assms(2) by (simp add: locked_ok_def)
  have in_ok: "compatible (mode_of p) (mode_of (ps ! j))" if "j < length cs" "snd (cs ! j) = Inside" for j
    using that enter(4) ps by auto
  have p: "ps ! i = p" using enter(2,3) ps by auto
  have "map fst cs' = ps" using enter(1,2) ps p [symmetric] by (simp add: map_update)
  moreover have "compatible (mode_of (ps ! j)) (mode_of (ps ! k))"
    if "j < length cs" "k < length cs" "j \<noteq> k" "snd (cs' ! j) = Inside" "snd (cs' ! k) = Inside" for j k
    using that enter(1) in_ok [of j] in_ok [of k] p assms(2)
    by (cases "j = i"; cases "k = i") (auto simp: locked_ok_def compatible_sym nth_list_update)
  ultimately show ?thesis using enter(1) by (simp add: locked_ok_def)
next
  case (exit i p)
  have ps: "map fst cs = ps" using assms(2) by (simp add: locked_ok_def)
  then have p: "ps ! i = p" using exit(2,3) by auto
  have "map fst cs' = ps" using exit(1,2) ps p [symmetric] by (simp add: map_update)
  then show ?thesis using exit assms(2) by (auto simp: locked_ok_def nth_list_update)
qed

lemma start_ops_ok: "locked_ok ps (start_ops ps)"
  by (simp add: locked_ok_def start_ops_def comp_def)

lemma lock_reach_ok: "lock_step\<^sup>*\<^sup>* (start_ops ps) cs \<Longrightarrow> locked_ok ps cs"
  by (induction rule: rtranclp_induct) (auto intro: start_ops_ok lock_step_ok)

lemma both_inside:
  assumes "i < length ps" "j < length ps" "i \<noteq> j" "compatible (mode_of (ps ! i)) (mode_of (ps ! j))"
  shows "lock_step\<^sup>*\<^sup>* (start_ops ps) ((start_ops ps)[i := (ps ! i, Inside), j := (ps ! j, Inside)])"
proof -
  let ?a = "start_ops ps" and ?b = "(start_ops ps)[i := (ps ! i, Inside)]"
  have "lock_step ?a ?b" using assms(1) by (intro lock_step.enter) (simp_all add: start_ops_def)
  moreover have "lock_step ?b (?b[j := (ps ! j, Inside)])"
    using assms by (intro lock_step.enter) (auto simp: start_ops_def nth_list_update compatible_sym)
  ultimately show ?thesis by (meson converse_rtranclp_into_rtranclp r_into_rtranclp)
qed

lemma race_reachable_iff:
  "(\<exists>cs. lock_step\<^sup>*\<^sup>* (start_ops ps) cs \<and> races st now cs) \<longleftrightarrow>
   (\<exists>i < length ps. \<exists>j < length ps. i \<noteq> j \<and> compatible (mode_of (ps ! i)) (mode_of (ps ! j)) \<and>
      conflict (accesses st now (ps ! i)) (accesses st now (ps ! j)))" (is "?race \<longleftrightarrow> ?pair")
proof
  assume ?race
  then obtain cs i j where cs: "locked_ok ps cs" and ij: "i < length cs" "j < length cs" "i \<noteq> j"
    "snd (cs ! i) = Inside" "snd (cs ! j) = Inside" "conflict (accesses st now (fst (cs ! i))) (accesses st now (fst (cs ! j)))"
    unfolding races_def using lock_reach_ok by blast
  have "length ps = length cs" "fst (cs ! i) = ps ! i" "fst (cs ! j) = ps ! j" using cs ij by (auto simp: locked_ok_def)
  with cs ij show ?pair by (auto simp: locked_ok_def)
next
  assume ?pair
  then obtain i j where ij: "i < length ps" "j < length ps" "i \<noteq> j" "compatible (mode_of (ps ! i)) (mode_of (ps ! j))"
    "conflict (accesses st now (ps ! i)) (accesses st now (ps ! j))" by blast
  let ?cs = "(start_ops ps)[i := (ps ! i, Inside), j := (ps ! j, Inside)]"
  have "?cs ! i = (ps ! i, Inside)" "?cs ! j = (ps ! j, Inside)" "length ?cs = length ps"
    using ij(1-3) by (simp_all add: start_ops_def nth_list_update)
  then have "races st now ?cs" unfolding races_def using ij by (metis fst_conv snd_conv)
  with both_inside [OF ij(1-4)] show ?race by blast
qed

lemma conflict_sym: "conflict xs ys = conflict ys xs"
  by (auto simp: conflict_def)

lemma conflict_gets: "conflict (accesses st now (Get a k)) (accesses st now (Get b l)) \<longleftrightarrow>
    a = b \<and> k = l \<and> entry_in st a k \<noteq> None"
  by (auto simp: conflict_def)

lemma compatible_ops: "compatible (mode_of p) (mode_of q) \<longleftrightarrow>
    (\<exists>a k b l. p = Get a k \<and> q = Get b l) \<or> (\<exists>ks. p = Cleanup ks \<or> q = Cleanup ks)"
  by (cases p; cases q) auto

definition gets_meet :: "table \<Rightarrow> store_op \<Rightarrow> store_op \<Rightarrow> bool" where
  "gets_meet st p q \<longleftrightarrow> (\<exists>a k. p = Get a k \<and> q = Get a k \<and> entry_in st a k \<noteq> None)"

definition cleanup_meets :: "table \<Rightarrow> int \<Rightarrow> store_op \<Rightarrow> store_op \<Rightarrow> bool" where
  "cleanup_meets st now p q \<longleftrightarrow> (\<exists>ks. p = Cleanup ks \<and> conflict (accesses st now (Cleanup ks)) (accesses st now q))"

lemma racing_pair:
  "compatible (mode_of p) (mode_of q) \<and> conflict (accesses st now p) (accesses st now q) \<longleftrightarrow>
   gets_meet st p q \<or> cleanup_meets st now p q \<or> cleanup_meets st now q p"
proof (cases "(\<exists>ks. p = Cleanup ks) \<or> (\<exists>ks. q = Cleanup ks)")
  case True
  then have "compatible (mode_of p) (mode_of q)" "\<not> gets_meet st p q" by (auto simp: compatible_ops gets_meet_def)
  moreover have "cleanup_meets st now p q \<or> cleanup_meets st now q p \<longleftrightarrow> conflict (accesses st now p) (accesses st now q)"
    unfolding cleanup_meets_def using True conflict_sym by metis
  ultimately show ?thesis by blast
next
  case False
  then have "\<not> cleanup_meets st now p q" "\<not> cleanup_meets st now q p" by (auto simp: cleanup_meets_def)
  moreover have "compatible (mode_of p) (mode_of q) \<longleftrightarrow> (\<exists>a k b l. p = Get a k \<and> q = Get b l)"
    using False by (auto simp: compatible_ops)
  moreover have "conflict (accesses st now p) (accesses st now q) \<longleftrightarrow> gets_meet st p q" if "p = Get a k" "q = Get b l" for a k b l
    unfolding that conflict_gets gets_meet_def by auto
  moreover have "gets_meet st p q \<longrightarrow> (\<exists>a k b l. p = Get a k \<and> q = Get b l)" by (auto simp: gets_meet_def)
  ultimately show ?thesis by blast
qed



text \<open>A cleanup that meets an expired entry conflicts with every operation on that key, and every \<open>get\<close>.\<close>

lemma cleanup_conflicts:
  assumes "(a, k) \<in> set ks" "entry_in st a k = Some e" "ms_expired now e"
  shows "conflict (accesses st now (Cleanup ks)) (accesses st now (Get b l))"
    and "conflict (accesses st now (Cleanup ks)) (accesses st now (Set b l))"
proof -
  have "(True, Maps) \<in> set (accesses st now (Cleanup ks))" using assms by force
  then show "conflict (accesses st now (Cleanup ks)) (accesses st now (Get b l))"
    "conflict (accesses st now (Cleanup ks)) (accesses st now (Set b l))" by (fastforce simp: conflict_def)+
qed

text \<open>Without \<open>cleanup_expired\<close>, calls of \<open>get\<close> for different keys and all others are free of races.\<close>

lemma race_free:
  assumes "distinct ps" "\<forall>p \<in> set ps. \<forall>ks. p \<noteq> Cleanup ks" "lock_step\<^sup>*\<^sup>* (start_ops ps) cs"
  shows "\<not> races st now cs"
proof
  assume "races st now cs"
  with assms(3) have "\<exists>cs. lock_step\<^sup>*\<^sup>* (start_ops ps) cs \<and> races st now cs" by blast
  then obtain i j where ij: "i < length ps" "j < length ps" "i \<noteq> j"
    "gets_meet st (ps ! i) (ps ! j) \<or> cleanup_meets st now (ps ! i) (ps ! j) \<or> cleanup_meets st now (ps ! j) (ps ! i)"
    unfolding race_reachable_iff racing_pair by blast
  have "\<not> cleanup_meets st now (ps ! i) q" if "i < length ps" for i q
    using assms(2) nth_mem [OF that] by (auto simp: cleanup_meets_def)
  with ij have "ps ! i = ps ! j" by (auto simp: gets_meet_def)
  with ij show False using assms(1) by (simp add: nth_eq_iff_index_eq)
qed

end
