(* ===== verification/Store_Lifetime.thy ===== *)
theory Store_Lifetime
  imports Mem_Store
begin

text \<open>
  The end of a \<open>MemStore\<close> (\<^verbatim>\<open>src/mem_store.h\<close>) and the beginning of a thread pool
  (\<^verbatim>\<open>utils/thread_pool.inl\<close>). \<open>MemStore\<close> has no destructor of its own: its members are destroyed in the reverse order
  of their declaration, which is \<open>ttl_index_\<close>, the worker, the subscriptions, the log and last the pool,
  whose threads run notifications of the subscriptions until then.
\<close>

section \<open>The members, in reverse order of declaration\<close>

text \<open>The subscriptions: every list in the map is destroyed, and with it the linked list of its callbacks.\<close>

definition su_destroy :: "actor_id list \<Rightarrow> 'cb subsys \<Rightarrow> unit outcome" where
  "su_destroy order s = fst (seqP (\<lambda>a (u :: unit). (case Option.bind (su_map s a) (su_lists s) of
     None \<Rightarrow> Ret ()
   | Some l \<Rightarrow> tsl_destroy (sl_callbacks l), u)) order ())"

text \<open>\<open>order\<close> is the order in which the map of the subscriptions visits its keys; \<open>it\<close> and \<open>now\<close> are as in \<open>wb_dtor\<close>.\<close>

definition ms_dtor_worker :: "((nat \<Rightarrow> u64) \<times> int \<times> int) option \<Rightarrow> (nat \<Rightarrow> u64) \<Rightarrow> (unit, 'cb mstore) prog" where
  "ms_dtor_worker it now s = (case ms_worker s of
     None \<Rightarrow> (Ret (), s)
   | Some b \<Rightarrow> (case wb_dtor it now (b, ms_wal s, ms_fs s) of
       (r, b', w', f') \<Rightarrow> (r, s\<lparr>ms_worker := None, ms_wal := w', ms_fs := f'\<rparr>)))"

definition ms_dtor ::
  "((nat \<Rightarrow> u64) \<times> int \<times> int) option \<Rightarrow> (nat \<Rightarrow> u64) \<Rightarrow> actor_id list \<Rightarrow> (unit, 'cb mstore) prog" where
  "ms_dtor it now order =
     bindP (\<lambda>s. (tsl_destroy (ms_ttl s), s)) (\<lambda>_.
     bindP (ms_dtor_worker it now) (\<lambda>_.
     bindP (\<lambda>s. (su_destroy order (ms_subs s), s)) (\<lambda>_.
     modify (\<lambda>s. s\<lparr>ms_pool := tp_dtor (ms_pool s)\<rparr>))))"

lemma su_destroy_outcome:
  assumes "\<forall>a \<in> set order. \<forall>l. Option.bind (su_map s a) (su_lists s) = Some l \<longrightarrow> tsl_inv (sl_callbacks l)"
  shows "su_destroy order s = (if \<exists>a \<in> set order. \<exists>l. Option.bind (su_map s a) (su_lists s) = Some l \<and> sl_items l \<noteq> []
    then Undef Use_after_free else Ret ())"
  using assms
proof (induction order)
  case (Cons a order)
  then show ?case
    by (cases "Option.bind (su_map s a) (su_lists s)") (auto simp: su_destroy_def destroy_outcome sl_items_def)
qed (simp add: su_destroy_def)



section \<open>Notifications that come too late\<close>

text \<open>
  The steps of the pool's workers while the members are destroyed: \<open>free\<close> destroys the subscriptions, \<open>stop\<close> is
  the destructor of the pool, which comes after it. A worker that runs a notification after \<open>free\<close> calls \<open>notify\<close> of an object that is gone.
\<close>

record dying =
  dy_pool :: "job pool"
  dy_alive :: bool

inductive dy_step :: "dying \<Rightarrow> dying \<Rightarrow> bool" where
  check: "i < length (tp_workers (dy_pool d)) \<Longrightarrow> tp_workers (dy_pool d) ! i = Polling \<Longrightarrow>
    dy_step d (d\<lparr>dy_pool := worker_check i (dy_pool d)\<rparr>)"
| pop: "i < length (tp_workers (dy_pool d)) \<Longrightarrow> tp_workers (dy_pool d) ! i = Checked \<Longrightarrow>
    dy_step d (d\<lparr>dy_pool := worker_pop i (dy_pool d)\<rparr>)"
| finish: "i < length (tp_workers (dy_pool d)) \<Longrightarrow> tp_workers (dy_pool d) ! i = Running j \<Longrightarrow>
    dy_step d (d\<lparr>dy_pool := worker_finish i j (dy_pool d)\<rparr>)"
| free: "dy_alive d \<Longrightarrow> dy_step d (d\<lparr>dy_alive := False\<rparr>)"
| stop: "\<not> dy_alive d \<Longrightarrow> dy_step d (d\<lparr>dy_pool := tp_dtor (dy_pool d)\<rparr>)"

inductive_cases dy_stepE: "dy_step d d'"

definition late_notify :: "dying \<Rightarrow> bool" where
  "late_notify d \<longleftrightarrow> \<not> dy_alive d \<and> (\<exists>j. Running j \<in> set (tp_workers (dy_pool d)))"

text \<open>A pool that can still start a task: one has been submitted and a worker has not left its loop.\<close>

definition can_start :: "job pool \<Rightarrow> bool" where
  "can_start p \<longleftrightarrow> (\<exists>j. Running j \<in> set (tp_workers p)) \<or>
     (bq_items (tp_queue p) \<noteq> [] \<and> (Checked \<in> set (tp_workers p) \<or> \<not> tp_done p \<and> Polling \<in> set (tp_workers p)))"

lemma set_worker_mem:
  assumes "w \<in> set (tp_workers (set_worker i v p))"
  shows "w = v \<or> w \<in> set (tp_workers p)"
  using set_update_subset_insert [of "tp_workers p" i v] assms by (auto simp: set_worker_def)

lemma worker_pop_none: "bq_items (tp_queue p) = [] \<Longrightarrow> worker_pop i p = set_worker i Polling p"
  by (simp add: worker_pop_def bq_try_pop_def)

lemma idle_step:
  assumes "dy_step d d'" "\<not> can_start (dy_pool d)"
  shows "\<not> can_start (dy_pool d')"
  using assms(1)
proof cases
  case (check i)
  show ?thesis
  proof
    assume "can_start (dy_pool d')"
    then show False using assms(2) check(2,3) nth_mem [OF check(2)]
      by (auto simp: can_start_def check(1) worker_check_def dest!: set_worker_mem split: if_splits)
  qed
next
  case (pop i)
  have "Checked \<in> set (tp_workers (dy_pool d))" using pop(2,3) by (metis nth_mem)
  then have empty: "bq_items (tp_queue (dy_pool d)) = []" using assms(2) by (auto simp: can_start_def)
  show ?thesis
  proof
    assume "can_start (dy_pool d')"
    then show False using assms(2) empty by (auto simp: can_start_def pop(1) worker_pop_none dest!: set_worker_mem)
  qed
next
  case (finish i j)
  then show ?thesis using assms(2) by (metis can_start_def nth_mem)
next
  case stop
  then show ?thesis using assms(2) by (auto simp: can_start_def tp_dtor_def tp_stop_def)
qed (use assms(2) in simp)

lemma idle_reach: "dy_step\<^sup>*\<^sup>* d d' \<Longrightarrow> \<not> can_start (dy_pool d) \<Longrightarrow> \<not> can_start (dy_pool d')"
  by (induction rule: rtranclp_induct) (auto dest: idle_step)

text \<open>A run to a late notification: the members up to the subscriptions are destroyed while a worker is at work.\<close>

lemma late_running:
  assumes "i < length (tp_workers p)" "tp_workers p ! i = Running j"
  shows "\<exists>d. dy_step\<^sup>*\<^sup>* \<lparr>dy_pool = p, dy_alive = True\<rparr> d \<and> late_notify d"
proof -
  have "dy_step \<lparr>dy_pool = p, dy_alive = True\<rparr> \<lparr>dy_pool = p, dy_alive = False\<rparr>"
    using dy_step.free [of "\<lparr>dy_pool = p, dy_alive = True\<rparr>"] by simp
  moreover have "late_notify \<lparr>dy_pool = p, dy_alive = False\<rparr>" using assms by (auto simp: late_notify_def in_set_conv_nth)
  ultimately show ?thesis by blast
qed

lemma late_checked:
  assumes "i < length (tp_workers p)" "tp_workers p ! i = Checked" "bq_items (tp_queue p) \<noteq> []"
  shows "\<exists>d. dy_step\<^sup>*\<^sup>* \<lparr>dy_pool = p, dy_alive = True\<rparr> d \<and> late_notify d"
proof -
  obtain j js where it: "bq_items (tp_queue p) = j # js" using assms(3) by (meson neq_Nil_conv)
  let ?p = "worker_pop i p"
  have p: "i < length (tp_workers ?p)" "tp_workers ?p ! i = Running j"
    using assms(1) it by (simp_all add: worker_pop_def bq_try_pop_def bq_pop_def set_worker_def)
  have "dy_step \<lparr>dy_pool = p, dy_alive = True\<rparr> \<lparr>dy_pool = ?p, dy_alive = True\<rparr>"
    using dy_step.pop [of i "\<lparr>dy_pool = p, dy_alive = True\<rparr>"] assms(1,2) by simp
  then show ?thesis using late_running [OF p] by (meson converse_rtranclp_into_rtranclp)
qed

lemma late_polling:
  assumes "i < length (tp_workers p)" "tp_workers p ! i = Polling" "bq_items (tp_queue p) \<noteq> []" "\<not> tp_done p"
  shows "\<exists>d. dy_step\<^sup>*\<^sup>* \<lparr>dy_pool = p, dy_alive = True\<rparr> d \<and> late_notify d"
proof -
  let ?p = "worker_check i p"
  have p: "i < length (tp_workers ?p)" "tp_workers ?p ! i = Checked" "bq_items (tp_queue ?p) \<noteq> []"
    using assms by (simp_all add: worker_check_def) (simp_all add: set_worker_def)
  have "dy_step \<lparr>dy_pool = p, dy_alive = True\<rparr> \<lparr>dy_pool = ?p, dy_alive = True\<rparr>"
    using dy_step.check [of i "\<lparr>dy_pool = p, dy_alive = True\<rparr>"] assms(1,2) by simp
  then show ?thesis using late_checked [OF p] by (meson converse_rtranclp_into_rtranclp)
qed

text \<open>C17: The subscriptions of a store are destroyed before the pool that notifies them is stopped. A notification can therefore
  run on the destroyed subscriptions, and it can exactly when at the moment of destruction a worker is running one, or
  one is queued and a worker has not yet seen the end of the pool; no further \<open>set\<close> is needed.\<close>

theorem late_notification_iff:
  "(\<exists>d. dy_step\<^sup>*\<^sup>* \<lparr>dy_pool = p, dy_alive = True\<rparr> d \<and> late_notify d) \<longleftrightarrow> can_start p"
proof
  assume "\<exists>d. dy_step\<^sup>*\<^sup>* \<lparr>dy_pool = p, dy_alive = True\<rparr> d \<and> late_notify d"
  then obtain d where d: "dy_step\<^sup>*\<^sup>* \<lparr>dy_pool = p, dy_alive = True\<rparr> d" "late_notify d" by blast
  then have "can_start (dy_pool d)" by (auto simp: late_notify_def can_start_def)
  then show "can_start p" using idle_reach [OF d(1)] by auto
next
  assume "can_start p"
  then show "\<exists>d. dy_step\<^sup>*\<^sup>* \<lparr>dy_pool = p, dy_alive = True\<rparr> d \<and> late_notify d"
    unfolding can_start_def using late_running late_checked late_polling by (metis in_set_conv_nth)
qed

theorem late_notification_iff_witness:
  "\<exists>d. dy_step\<^sup>*\<^sup>* \<lparr>dy_pool = snd (tp_submit (Notify ''a'' ''k'' ''v'') (tp_new 1)), dy_alive = True\<rparr> d \<and> late_notify d"
  unfolding late_notification_iff by (simp add: can_start_def tp_submit_def tp_new_def bq_push_def bq_enqueue_def)

section \<open>Creating the threads of a pool\<close>

text \<open>
  The constructor of \<open>ThreadPool\<close> when the system may refuse to create a thread: \<open>spawns i\<close> says whether the \<open>i\<close>th
  one starts. Its handler sets \<open>done\<close> and rethrows without joining; the vector of the threads created
  before is then destroyed, and the destructor of a joinable thread ends the program.
\<close>

datatype 'w built = Built "'w pool" | Spawn_failed | Terminated

fun tp_spawn :: "(nat \<Rightarrow> bool) \<Rightarrow> nat \<Rightarrow> nat \<Rightarrow> 'w pool \<Rightarrow> 'w built" where
  "tp_spawn spawns i 0 p = Built p"
| "tp_spawn spawns i (Suc n) p = (if spawns i then tp_spawn spawns (Suc i) n (p\<lparr>tp_workers := tp_workers p @ [Polling]\<rparr>)
     else if tp_workers p = [] then Spawn_failed else Terminated)"

definition tp_construct :: "(nat \<Rightarrow> bool) \<Rightarrow> nat \<Rightarrow> 'w built" where
  "tp_construct spawns n = tp_spawn spawns 0 n (tp_new 0)"

lemma tp_spawn_outcome:
  "tp_spawn spawns i n (p\<lparr>tp_workers := replicate i Polling\<rparr>) =
    (if \<forall>j. i \<le> j \<and> j < i + n \<longrightarrow> spawns j then Built (p\<lparr>tp_workers := replicate (i + n) Polling\<rparr>)
     else if i = 0 \<and> \<not> spawns 0 then Spawn_failed else Terminated)"
proof (induction n arbitrary: i)
  case (Suc n)
  have rep: "replicate i Polling @ [Polling] = replicate (Suc i) (Polling :: 'a wstate)"
    by (simp add: replicate_append_same)
  show ?case
  proof (cases "spawns i")
    case True
    have "(\<forall>j. i \<le> j \<and> j < i + Suc n \<longrightarrow> spawns j) \<longleftrightarrow> (\<forall>j. Suc i \<le> j \<and> j < Suc i + n \<longrightarrow> spawns j)"
      using True by (metis Suc_leD Suc_leI add_Suc_shift le_neq_implies_less)
    moreover have "\<not> (i = 0 \<and> \<not> spawns 0)" using True by (cases i) auto
    ultimately show ?thesis using True Suc.IH [of "Suc i"] rep by (cases i) auto
  next
    case False
    then have "\<not> (\<forall>j. i \<le> j \<and> j < i + Suc n \<longrightarrow> spawns j)" by auto
    then show ?thesis using False by auto
  qed
qed simp

text \<open>A pool of \<open>n\<close> threads comes up as \<open>tp_new n\<close> exactly when all threads start; if the first one cannot be created the
  exception reaches the caller, and if a later one cannot be created the program ends.\<close>

theorem tp_construct_outcome:
  "tp_construct spawns n = (if list_all spawns [0..<n] then Built (tp_new n)
     else if \<not> spawns 0 then Spawn_failed else Terminated)"
proof -
  have new: "(tp_new 0 :: 'a pool)\<lparr>tp_workers := replicate 0 Polling\<rparr> = tp_new 0"
    "(tp_new 0 :: 'a pool)\<lparr>tp_workers := replicate n Polling\<rparr> = tp_new n" by (simp_all add: tp_new_def)
  have "list_all spawns [0..<n] \<longleftrightarrow> (\<forall>j. 0 \<le> j \<and> j < 0 + n \<longrightarrow> spawns j)" by (auto simp: list_all_iff)
  then show ?thesis
    using tp_spawn_outcome [of spawns 0 n "tp_new 0 :: 'a pool"] unfolding new(1) add_0 new(2) tp_construct_def by auto
qed

end
