(* ===== verification/Write_Behind_Store.thy ===== *)
theory Write_Behind_Store
  imports Mem_Store
begin

text \<open>
  A \<open>MemStore\<close> in write-behind mode (\<^verbatim>\<open>src/mem_store.cpp\<close>) together with its \<open>WriteBehindWorker\<close>
  (\<^verbatim>\<open>src/write_behind_worker.cpp\<close>): what \<open>set\<close> acknowledges while the worker's thread makes no progress.
\<close>

definition dirty_of :: "set_call \<Rightarrow> dirty" where
  "dirty_of c = (case c of (a, k, v, _) \<Rightarrow> \<lparr>d_actor = a, d_key = k, d_value = v\<rparr>)"

text \<open>The store, its worker with the queue \<open>q\<close>, and room in the pool for \<open>n\<close> notifications.\<close>

definition behind :: "'cb mstore \<Rightarrow> worker \<Rightarrow> nat \<Rightarrow> bool" where
  "behind s b n \<longleftrightarrow> ms_mode s = WriteBehind \<and> ms_worker s = Some b \<and> bq_inv (wb_queue b) \<and>
     \<not> bq_stopped (wb_queue b) \<and> bq_policy (wb_queue b) = Block \<and>
     \<not> tp_done (ms_pool s) \<and> \<not> bq_stopped (tp_queue (ms_pool s)) \<and>
     length (bq_items (tp_queue (ms_pool s))) + n \<le> bq_max (tp_queue (ms_pool s))"

lemma set_entry_frame [simp]:
  "ms_mode (ms_set_entry a k v ttl t s) = ms_mode s" "ms_worker (ms_set_entry a k v ttl t s) = ms_worker s"
  "ms_pool (ms_set_entry a k v ttl t s) = ms_pool s" "ms_wal (ms_set_entry a k v ttl t s) = ms_wal s"
  "ms_fs (ms_set_entry a k v ttl t s) = ms_fs s"
  by (simp_all add: ms_set_entry_def Let_def split: option.splits)

lemma set_behind:
  assumes "behind s b (Suc n)" "length (bq_items (wb_queue b)) < bq_max (wb_queue b)"
  shows "\<exists>s'. ms_set_call c s = (Ret (), s') \<and>
    behind s' (b\<lparr>wb_queue := bq_enqueue (dirty_of c) (wb_queue b)\<rparr>) n \<and> ms_wal s' = ms_wal s \<and> ms_fs s' = ms_fs s"
proof -
  obtain a k v ttl t wt where c: "c = (a, k, v, ttl, t, wt)" by (rule prod_cases6)
  let ?q = "bq_enqueue (dirty_of c) (wb_queue b)"
  let ?s1 = "(ms_set_entry a k v ttl t s)\<lparr>ms_worker := Some (b\<lparr>wb_queue := ?q\<rparr>)\<rparr>"
  have "bq_push (dirty_of c) (wb_queue b) = (Ret (), ?q)" using assms by (simp add: behind_def bq_push_def)
  then have "ms_log a k v wt (ms_set_entry a k v ttl t s) = (Ret (), ?s1)"
    using assms(1) by (simp add: behind_def c dirty_of_def ms_log_def ms_write_behind_append_def wb_enqueue_def zoom_def)
  moreover have "tp_submit (Notify a k v) (ms_pool s) = (Ret (), (ms_pool s)\<lparr>tp_queue := bq_enqueue (Notify a k v) (tp_queue (ms_pool s)),
      tp_accepted := tp_accepted (ms_pool s) @ [Notify a k v]\<rparr>)"
    using assms(1) by (auto simp: behind_def tp_submit_def bq_push_def)
  ultimately have "ms_set_call c s = (Ret (), ?s1\<lparr>ms_pool := (ms_pool s)\<lparr>tp_queue := bq_enqueue (Notify a k v) (tp_queue (ms_pool s)),
      tp_accepted := tp_accepted (ms_pool s) @ [Notify a k v]\<rparr>\<rparr>)"
    by (simp add: c ms_set_publish ms_publish_def bindP_def ret_def ms_notify_subscribers_def zoom_def)
  moreover have "bq_inv ?q" using assms by (simp add: behind_def bq_inv_def bq_enqueue_def)
  ultimately show ?thesis using assms by (auto simp: behind_def bq_enqueue_def)
qed

lemma sets_behind:
  assumes "behind s b (length cs + n)" "length (bq_items (wb_queue b)) + length cs \<le> bq_max (wb_queue b)"
  shows "\<exists>s' b'. seqP ms_set_call cs s = (Ret (), s') \<and> behind s' b' n \<and>
    bq_items (wb_queue b') = bq_items (wb_queue b) @ map dirty_of cs \<and> bq_max (wb_queue b') = bq_max (wb_queue b) \<and>
    ms_wal s' = ms_wal s \<and> ms_fs s' = ms_fs s"
  using assms
proof (induction cs arbitrary: s b)
  case (Cons c cs)
  let ?b = "b\<lparr>wb_queue := bq_enqueue (dirty_of c) (wb_queue b)\<rparr>"
  from set_behind [of s b "length cs + n" c] Cons.prems obtain s1 where
    s1: "ms_set_call c s = (Ret (), s1)" "behind s1 ?b (length cs + n)" "ms_wal s1 = ms_wal s" "ms_fs s1 = ms_fs s" by auto
  have "length (bq_items (wb_queue ?b)) + length cs \<le> bq_max (wb_queue ?b)" using Cons.prems(2) by (simp add: bq_enqueue_def)
  from Cons.IH [OF s1(2) this] s1 show ?case by (auto simp: bq_enqueue_def)
qed auto

text \<open>C39: How much a store in write-behind mode acknowledges when its worker does not take records (it was stopped, or is stuck
  on its own lock after a full batch): exactly as many calls of \<open>set\<close> return as there is room in the worker's queue,
  a thousand of them for an empty one; none of them is in the log or in any file; and the next call waits for ever, with the store
  locked and its value already visible.\<close>

theorem write_behind_capacity:
  assumes "behind s b (length cs)" "length (bq_items (wb_queue b)) + length cs = bq_max (wb_queue b)"
  shows "\<exists>s'. seqP ms_set_call cs s = (Ret (), s') \<and> ms_wal s' = ms_wal s \<and> ms_fs s' = ms_fs s \<and>
    ms_values s' = fold (\<lambda>c m. m(call_key c \<mapsto> call_value c)) cs (ms_values s) \<and>
    fst (ms_set a k v ttl t wt s') = Blocked \<and> ms_values (snd (ms_set a k v ttl t wt s')) (a, k) = Some v"
proof -
  from sets_behind [of s b cs 0] assms obtain s' b' where s': "seqP ms_set_call cs s = (Ret (), s')" "behind s' b' 0"
    "bq_items (wb_queue b') = bq_items (wb_queue b) @ map dirty_of cs" "bq_max (wb_queue b') = bq_max (wb_queue b)"
    "ms_wal s' = ms_wal s" "ms_fs s' = ms_fs s" by auto
  obtain r s2 where set: "ms_set a k v ttl t wt s' = (r, s2)" by fastforce
  have "length (bq_items (wb_queue b')) = bq_max (wb_queue b')" using s'(3,4) assms(2) by simp
  then have "fst (wb_enqueue \<lparr>d_actor = a, d_key = k, d_value = v\<rparr> (b', ms_wal s', ms_fs s')) = Blocked"
    using s'(2) by (simp add: behind_def wb_enqueue_def zoom_def bq_push_def)
  then have "fst (ms_log a k v wt (ms_set_entry a k v ttl t s')) = Blocked"
    using s'(2) by (auto simp: behind_def ms_log_def ms_write_behind_append_def split: prod.splits)
  then have "r = Blocked" using set by (auto simp: ms_set_publish ms_publish_def bindP_def split: prod.splits)
  moreover have "ms_values s2 (a, k) = Some v" by (simp add: ms_values_def ms_find_set [OF set])
  moreover have "ms_values (snd (seqP ms_set_call cs s)) = fold (\<lambda>c m. m(call_key c \<mapsto> call_value c)) cs (ms_values s)"
    using s'(1)
  proof (induction cs arbitrary: s)
    case (Cons c cs)
    then obtain s1 where s1: "ms_set_call c s = (Ret (), s1)" "seqP ms_set_call cs s1 = (Ret (), s')"
      by (auto split: prod.splits outcome.splits)
    have "ms_values s1 = (ms_values s)(call_key c \<mapsto> call_value c)" using ms_kv.look_put [of c s] s1(1) by simp
    with Cons.IH [OF s1(2)] s1 show ?case by simp
  qed simp
  ultimately show ?thesis using s' set by simp
qed

theorem write_behind_capacity_witness:
  "\<exists>s'. seqP ms_set_call (replicate 1000 (''a'', ''k'', ''1'', None, 0, 0)) (ex_store WriteBehind) = (Ret (), s') \<and>
     ms_fs s' = ex_fs \<and> fst (ms_set ''a'' ''k'' ''2'' None 1 1 s') = Blocked"
proof -
  let ?cs = "replicate 1000 (''a'', ''k'', ''1'', None, 0, 0) :: set_call list" and ?b = "wb_start 0 (wb_new 100)"
  have "behind (ex_store WriteBehind) ?b (length ?cs)"
    by (simp add: behind_def ex_store_def ms_new_def wb_start_def wb_new_def tp_new_def)
  moreover have "length (bq_items (wb_queue ?b)) + length ?cs = bq_max (wb_queue ?b)"
    by (simp add: wb_start_def wb_new_def)
  ultimately show ?thesis
    using write_behind_capacity [of "ex_store WriteBehind" ?b ?cs "''a''" "''k''" "''2''" None 1 1]
    by (auto simp: ex_store_props)
qed

end
