(* ===== verification/Timestamp.thy ===== *)
theory Timestamp
  imports Wal
begin

text \<open>
  \<^verbatim>\<open>utils/common_utility.h\<close>: the time in milliseconds as a string, which nothing calls. The clock is the argument, in
  nanoseconds; \<open>duration_cast\<close> rounds towards zero and \<open>std::to_string\<close> prints a signed number.
\<close>

definition to_millis :: "int \<Rightarrow> int" where
  "to_millis now = (if 0 \<le> now then now div 1000000 else - (- now div 1000000))"

definition to_string :: "int \<Rightarrow> string" where
  "to_string n = (if n < 0 then CHR ''-'' # show_nat (nat (- n)) else show_nat (nat n))"

definition current_timestamp :: "int \<Rightarrow> string" where
  "current_timestamp now = to_string (to_millis now)"

lemma to_millis_bounds:
  assumes "0 \<le> now" "now < 18446744073709551616000000"
  shows "0 \<le> to_millis now" "to_millis now < 2 ^ 64"
  using assms by (simp_all add: to_millis_def)

text \<open>From the epoch on, for as long as the milliseconds fit into 64 bits, the helper prints the number that the log stamps
  its entries with, in the way the log prints it, and \<open>stoull\<close> reads it back.\<close>

theorem timestamp_roundtrip:
  assumes "0 \<le> now" "now < 18446744073709551616000000"
  shows "current_timestamp now = show_u64 (of_int (to_millis now)) \<and>
    stoull (current_timestamp now) = Ret (of_int (to_millis now))"
proof -
  let ?w = "of_int (to_millis now) :: u64"
  note b = to_millis_bounds [OF assms]
  then have "unat ?w = nat (to_millis now)" by (simp add: unsigned_of_int take_bit_int_eq_self)
  then have "current_timestamp now = show_u64 ?w" using b(1) by (simp add: current_timestamp_def to_string_def show_u64_def)
  then show ?thesis by simp
qed

theorem timestamp_roundtrip_witness:
  "stoull (current_timestamp 1700000000123456789) = Ret 1700000000123"
  using timestamp_roundtrip [of 1700000000123456789] by (simp add: to_millis_def)

end
