(* ===== verification/Spec2Isabelle.thy ===== *)
theory Spec2Isabelle
  imports Actor System_Locking Actor_Lifetime Scheduler_Loop Concurrent_Set Proto_Messages List_Reentry
    Queue_Monitor Store_Locking Store_Lifetime Write_Behind_Store Timestamp
begin

text \<open>
  Iquora is a state store for actors: a gRPC service in front of an in-memory key-value store
  with a write-ahead log, publishing every change to the clients that subscribed to the actor,
  and a library of actors with message queues, a thread pool and a scheduler. This development
  models the C++ sources under \<^verbatim>\<open>src/\<close>, class by class, and proves what the classes promise each
  other and what the service promises its clients.

  \<^bold>\<open>How the parts interact.\<close> \<^verbatim>\<open>main\<close> creates a store, a log, a lifecycle, a thread pool and a
  write-behind worker and hands them to the service. A \<^verbatim>\<open>Set\<close> request goes to the store, which
  writes its own log if it has one and notifies its own subscribers through the pool; the
  service then appends to the service's log and calls the callbacks of the \<^verbatim>\<open>Subscribe\<close> calls in
  progress, each of which puts the message into the inbound queue of its stream. \<^verbatim>\<open>SpawnActor\<close> and
  \<^verbatim>\<open>TerminateActor\<close> go to the lifecycle, which writes the initial state into the store. Actors
  (client classes derived from \<^verbatim>\<open>AbstractActor\<close>) keep a bounded queue of closures, a thread that
  runs them, and a lifecycle of their own; \<^verbatim>\<open>ActorSystem\<close> registers them with a scheduler, which
  drains their queues and runs timed tasks on the pool.

  \<^bold>\<open>Theories and sources.\<close>
  \<^item> \<^verbatim>\<open>Prelude\<close>: outcomes of a call (a value, a thrown exception, waiting, locking a mutex the thread
    already owns, access to freed memory) and state-passing programs over them; the widths of the machine integers.
  \<^item> \<^verbatim>\<open>Threadsafe_List\<close>: \<^verbatim>\<open>utils/threadsafe_list.h\<close>, nodes on an explicit heap. Abstraction
    \<open>contents\<close>; the operations refine operations on sequences, the removal loop and the
    destructor of a non-empty list read freed nodes.
  \<^item> \<^verbatim>\<open>List_Locking\<close>, \<^verbatim>\<open>List_Progress\<close>: the same file with every lock, unlock and access to a node as a
    step of one of several threads: the hand-over-hand locking makes the list linearisable and
    free of deadlock, and all calls terminate.
  \<^item> \<^verbatim>\<open>List_Reentry\<close>: a callback that calls the list it runs on, as a second call whose thread stands still; it returns
    exactly when it need not pass the node of the callback, so a subscriber cannot unsubscribe itself.
  \<^item> \<^verbatim>\<open>Threadsafe_Queue\<close>: \<^verbatim>\<open>utils/threadsafe_queue.h/.cpp\<close>, the bounded queue with its overflow
    policies; the items that leave are a subsequence of those that entered, and \<^verbatim>\<open>Stop\<close> can lose a wake-up.
  \<^item> \<^verbatim>\<open>Queue_Monitor\<close>: the same queue with any number of calls in progress, asleep or woken; \<open>notify_one\<close> loses no
    wake-up, and the calls cannot wait for each other.
  \<^item> \<^verbatim>\<open>Thread_Pool\<close>: \<^verbatim>\<open>utils/callable.h\<close>, \<^verbatim>\<open>utils/thread_pool.h/.inl\<close>, workers, \<^verbatim>\<open>Submit\<close> and \<^verbatim>\<open>Stop\<close> as a step
    relation; reachable pools start tasks in the order of submission and can drain.
  \<^item> \<^verbatim>\<open>Cpp_Strings\<close>, \<^verbatim>\<open>Wal\<close>: \<^verbatim>\<open>src/wal.h/.cpp\<close> with the decimal output, \<^verbatim>\<open>std::stoull\<close> and \<^verbatim>\<open>std::getline\<close> it
    uses, over files and streams. A line parses back to its entry; append refines adding an
    entry to a list; replaying a fresh log gives the entries appended; rotation hides entries.
  \<^item> \<^verbatim>\<open>Pubsub\<close>: \<^verbatim>\<open>src/pubsub.h/.cpp\<close>, lists of subscribers behind pointers; refines a table of
    subscriptions; \<^verbatim>\<open>notify\<close> may follow a dangling pointer.
  \<^item> \<^verbatim>\<open>Write_Behind\<close>: \<^verbatim>\<open>src/write_behind_worker.h/.cpp\<close>; no record is lost or duplicated between queue,
    batch and log, and the worker stops for ever when its batch is full.
  \<^item> \<^verbatim>\<open>Mem_Store\<close>: \<^verbatim>\<open>src/mem_store.h/.cpp\<close>; refines a map from actors and keys to values, versions and expiry
    times; everything set is in the log before it is in the map.
  \<^item> \<^verbatim>\<open>Store_Locking\<close>: which operations of the store can be inside its \<^verbatim>\<open>shared_mutex\<close> together and which locations they access:
    the data races of the store are exactly those of \<open>get\<close> with itself and of \<open>cleanup_expired\<close> with the others.
  \<^item> \<^verbatim>\<open>Store_Lifetime\<close>: the destruction of the members of \<^verbatim>\<open>MemStore\<close> in reverse order of declaration, while the pool still
    runs notifications of subscriptions that are gone; and the constructor of the pool when a thread cannot be created.
  \<^item> \<^verbatim>\<open>Write_Behind_Store\<close>: a store with a worker that takes no records: what is acknowledged is bounded by the worker's queue
    and is in no file.
  \<^item> \<^verbatim>\<open>Actor_Lifecycle\<close>: \<^verbatim>\<open>src/actor_lifecycle.h/.cpp\<close> with the owner of the mutex in the state; \<^verbatim>\<open>SpawnActor\<close>
    locks the mutex twice for every valid identifier, and the body it does not reach is verified on its own.
  \<^item> \<^verbatim>\<open>Scheduler\<close>: \<^verbatim>\<open>src/scheduler.h/.cpp\<close>; a pass runs every queued task, timers fire in the order of
    their deadlines, and a periodic task runs at most twice; a scheduler with a registered actor has no safe end.
  \<^item> \<^verbatim>\<open>Scheduler_Loop\<close>: the loop of \<open>ScheduleActors\<close> over its passes; what arrives between passes is run, once
    and in order, and an actor that keeps sending itself messages starves the others.
  \<^item> \<^verbatim>\<open>Actor\<close>: \<^verbatim>\<open>src/abstract_actor.h\<close>, \<^verbatim>\<open>src/actor_system.h/.cpp\<close>; messages are handled in order, an \<^verbatim>\<open>Ask\<close> gets
    exactly one answer, and \<^verbatim>\<open>Initialize\<close> never returns because of the lifecycle.
  \<^item> \<^verbatim>\<open>Actor_Lifetime\<close>: \<^verbatim>\<open>src/abstract_actor.h\<close> again, with the references that queued and running tasks hold to
    their actor and the two threads that run them: an actor lives exactly as long as something refers to it; without
    \<^verbatim>\<open>Stop\<close> its destructor joins its own thread, with \<^verbatim>\<open>Stop\<close> first it does not, but tasks left in the queue are
    never freed; two tasks of one actor can run at once.
  \<^item> \<^verbatim>\<open>System_Locking\<close>: \<^verbatim>\<open>Shutdown\<close> and \<^verbatim>\<open>Deregister\<close> of \<^verbatim>\<open>src/actor_system.h/.cpp\<close> hold the mutex of the system while they wait
    for an actor's thread; they can deadlock exactly when a handler calls the system.
  \<^item> \<^verbatim>\<open>Subscribe_Streams\<close>: the subscription half of \<^verbatim>\<open>src/server.h/.cpp\<close>, the \<^verbatim>\<open>Subscribe\<close> calls as interleaved
    state machines; publishing reaches each stream that is registered and is memory-safe as long as
    no registration races with the removal of the last other one; such a race loses the
    registration and can lead a publisher and the destructor of the list into freed memory.
  \<^item> \<^verbatim>\<open>Stream_Delivery\<close>: what a client of \<^verbatim>\<open>Subscribe\<close> receives over a whole history refines a specification
    over the events alone: the changes of its actor published while it listens, once and in order.
  \<^item> \<^verbatim>\<open>Server\<close>: the handlers of \<^verbatim>\<open>src/server.cpp\<close> and \<^verbatim>\<open>src/main.cpp\<close> over all the components above; what the
    gRPC server does to the service is a parameter of \<open>main_program\<close>.
  \<^item> \<^verbatim>\<open>Concurrent_Set\<close>: several calls of \<^verbatim>\<open>Set\<close> of \<^verbatim>\<open>src/server.cpp\<close> in progress, a schedule deciding which
    takes its next step (store, service's log, publishing): the store and its log follow the order of the first
    steps, the service's log that of the second steps, the subscribers that of the third steps, so these can end with
    different values; store and log agree where calls on one key do not overlap.
  \<^item> \<^verbatim>\<open>Proto_Runtime\<close>, \<^verbatim>\<open>Proto_Messages\<close>: the message classes of \<^verbatim>\<open>proto/iquora.pb.h/.cc\<close>. The protobuf
    runtime is not part of the repository: it is the parameter \<open>runtime\<close>, with the documented
    behaviour the generated code relies on in \<open>runtime_ok\<close>.
  \<^item> \<^verbatim>\<open>Timestamp\<close>: \<^verbatim>\<open>utils/common_utility.h\<close>, which nothing calls; it prints the milliseconds as the log does.

  \<^bold>\<open>Interfaces.\<close> \<open>seq_store\<close> and \<open>registry\<close> are what the clients of the list rely on (interpreted on
  the list, and on the list of subscribers), \<open>fifo\<close> is what the clients of a queue rely on
  (interpreted on the queue with its two ways of popping), \<open>kv_store\<close> is what the users of the store
  rely on (interpreted on the store), \<open>proto_message\<close> is what the service relies on in a message
  (interpreted on each of the ten classes).

  \<^bold>\<open>Threads.\<close> An operation that holds one mutex throughout is one step. Where the code releases a
  mutex in the middle of an operation, or several threads run loops, the model has the pieces
  as separate steps: \<open>tp_step\<close>, \<open>stop_step\<close>, \<open>timer_step\<close>, \<open>shut_step\<close>, the two halves of \<open>su_notify\<close>
  and of \<open>publish_change\<close>, the events of \<open>exec\<close>, \<open>set_step\<close> for
  the three parts of \<^verbatim>\<open>Set\<close>, \<open>sa_step\<close> for an actor with its owners and the threads that run its tasks,
  \<open>ay_step\<close> for the mutex of the actor system, \<open>advance\<close> for the locks inside a list, \<open>mo_step\<close> for calls waiting on the condition variables of a queue,
  \<open>lock_step\<close> for the mutex of the store and \<open>dy_step\<close> for the pool of a store that is being destroyed. Elsewhere waiting
  on a condition variable is the outcome \<open>Blocked\<close> or a step that is not enabled. Clock readings are arguments of the operations.

  \<^bold>\<open>Bounds and fuel.\<close> Machine integers are words of their width (\<open>u64\<close>, \<open>u32\<close>) and wrap; where a property needs
  that a counter of identifiers or versions has not wrapped, it says so in a hypothesis (fewer
  than \<open>2 ^ 64 - 1\<close> events). Traversals of a linked list take fuel, the list's allocation counter plus one:
  the nodes of a well-formed list are distinct and below the counter (\<open>tsl_inv\<close>), so the fuel is
  never used up. \<open>sc_drain\<close> runs client code that may push more work and takes fuel as well; what is
  proved of it says how much is enough, or that none is. Other loops are recursions over the data the code consumes.

  \<^bold>\<open>Not modelled.\<close> \<^verbatim>\<open>utils/thread_pool.cpp\<close> is an older copy of the pool that is not compilable;
  \<^verbatim>\<open>ThreadSafeList::remove_by_id\<close> reads a member that its nodes do not have, so it cannot be
  instantiated; \<^verbatim>\<open>src/store.h\<close> is a pure interface that no class derives from; the gRPC stubs, the
  parse tables, descriptors and reflection data are input of libraries that are not in the repository.
  Log output is left out. \<open>remove_if\<close>, which reads freed memory even without other threads, is not
  among the interleaved operations of \<^verbatim>\<open>List_Locking\<close>. The pool's queue is bounded at \<open>2 ^ 32 - 1\<close> tasks; a \<^verbatim>\<open>Set\<close> that finds it full has the outcome
  \<open>Blocked\<close>, and the model does not follow it when room appears (\<open>pool_room\<close> in \<^verbatim>\<open>Concurrent_Set\<close> excludes it).
\<close>

end
